(* ===== verification/Catalog_Prelude.thy ===== *)
theory Catalog_Prelude
  imports Main "HOL-Library.Sublist"
begin

text \<open>
  What every component of the catalog builder shares: exceptions as values, the
  state-and-exception operations the database code is written in (with a small Hoare
  calculus for them), decimal rendering of integers, and the interning tables in which
  the catalog keeps its dimension and dictionary names.

  Strings are \<open>char list\<close>s. The code treats the characters of a key as opaque except for
  the ASCII ones its literals name, so a character stands for one code point of the
  Python string.
\<close>

section \<open>Exceptions and operations on a state\<close>

text \<open>A Python exception: the name of its class and its \<open>str(e)\<close>.\<close>

datatype exn = Exn (exn_type: string) (exn_msg: string)

text \<open>The text the code records for a failure, \<open>f"{type(e).__name__}: {e}"\<close>.\<close>

definition exn_text :: "exn \<Rightarrow> string" where
  "exn_text e = exn_type e @ '': '' @ exn_msg e"

text \<open>
  An operation reads and writes a state and returns a value or raises. The state is
  returned in both cases: what was done before a \<open>raise\<close> stays done.
\<close>

type_synonym ('s, 'a) op = "'s \<Rightarrow> (exn + 'a) \<times> 's"

definition return_op :: "'a \<Rightarrow> ('s, 'a) op" where
  "return_op x = (\<lambda>s. (Inr x, s))"

definition raise_op :: "exn \<Rightarrow> ('s, 'a) op" where
  "raise_op e = (\<lambda>s. (Inl e, s))"

definition bind_op :: "('s, 'a) op \<Rightarrow> ('a \<Rightarrow> ('s, 'b) op) \<Rightarrow> ('s, 'b) op" where
  "bind_op m f = (\<lambda>s. case m s of (Inl e, t) \<Rightarrow> (Inl e, t) | (Inr x, t) \<Rightarrow> f x t)"

text \<open>A \<open>for\<close> loop whose body may raise; the accumulator is the loop's local state.\<close>

fun fold_op :: "('x \<Rightarrow> 'a \<Rightarrow> ('s, 'a) op) \<Rightarrow> 'x list \<Rightarrow> 'a \<Rightarrow> ('s, 'a) op" where
  "fold_op f [] a = return_op a"
| "fold_op f (x # xs) a = bind_op (f x a) (fold_op f xs)"

lemma return_op_apply [simp]: "return_op x s = (Inr x, s)"
  by (simp add: return_op_def)

lemma raise_op_apply [simp]: "raise_op e s = (Inl e, s)"
  by (simp add: raise_op_def)

lemma bind_op_Inr [simp]: "m s = (Inr x, t) \<Longrightarrow> bind_op m f s = f x t"
  by (simp add: bind_op_def)

lemma bind_op_Inl [simp]: "m s = (Inl e, t) \<Longrightarrow> bind_op m f s = (Inl e, t)"
  by (simp add: bind_op_def)

text \<open>
  Inversion: an operation built with \<open>bind_op\<close> returned because both halves did.
\<close>

lemma bind_op_InrE:
  assumes "bind_op m f s = (Inr y, u)"
  obtains x t where "m s = (Inr x, t)" and "f x t = (Inr y, u)"
  using assms by (auto simp: bind_op_def split: prod.splits sum.splits)

lemma bind_op_cases:
  obtains (raised) e t where "m s = (Inl e, t)" and "bind_op m f s = (Inl e, t)"
  | (returned) x t where "m s = (Inr x, t)" and "bind_op m f s = f x t"
  by (cases "m s"; cases "fst (m s)") (auto simp: bind_op_def)

subsection \<open>A Hoare calculus for operations\<close>

text \<open>
  \<open>hoare P m Q E\<close>: from a state satisfying \<open>P\<close>, the operation ends in one satisfying
  \<open>Q x\<close> if it returns \<open>x\<close>, and in one satisfying \<open>E e\<close> if it raises \<open>e\<close>. Operations are
  total, so this is total correctness; \<open>never\<close> as the last argument says that the operation
  does not raise.
\<close>

definition hoare ::
  "('s \<Rightarrow> bool) \<Rightarrow> ('s, 'a) op \<Rightarrow> ('a \<Rightarrow> 's \<Rightarrow> bool) \<Rightarrow> (exn \<Rightarrow> 's \<Rightarrow> bool) \<Rightarrow> bool"
where
  "hoare P m Q E \<longleftrightarrow>
     (\<forall>s. P s \<longrightarrow> (case m s of (Inl e, t) \<Rightarrow> E e t | (Inr x, t) \<Rightarrow> Q x t))"

abbreviation never :: "exn \<Rightarrow> 's \<Rightarrow> bool" where
  "never \<equiv> \<lambda>_ _. False"

named_theorems op_rules \<open>Hoare rules for the operations of the components\<close>

lemma hoareI:
  assumes "\<And>s e t. P s \<Longrightarrow> m s = (Inl e, t) \<Longrightarrow> E e t"
    and "\<And>s x t. P s \<Longrightarrow> m s = (Inr x, t) \<Longrightarrow> Q x t"
  shows "hoare P m Q E"
  using assms by (auto simp: hoare_def split: prod.splits sum.splits)

lemma hoareD_Inr: "hoare P m Q E \<Longrightarrow> P s \<Longrightarrow> m s = (Inr x, t) \<Longrightarrow> Q x t"
  by (fastforce simp: hoare_def)

lemma hoareD_Inl: "hoare P m Q E \<Longrightarrow> P s \<Longrightarrow> m s = (Inl e, t) \<Longrightarrow> E e t"
  by (fastforce simp: hoare_def)

lemma hoare_returns:
  assumes "hoare P m Q never" and "P s"
  obtains x t where "m s = (Inr x, t)" and "Q x t"
  using assms by (cases "m s"; cases "fst (m s)") (auto simp: hoare_def)

lemma hoare_weaken:
  assumes "hoare P' m Q' E'"
    and "\<And>s. P s \<Longrightarrow> P' s"
    and "\<And>x s. Q' x s \<Longrightarrow> Q x s"
    and "\<And>e s. E' e s \<Longrightarrow> E e s"
  shows "hoare P m Q E"
  using assms by (fastforce simp: hoare_def split: prod.splits sum.splits)

lemma hoare_return: "(\<And>s. P s \<Longrightarrow> Q x s) \<Longrightarrow> hoare P (return_op x) Q E"
  by (simp add: hoare_def)

lemma hoare_raise: "(\<And>s. P s \<Longrightarrow> E e s) \<Longrightarrow> hoare P (raise_op e) Q E"
  by (simp add: hoare_def)

lemma hoare_bind:
  assumes "hoare P m R E" and "\<And>x. hoare (R x) (f x) Q E"
  shows "hoare P (bind_op m f) Q E"
  using assms by (fastforce simp: hoare_def bind_op_def split: prod.splits sum.splits)

lemma hoare_fold:
  assumes step: "\<And>x a. x \<in> set xs \<Longrightarrow> hoare (I a) (f x a) I E"
  shows "hoare (I a) (fold_op f xs a) I E"
  using step
proof (induction xs arbitrary: a)
  case Nil
  show ?case by (simp add: hoare_def)
next
  case (Cons x xs)
  have "hoare (I a) (f x a) I E" by (simp add: Cons.prems)
  moreover have "hoare (I b) (fold_op f xs b) I E" for b
    by (rule Cons.IH) (simp add: Cons.prems)
  ultimately show ?case by (simp add: hoare_bind)
qed

section \<open>Decimal rendering\<close>

text \<open>\<open>str(n)\<close> of a Python integer, as f-strings and \<open>json.dumps\<close> write it.\<close>

definition digit :: "nat \<Rightarrow> char" where
  "digit d = char_of (48 + d)"

fun show_nat :: "nat \<Rightarrow> string" where
  "show_nat n = (if n < 10 then [digit n] else show_nat (n div 10) @ [digit (n mod 10)])"

declare show_nat.simps [simp del]

definition show_int :: "int \<Rightarrow> string" where
  "show_int i = (if i < 0 then CHR ''-'' # show_nat (nat (- i)) else show_nat (nat i))"

definition digits_value :: "string \<Rightarrow> nat" where
  "digits_value s = foldl (\<lambda>a c. 10 * a + (of_char c - 48)) 0 s"

lemma of_char_digit [simp]: "d < 10 \<Longrightarrow> (of_char (digit d) :: nat) = 48 + d"
  by (simp add: digit_def take_bit_eq_mod)

lemma digits_value_snoc [simp]:
  "digits_value (s @ [c]) = 10 * digits_value s + (of_char c - 48)"
  by (simp add: digits_value_def)

lemma digits_value_show_nat [simp]: "digits_value (show_nat n) = n"
proof (induction n rule: show_nat.induct)
  case (1 n)
  show ?case
  proof (cases "n < 10")
    case True
    then show ?thesis
      by (subst show_nat.simps) (simp add: digits_value_def)
  next
    case False
    with 1 show ?thesis
      by (subst show_nat.simps) simp
  qed
qed

lemma show_nat_inject [simp]: "show_nat m = show_nat n \<longleftrightarrow> m = n"
  by (metis digits_value_show_nat)

lemma show_nat_digits: "c \<in> set (show_nat n) \<Longrightarrow> 48 \<le> (of_char c :: nat) \<and> (of_char c :: nat) < 58"
proof (induction n rule: show_nat.induct)
  case (1 n)
  show ?case
  proof (cases "n < 10")
    case True
    with "1.prems" show ?thesis by (subst (asm) show_nat.simps) simp
  next
    case False
    with "1.prems" have "c \<in> set (show_nat (n div 10)) \<or> c = digit (n mod 10)"
      by (subst (asm) show_nat.simps) auto
    with False "1.IH" show ?thesis by auto
  qed
qed

lemma show_nat_not_minus [simp]: "CHR ''-'' \<notin> set (show_nat n)" "CHR '':'' \<notin> set (show_nat n)"
  using show_nat_digits [of "CHR ''-''" n] show_nat_digits [of "CHR '':''" n] by auto

lemma show_nat_nonempty [simp]: "show_nat n \<noteq> []"
  by (subst show_nat.simps) simp

lemma show_nat_not_Cons_minus [simp]: "CHR ''-'' # s \<noteq> show_nat n"
  by (metis list.set_intros(1) show_nat_not_minus(1))

lemma show_int_inject [simp]: "show_int i = show_int j \<longleftrightarrow> i = j"
proof -
  have "show_nat n \<noteq> CHR ''-'' # s" for n s
    by (metis show_nat_not_Cons_minus)
  then show ?thesis by (auto simp: show_int_def)
qed

lemma show_int_no_colon [simp]: "CHR '':'' \<notin> set (show_int i)"
  by (simp add: show_int_def)

text \<open>Splitting at the first occurrence of a separator is unambiguous.\<close>

lemma append_sep_eq:
  assumes "xs @ c # ys = xs' @ c # ys'" and "c \<notin> set xs" and "c \<notin> set xs'"
  shows "xs = xs'" and "ys = ys'"
proof -
  have "takeWhile ((\<noteq>) c) (xs @ c # ys) = xs" if "c \<notin> set xs" for xs ys
    using that by (subst takeWhile_append2) auto
  with assms show "xs = xs'" by metis
  with assms(1) show "ys = ys'" by simp
qed

section \<open>Association lists with unique keys\<close>

lemma map_of_snoc: "k \<notin> fst ` set t \<Longrightarrow> map_of (t @ [(k, v)]) = (map_of t)(k \<mapsto> v)"
  by (induction t) (auto simp: map_add_def fun_eq_iff)

lemma map_of_eq_Some_in: "map_of t k = Some v \<Longrightarrow> (k, v) \<in> set t"
  by (rule map_of_SomeD)

lemma map_of_distinct_values_inj:
  assumes "distinct (map snd t)" and "map_of t k = Some v" and "map_of t k' = Some v"
  shows "k = k'"
proof -
  from assms(2,3) have "(k, v) \<in> set t" and "(k', v) \<in> set t"
    by (auto dest: map_of_SomeD)
  with assms(1) show ?thesis
    by (metis distinct_map fst_conv inj_on_def snd_conv)
qed

lemma distinct_map_filter_fst: "distinct (map f xs) \<Longrightarrow> distinct (map f (filter P xs))"
  by (induction xs) auto

text \<open>SQLite upsert on a primary key: replace the row in place, or append it.\<close>

fun upsert :: "'k \<Rightarrow> 'v \<Rightarrow> ('k \<times> 'v) list \<Rightarrow> ('k \<times> 'v) list" where
  "upsert k v [] = [(k, v)]"
| "upsert k v ((k', v') # t) = (if k' = k then (k, v) # t else (k', v') # upsert k v t)"

definition delete_key :: "'k \<Rightarrow> ('k \<times> 'v) list \<Rightarrow> ('k \<times> 'v) list" where
  "delete_key k t = filter (\<lambda>(k', _). k' \<noteq> k) t"

lemma map_of_upsert [simp]: "map_of (upsert k v t) = (map_of t)(k \<mapsto> v)"
  by (induction t rule: upsert.induct) (auto simp: fun_eq_iff)

lemma fst_upsert [simp]: "fst ` set (upsert k v t) = insert k (fst ` set t)"
  by (induction t rule: upsert.induct) auto

lemma set_upsert_subset: "set (upsert k v t) \<subseteq> insert (k, v) (set t)"
  by (induction t rule: upsert.induct) auto

lemma distinct_upsert [simp]:
  "distinct (map fst t) \<Longrightarrow> distinct (map fst (upsert k v t))"
  by (induction t rule: upsert.induct) (auto simp: image_iff dest: set_upsert_subset [THEN subsetD])

lemma map_of_delete_key [simp]: "map_of (delete_key k t) = (map_of t)(k := None)"
  by (induction t) (auto simp: delete_key_def fun_eq_iff)

lemma distinct_delete_key [simp]:
  "distinct (map fst t) \<Longrightarrow> distinct (map fst (delete_key k t))"
  by (simp add: delete_key_def distinct_map_filter_fst)

lemma fst_delete_key [simp]: "fst ` set (delete_key k t) = fst ` set t - {k}"
  by (force simp: delete_key_def)

section \<open>Searching by a unique key\<close>

lemma find_key_Some:
  "distinct (map g xs) \<Longrightarrow> find (\<lambda>r. g r = k) xs = Some r \<longleftrightarrow> r \<in> set xs \<and> g r = k"
  by (induction xs) (auto simp: image_iff)

lemma find_key_None: "find (\<lambda>r. g r = k) xs = None \<longleftrightarrow> k \<notin> g ` set xs"
  by (auto simp: find_None_iff)

lemma find_cong_in: "(\<And>x. x \<in> set xs \<Longrightarrow> P x = Q x) \<Longrightarrow> find P xs = find Q xs"
  by (induction xs) auto

lemma find_map_update:
  "(\<And>r. g (h r) = g r) \<Longrightarrow>
    find (\<lambda>r. g r = k) (map h xs) = map_option h (find (\<lambda>r. g r = k) xs)"
  by (induction xs) auto

lemma find_key_filter:
  assumes "distinct (map g xs)"
  shows "find (\<lambda>r. g r = k) (filter (\<lambda>r. \<not> P r) xs) =
    (case find (\<lambda>r. g r = k) xs of None \<Rightarrow> None | Some r \<Rightarrow> if P r then None else Some r)"
  using assms
proof (induction xs)
  case (Cons x xs)
  show ?case
  proof (cases "g x = k \<and> P x")
    case True
    with Cons.prems have "k \<notin> g ` set (filter (\<lambda>r. \<not> P r) xs)" by auto
    then have "find (\<lambda>r. g r = k) (filter (\<lambda>r. \<not> P r) xs) = None" by (simp only: find_key_None not_False_eq_True)
    with True show ?thesis by simp
  next
    case False
    with Cons show ?thesis by auto
  qed
qed simp

end
