(* ===== verification/Keyparse.thy ===== *)
theory Keyparse
  imports Catalog_Prelude "HOL-Library.Monad_Syntax"
begin

text \<open>
  \<open>keyparse.py\<close>: parsing a Hive-partitioned object key into its dimensions and rebuilding the key
  from them. The regular expression is translated part by part: a literal, then a group \<open>[^/]+\<close>,
  which is always followed by the next literal's slash and therefore is the whole segment. Two
  details of Python are kept: \<open>lstrip('/')\<close> removes every leading slash, and \<open>$\<close> also matches
  before a final newline.
\<close>

section \<open>Parsing and rebuilding\<close>

record dims =
  dim_customer :: string
  dim_site :: string
  dim_robot :: string
  dim_source :: string
  dim_date :: string
  dim_filename :: string

definition lstrip_slash :: "string \<Rightarrow> string" where
  "lstrip_slash s = dropWhile (\<lambda>c. c = CHR ''/'') s"

definition match_literal :: "string \<Rightarrow> string \<Rightarrow> string option" where
  "match_literal l s = (if prefix l s then Some (drop (length l) s) else None)"

text \<open>The group \<open>[^/]+\<close> of a partition: the segment up to the next slash, never empty.\<close>

definition match_segment :: "string \<Rightarrow> (string \<times> string) option" where
  "match_segment s =
     (let seg = takeWhile (\<lambda>c. c \<noteq> CHR ''/'') s
      in if seg = [] then None else Some (seg, drop (length seg) s))"

text \<open>The last group, \<open>[^/]+\.mcap$\<close>, with \<open>$\<close> at the end or before a final newline.\<close>

definition newline :: char where
  "newline = CHR 0x0A"

definition match_filename :: "string \<Rightarrow> string option" where
  "match_filename s =
     (if CHR ''/'' \<in> set s then None
      else if suffix ''.mcap'' s \<and> 5 < length s then Some s
      else if suffix (''.mcap'' @ [newline]) s \<and> 6 < length s then Some (butlast s)
      else None)"

definition parse_hive_key :: "string \<Rightarrow> dims option" where
  "parse_hive_key key = do {
     s \<leftarrow> match_literal ''customer='' (lstrip_slash key);
     (c, s) \<leftarrow> match_segment s;
     s \<leftarrow> match_literal ''/customer_site='' s;
     (st, s) \<leftarrow> match_segment s;
     s \<leftarrow> match_literal ''/robot='' s;
     (r, s) \<leftarrow> match_segment s;
     s \<leftarrow> match_literal ''/source='' s;
     (src, s) \<leftarrow> match_segment s;
     s \<leftarrow> match_literal ''/date='' s;
     (d, s) \<leftarrow> match_segment s;
     s \<leftarrow> match_literal ''/'' s;
     f \<leftarrow> match_filename s;
     Some \<lparr>dim_customer = c, dim_site = st, dim_robot = r, dim_source = src,
           dim_date = d, dim_filename = f\<rparr>
   }"

definition rebuild_hive_key :: "dims \<Rightarrow> string" where
  "rebuild_hive_key d =
     ''customer='' @ dim_customer d @ ''/customer_site='' @ dim_site d @ ''/robot='' @ dim_robot d @
     ''/source='' @ dim_source d @ ''/date='' @ dim_date d @ ''/'' @ dim_filename d"

section \<open>The keys that parse\<close>

definition wf_segment :: "string \<Rightarrow> bool" where
  "wf_segment s \<longleftrightarrow> s \<noteq> [] \<and> CHR ''/'' \<notin> set s"

definition wf_dims :: "dims \<Rightarrow> bool" where
  "wf_dims d \<longleftrightarrow>
     wf_segment (dim_customer d) \<and> wf_segment (dim_site d) \<and> wf_segment (dim_robot d) \<and>
     wf_segment (dim_source d) \<and> wf_segment (dim_date d) \<and>
     CHR ''/'' \<notin> set (dim_filename d) \<and> suffix ''.mcap'' (dim_filename d) \<and> 5 < length (dim_filename d)"

lemma match_literal_Some [simp]: "match_literal l s = Some r \<longleftrightarrow> s = l @ r"
  by (auto simp: match_literal_def prefix_def)

lemma match_segment_Some [simp]:
  "match_segment s = Some (seg, r) \<longleftrightarrow>
     s = seg @ r \<and> wf_segment seg \<and> (r = [] \<or> hd r = CHR ''/'')"
proof
  assume "match_segment s = Some (seg, r)"
  then have seg: "seg = takeWhile (\<lambda>c. c \<noteq> CHR ''/'') s" "seg \<noteq> []" and r: "r = drop (length seg) s"
    by (auto simp: match_segment_def Let_def split: if_splits)
  have "r = dropWhile (\<lambda>c. c \<noteq> CHR ''/'') s" by (simp add: r seg dropWhile_eq_drop)
  then show "s = seg @ r \<and> wf_segment seg \<and> (r = [] \<or> hd r = CHR ''/'')"
    using seg hd_dropWhile [of "\<lambda>c. c \<noteq> CHR ''/''" s] by (auto simp: wf_segment_def dest: set_takeWhileD)
next
  assume "s = seg @ r \<and> wf_segment seg \<and> (r = [] \<or> hd r = CHR ''/'')"
  moreover from this have "takeWhile (\<lambda>c. c \<noteq> CHR ''/'') s = seg"
    by (cases r) (auto simp: wf_segment_def takeWhile_append)
  ultimately show "match_segment s = Some (seg, r)"
    by (auto simp: match_segment_def wf_segment_def)
qed

lemma match_filename_Some [simp]:
  "match_filename s = Some f \<longleftrightarrow>
     CHR ''/'' \<notin> set f \<and> suffix ''.mcap'' f \<and> 5 < length f \<and> (s = f \<or> s = f @ [newline])"
proof -
  have nl: "\<not> suffix ''.mcap'' (f @ [newline])" for f
    by (auto simp: suffix_def newline_def append_eq_append_conv2 Cons_eq_append_conv)
  have "suffix (''.mcap'' @ [newline]) s \<Longrightarrow> s = butlast s @ [newline] \<and> suffix ''.mcap'' (butlast s)"
    by (auto simp: suffix_def butlast_append)
  then show ?thesis
    using nl by (auto simp: match_filename_def newline_def suffix_def)
qed

lemma lstrip_slash_Cons [simp]: "lstrip_slash (CHR ''/'' # s) = lstrip_slash s"
  by (simp add: lstrip_slash_def)

lemma lstrip_slash_rebuild [simp]: "lstrip_slash (rebuild_hive_key d) = rebuild_hive_key d"
  by (simp add: lstrip_slash_def rebuild_hive_key_def)

lemma match_segment_slash:
  "wf_segment seg \<Longrightarrow> match_segment (seg @ CHR ''/'' # r) = Some (seg, CHR ''/'' # r)"
  by simp

lemma parse_hive_key_sound:
  "parse_hive_key key = Some d \<Longrightarrow>
    wf_dims d \<and> (lstrip_slash key = rebuild_hive_key d \<or> lstrip_slash key = rebuild_hive_key d @ [newline])"
  unfolding parse_hive_key_def rebuild_hive_key_def wf_dims_def by (auto simp: bind_eq_Some_conv)

lemma parse_hive_key_complete:
  assumes wf: "wf_dims d" and t: "t = [] \<or> t = [newline]"
    and key: "lstrip_slash key = rebuild_hive_key d @ t"
  shows "parse_hive_key key = Some d"
proof -
  have "match_filename (dim_filename d @ t) = Some (dim_filename d)"
    using wf t by (auto simp: wf_dims_def)
  then show ?thesis
    using wf unfolding parse_hive_key_def key rebuild_hive_key_def wf_dims_def
    by (simp add: match_segment_slash match_literal_def del: match_literal_Some match_filename_Some)
qed

lemma parse_rebuild_hive_key [simp]: "wf_dims d \<Longrightarrow> parse_hive_key (rebuild_hive_key d) = Some d"
  by (rule parse_hive_key_complete [where t = "[]"]) simp_all

text \<open>C26. Exactly the keys that parse: those that are, leading slashes apart, the rebuilt key of
  well-formed dimensions, possibly followed by one newline.\<close>

theorem parse_hive_key_iff:
  "parse_hive_key key = Some d \<longleftrightarrow>
     wf_dims d \<and>
     (lstrip_slash key = rebuild_hive_key d \<or> lstrip_slash key = rebuild_hive_key d @ [newline])"
  by (metis append_Nil2 parse_hive_key_complete parse_hive_key_sound)

section \<open>The trust rule\<close>

text \<open>
  The rule by which \<open>builder.resolve_key_dims\<close> and the \<open>do_POST\<close> handler of \<open>tag_ipc\<close> accept a key: it
  parses and the parse rebuilds the key exactly (leading slashes apart).
\<close>

definition trusted_dims :: "string \<Rightarrow> dims option" where
  "trusted_dims key =
     (case parse_hive_key key of
        None \<Rightarrow> None
      | Some d \<Rightarrow> if rebuild_hive_key d \<noteq> lstrip_slash key then None else Some d)"

lemma trusted_dims_Some [simp]:
  "trusted_dims key = Some d \<longleftrightarrow> wf_dims d \<and> lstrip_slash key = rebuild_hive_key d"
proof
  assume "trusted_dims key = Some d"
  then show "wf_dims d \<and> lstrip_slash key = rebuild_hive_key d"
    using parse_hive_key_sound [of key d]
    by (simp add: trusted_dims_def split: option.splits if_splits)
next
  assume d: "wf_dims d \<and> lstrip_slash key = rebuild_hive_key d"
  then have "parse_hive_key key = Some d"
    by (intro parse_hive_key_complete [where t = "[]"]) simp_all
  with d show "trusted_dims key = Some d" by (simp add: trusted_dims_def)
qed

lemma trusted_dims_rebuild: "wf_dims d \<Longrightarrow> trusted_dims (rebuild_hive_key d) = Some d"
  by simp


definition sample_dims :: dims where
  "sample_dims =
     \<lparr>dim_customer = ''acme'', dim_site = ''berlin'', dim_robot = ''r1'', dim_source = ''bag'',
      dim_date = ''2026-05-19'', dim_filename = ''rosbox_0.mcap''\<rparr>"

lemma wf_sample_dims [simp]: "wf_dims sample_dims"
  by (simp add: sample_dims_def wf_dims_def wf_segment_def suffix_to_prefix)


text \<open>
  A key with leading slashes is trusted like the key without them, so two different objects of a
  bucket can have the same identity; and the rebuilt key is then not the object's key.
\<close>

lemma trusted_leading_slash: "trusted_dims (CHR ''/'' # key) = trusted_dims key"
  by (simp only: trusted_dims_def parse_hive_key_def lstrip_slash_Cons)

text \<open>A trailing newline parses but is not trusted.\<close>

lemma newline_parsed_not_trusted:
  assumes "wf_dims d"
  shows "parse_hive_key (rebuild_hive_key d @ [newline]) = Some d"
    and "trusted_dims (rebuild_hive_key d @ [newline]) = None"
proof -
  have l: "lstrip_slash (rebuild_hive_key d @ [newline]) = rebuild_hive_key d @ [newline]"
    by (simp add: lstrip_slash_def rebuild_hive_key_def)
  show p: "parse_hive_key (rebuild_hive_key d @ [newline]) = Some d"
    using assms l by (intro parse_hive_key_complete [where t = "[newline]"]) auto
  show "trusted_dims (rebuild_hive_key d @ [newline]) = None"
    by (simp add: trusted_dims_def p l)
qed

end
