(* ===== verification/Varint.thy ===== *)
theory Varint
  imports Catalog_Prelude "HOL-Library.Word"
begin

unbundle bit_operations_syntax

text \<open>
  \<open>varint.py\<close>: unsigned LEB128 and the packed \<open>topic_counts\<close> blob. Python integers are
  \<open>int\<close>, a \<open>bytes\<close> object is a list of 8-bit words. The two \<open>while True\<close> loops are recursive
  functions; the decoder's loop is indexed by the read position, as in the source.
\<close>

type_synonym bytes = "8 word list"

section \<open>The codec\<close>

text \<open>
  The loop of \<open>encode_varint\<close>. The source enters it with a non-negative \<open>n\<close> only (on a negative
  one the shift would never reach 0), so the conjunct \<open>0 \<le> n\<close> of the test is always true there
  and makes the function total.
\<close>

function encode_loop :: "int \<Rightarrow> bytes" where
  "encode_loop n =
     (let byte = n AND 0x7F; n' = drop_bit 7 n
      in if n' \<noteq> 0 \<and> 0 \<le> n then word_of_int (byte OR 0x80) # encode_loop n'
         else [word_of_int byte])"
  by pat_completeness auto
termination
proof (relation "measure nat")
  fix n byte n' :: int
  assume "n' = drop_bit 7 n" and "n' \<noteq> 0 \<and> 0 \<le> n"
  then show "(n', n) \<in> measure nat"
    by (simp add: drop_bit_eq_div nonneg_int_cases) linarith
qed simp

declare encode_loop.simps [simp del]

definition negative_varint :: "int \<Rightarrow> exn" where
  "negative_varint n =
     Exn ''ValueError'' (''varint cannot encode negative value: '' @ show_int n)"

definition encode_varint :: "int \<Rightarrow> exn + bytes" where
  "encode_varint n = (if n < 0 then Inl (negative_varint n) else Inr (encode_loop n))"

definition truncated_varint :: exn where
  "truncated_varint = Exn ''ValueError'' ''truncated varint''"

function decode_loop :: "bytes \<Rightarrow> nat \<Rightarrow> int \<Rightarrow> nat \<Rightarrow> exn + (int \<times> nat)" where
  "decode_loop data pos result shift =
     (if length data \<le> pos then Inl truncated_varint
      else
        let byte = uint (data ! pos);
            result' = result OR push_bit shift (byte AND 0x7F)
        in if byte AND 0x80 = 0 then Inr (result', pos + 1)
           else decode_loop data (pos + 1) result' (shift + 7))"
  by pat_completeness auto
termination
  by (relation "measure (\<lambda>(data, pos, _). length data - pos)") auto

declare decode_loop.simps [simp del]

definition decode_varint :: "bytes \<Rightarrow> nat \<Rightarrow> exn + (int \<times> nat)" where
  "decode_varint data pos = decode_loop data pos 0 0"

fun encode_counts_blob :: "int list \<Rightarrow> exn + bytes" where
  "encode_counts_blob [] = Inr []"
| "encode_counts_blob (c # cs) =
     (case encode_varint c of
        Inl e \<Rightarrow> Inl e
      | Inr b \<Rightarrow> (case encode_counts_blob cs of Inl e \<Rightarrow> Inl e | Inr bs \<Rightarrow> Inr (b @ bs)))"

lemma decode_loop_advances:
  "decode_loop data pos r s = Inr (v, pos') \<Longrightarrow> pos < pos' \<and> pos' \<le> length data"
proof (induction data pos r s rule: decode_loop.induct)
  case (1 data pos r s)
  then show ?case
    by (subst (asm) decode_loop.simps) (fastforce simp: Let_def split: if_splits)
qed

function decode_counts_from :: "bytes \<Rightarrow> nat \<Rightarrow> int list \<Rightarrow> exn + int list" where
  "decode_counts_from blob pos counts =
     (if pos < length blob then
        (case decode_varint blob pos of
           Inl e \<Rightarrow> Inl e
         | Inr (value, pos') \<Rightarrow> decode_counts_from blob pos' (counts @ [value]))
      else Inr counts)"
  by pat_completeness auto
termination
  by (relation "measure (\<lambda>(blob, pos, _). length blob - pos)")
    (auto simp: decode_varint_def dest!: decode_loop_advances)

declare decode_counts_from.simps [simp del]

definition decode_counts_blob :: "bytes \<Rightarrow> exn + int list" where
  "decode_counts_blob blob = decode_counts_from blob 0 []"

section \<open>Bits as arithmetic\<close>

lemma and_7F: "(n::int) AND 0x7F = n mod 128"
proof -
  have "n AND mask 7 = take_bit 7 n" by (simp add: take_bit_eq_mask)
  then show ?thesis by (simp add: mask_eq_exp_minus_1 take_bit_eq_mod)
qed

lemma bit_128: "bit (128::int) n \<longleftrightarrow> n = 7"
  using bit_exp_iff [of 7 n, where ?'a = int] by auto

lemma bit_below_128: "0 \<le> b \<Longrightarrow> b < 128 \<Longrightarrow> bit (b::int) n \<Longrightarrow> n < 7"
  using bit_take_bit_iff [of 7 b n] by (simp add: take_bit_int_eq_self)

lemma and_80_below: "0 \<le> b \<Longrightarrow> b < 128 \<Longrightarrow> (b::int) AND 0x80 = 0"
  by (rule bit_eqI) (auto simp: bit_and_iff bit_128 dest: bit_below_128)

lemma or_80: "0 \<le> b \<Longrightarrow> b < 128 \<Longrightarrow> (b::int) OR 0x80 = b + 128"
  using plus_and_or [of b 128] by (simp add: and_80_below)

lemma and_80_above:
  assumes "128 \<le> b" and "b < 256"
  shows "(b::int) AND 0x80 = 128"
proof -
  have "b = (b - 128) OR 128" using or_80 [of "b - 128"] assms by simp
  then have "b AND 128 = ((b - 128) AND 128) OR (128 AND 128)"
    by (metis bit.conj_disj_distrib2)
  then show ?thesis using and_80_below [of "b - 128"] assms by simp
qed

lemma or_push_bit:
  assumes "0 \<le> r" and "r < 2 ^ s"
  shows "(r::int) OR push_bit s b = r + b * 2 ^ s"
proof -
  have "n < s" if "bit r n" for n
    using assms that by (metis bit_take_bit_iff take_bit_int_eq_self)
  then have "r AND push_bit s b = 0"
    by (intro bit_eqI) (metis bit_and_iff bit_push_bit_iff bit_0_eq bot_apply bot_bool_def not_less)
  then show ?thesis using plus_and_or [of r "push_bit s b"] by (simp add: push_bit_eq_mult)
qed

text \<open>A terminating byte: its continuation bit is clear.\<close>

definition terminal :: "8 word \<Rightarrow> bool" where
  "terminal b \<longleftrightarrow> uint b < 128"

lemma uint_byte_bounds: "0 \<le> uint (b :: 8 word)" "uint (b :: 8 word) < 256"
  using uint_lt2p [of b] by simp_all

lemma continuation_bit: "uint (b :: 8 word) AND 0x80 = 0 \<longleftrightarrow> terminal b"
  using uint_byte_bounds [of b] and_80_below [of "uint b"] and_80_above [of "uint b"]
  by (cases "uint b < 128") (auto simp: terminal_def)

lemma encode_loop_unfold:
  assumes "0 \<le> n"
  shows "encode_loop n =
    (if n < 128 then [word_of_int n] else word_of_int (n mod 128 + 128) # encode_loop (n div 128))"
proof -
  have "drop_bit 7 n = n div 128" by (simp add: drop_bit_eq_div)
  moreover have "n div 128 = 0 \<longleftrightarrow> n < 128" using assms by auto
  ultimately show ?thesis
    using assms by (subst encode_loop.simps) (simp add: Let_def and_7F or_80)
qed

lemma decode_loop_unfold:
  "decode_loop data pos r s =
    (if length data \<le> pos then Inl truncated_varint
     else if terminal (data ! pos) then Inr (r OR push_bit s (uint (data ! pos) mod 128), pos + 1)
     else decode_loop data (pos + 1) (r OR push_bit s (uint (data ! pos) mod 128)) (s + 7))"
  by (subst decode_loop.simps) (simp add: Let_def continuation_bit and_7F)

lemma terminal_word_of_int:
  "0 \<le> n \<Longrightarrow> n < 128 \<Longrightarrow> terminal (word_of_int n)"
  "0 \<le> n \<Longrightarrow> n < 128 \<Longrightarrow> uint (word_of_int n :: 8 word) = n"
  by (simp_all add: terminal_def uint_word_of_int)

lemma continued_word_of_int:
  assumes "0 \<le> m" and "m < 128"
  shows "uint (word_of_int (m + 128) :: 8 word) = m + 128"
    and "\<not> terminal (word_of_int (m + 128))"
proof -
  have "uint (word_of_int (m + 128) :: 8 word) = (m + 128) mod 2 ^ LENGTH(8)"
    by (rule uint_word_of_int)
  also have "\<dots> = m + 128" using assms by simp
  finally show u: "uint (word_of_int (m + 128) :: 8 word) = m + 128" .
  show "\<not> terminal (word_of_int (m + 128))"
    unfolding terminal_def u using assms by simp
qed

lemmas continued_simps = continued_word_of_int [simplified]

section \<open>Round trips\<close>

lemma decode_loop_encode_loop:
  assumes "0 \<le> n" and "0 \<le> r" and "r < 2 ^ s"
  shows "decode_loop (pre @ encode_loop n @ rest) (length pre) r s =
    Inr (r + n * 2 ^ s, length pre + length (encode_loop n))"
  using assms
proof (induction n arbitrary: pre r s rule: encode_loop.induct)
  case (1 n)
  show ?case
  proof (cases "n < 128")
    case True
    with "1.prems" show ?thesis
      by (subst decode_loop_unfold)
        (simp add: encode_loop_unfold terminal_word_of_int or_push_bit)
  next
    case False
    let ?b = "word_of_int (n mod 128 + 128) :: 8 word"
    let ?r = "r + n mod 128 * 2 ^ s"
    have n': "0 \<le> n div 128" "drop_bit 7 n = n div 128" "n div 128 \<noteq> 0"
      using "1.prems" False by (auto simp: drop_bit_eq_div)
    have "n mod 128 * 2 ^ s \<le> 127 * 2 ^ s"
      by (intro mult_right_mono) (use pos_mod_bound [of 128 n] in auto)
    moreover have "0 \<le> n mod 128 * 2 ^ s" by simp
    moreover have "(2::int) ^ (s + 7) = 128 * 2 ^ s" by (simp add: power_add)
    ultimately have r': "0 \<le> ?r" "?r < 2 ^ (s + 7)"
      using "1.prems"(2,3) by linarith+
    have "decode_loop ((pre @ [?b]) @ encode_loop (n div 128) @ rest) (length (pre @ [?b])) ?r (s + 7)
      = Inr (?r + n div 128 * 2 ^ (s + 7), length (pre @ [?b]) + length (encode_loop (n div 128)))"
      using "1.IH" [OF refl refl, of ?r "s + 7" "pre @ [?b]"] n' r' "1.prems" by simp
    moreover have "?r + n div 128 * 2 ^ (s + 7) = r + n * 2 ^ s"
      using div_mult_mod_eq [of n 128] by (simp add: power_add algebra_simps flip: distrib_left)
    ultimately show ?thesis
      using "1.prems" False
      by (subst decode_loop_unfold)
        (simp add: encode_loop_unfold [of n] continued_simps or_push_bit)
  qed
qed

text \<open>Decoding an encoded integer gives it back and stops right behind its bytes, wherever
  the encoding stands in the data: the code is self-delimiting.\<close>

theorem varint_roundtrip:
  assumes "encode_varint n = Inr b"
  shows "decode_varint (pre @ b @ rest) (length pre) = Inr (n, length pre + length b)"
  using assms by (auto simp: encode_varint_def decode_varint_def decode_loop_encode_loop split: if_splits)

lemma encode_varint_300: "encode_varint 300 = Inr [0xAC, 0x02]"
  by (simp add: encode_varint_def encode_loop_unfold)

theorem varint_roundtrip_witness:
  "encode_varint 300 = Inr [0xAC, 0x02] \<and>
   decode_varint ([0x05] @ [0xAC, 0x02] @ [0x07]) 1 = Inr (300, 3)"
  using varint_roundtrip [OF encode_varint_300, of "[0x05]" "[0x07]"] encode_varint_300 by simp

lemma encode_loop_nonempty [simp]: "encode_loop n \<noteq> []"
  by (subst encode_loop.simps) (simp add: Let_def)

lemma encode_counts_blob_nonneg:
  "\<forall>c \<in> set cs. 0 \<le> c \<Longrightarrow> encode_counts_blob cs = Inr (concat (map encode_loop cs))"
  by (induction cs) (auto simp: encode_varint_def)

lemma encode_counts_blob_InrD: "encode_counts_blob cs = Inr blob \<Longrightarrow> \<forall>c \<in> set cs. 0 \<le> c"
  by (induction cs arbitrary: blob) (auto simp: encode_varint_def split: sum.splits if_splits)

text \<open>Packing counts fails exactly on a negative count, with the error of the first one; otherwise
  the blob is the concatenation of the counts' encodings in order.\<close>

theorem encode_counts_blob_total:
  "encode_counts_blob cs =
    (case find (\<lambda>c. c < 0) cs of
       Some c \<Rightarrow> Inl (negative_varint c)
     | None \<Rightarrow> Inr (concat (map encode_loop cs)))"
  by (induction cs) (auto simp: encode_varint_def split: option.splits)

lemma decode_counts_from_concat:
  assumes "\<forall>c \<in> set cs. 0 \<le> c"
  shows "decode_counts_from (pre @ concat (map encode_loop cs)) (length pre) acc = Inr (acc @ cs)"
  using assms
proof (induction cs arbitrary: pre acc)
  case Nil
  show ?case by (subst decode_counts_from.simps) simp
next
  case (Cons c cs)
  let ?rest = "concat (map encode_loop cs)"
  have "decode_varint (pre @ encode_loop c @ ?rest) (length pre) =
      Inr (c, length (pre @ encode_loop c))"
    using Cons.prems by (simp add: decode_varint_def decode_loop_encode_loop)
  moreover have "decode_counts_from ((pre @ encode_loop c) @ ?rest) (length (pre @ encode_loop c))
      (acc @ [c]) = Inr ((acc @ [c]) @ cs)"
    using Cons.prems by (intro Cons.IH) simp
  ultimately show ?case
    by (subst decode_counts_from.simps) simp
qed

lemma decode_encoded_counts: "encode_counts_blob cs = Inr blob \<Longrightarrow> decode_counts_blob blob = Inr cs"
  using encode_counts_blob_InrD [of cs blob] decode_counts_from_concat [of cs "[]" "[]"]
  by (simp add: encode_counts_blob_nonneg decode_counts_blob_def)

text \<open>C40. A packed counts blob unpacks to the counts it was made from, in order.\<close>

theorem counts_blob_roundtrip:
  assumes "encode_counts_blob cs = Inr blob"
  shows "decode_counts_blob blob = Inr cs"
  using assms by (rule decode_encoded_counts)

theorem counts_blob_roundtrip_witness:
  "decode_counts_blob [0x05, 0x00, 0xAC, 0x02] = Inr [5, 0, 300]"
  by (rule counts_blob_roundtrip) (simp add: encode_varint_def encode_loop_unfold)

section \<open>What any blob decodes to\<close>

abbreviation terminals :: "bytes \<Rightarrow> nat" where
  "terminals bs \<equiv> length (filter terminal bs)"

lemma decode_loop_result:
  "case decode_loop data pos r s of
     Inl e \<Rightarrow> e = truncated_varint \<and> terminals (drop pos data) = 0
   | Inr (v, pos') \<Rightarrow>
       terminals (drop pos data) = Suc (terminals (drop pos' data)) \<and> terminal (data ! (pos' - 1))"
proof (induction data pos r s rule: decode_loop.induct)
  case (1 data pos r s)
  show ?case
  proof (cases "length data \<le> pos")
    case True
    then show ?thesis by (subst decode_loop_unfold) simp
  next
    case False
    then have d: "drop pos data = data ! pos # drop (pos + 1) data"
      using Cons_nth_drop_Suc [of pos data] by simp
    show ?thesis
    proof (cases "terminal (data ! pos)")
      case True
      with False d show ?thesis by (subst decode_loop_unfold) simp
    next
      case nt: False
      then have "uint (data ! pos) AND 0x80 \<noteq> 0" by (simp add: continuation_bit)
      from "1.IH" [OF False refl refl this] nt False d show ?thesis
        by (subst decode_loop_unfold) (auto simp: and_7F split: sum.splits)
    qed
  qed
qed

lemma decode_counts_from_result:
  assumes "pos \<le> length blob"
  shows "case decode_counts_from blob pos acc of
     Inl e \<Rightarrow> e = truncated_varint \<and> pos < length blob \<and> \<not> terminal (last blob)
   | Inr cs \<Rightarrow> length cs = length acc + terminals (drop pos blob) \<and>
       (pos < length blob \<longrightarrow> terminal (last blob))"
  using assms
proof (induction blob pos acc rule: decode_counts_from.induct)
  case (1 blob pos acc)
  show ?case
  proof (cases "pos < length blob")
    case False
    then show ?thesis by (subst decode_counts_from.simps) simp
  next
    case True
    then have last: "last blob \<in> set (drop pos blob)"
      using last_in_set [of "drop pos blob"] by simp
    show ?thesis
    proof (cases "decode_varint blob pos")
      case (Inl e)
      then have "e = truncated_varint" "terminals (drop pos blob) = 0"
        using decode_loop_result [where data = blob and pos = pos and r = 0 and s = 0] by (auto simp: decode_varint_def)
      with last have "\<not> terminal (last blob)"
        by (simp add: filter_empty_conv)
      with Inl True \<open>e = truncated_varint\<close> show ?thesis
        by (subst decode_counts_from.simps) simp
    next
      case (Inr vp)
      obtain v pos' where vp: "vp = (v, pos')" by (cases vp)
      have p: "pos < pos'" "pos' \<le> length blob"
        "terminals (drop pos blob) = Suc (terminals (drop pos' blob))" "terminal (blob ! (pos' - 1))"
        using Inr decode_loop_result [where data = blob and pos = pos and r = 0 and s = 0] decode_loop_advances [where data = blob and pos = pos]
        by (auto simp: vp decode_varint_def)
      have l: "terminal (last blob)" if "pos' = length blob"
        using that p True by (subst last_conv_nth) auto
      show ?thesis
        using "1.IH" [OF True Inr vp [symmetric]] True Inr vp p l
        by (subst decode_counts_from.simps) (auto split: sum.splits)
    qed
  qed
qed

text \<open>Unpacking never guesses: a blob whose last byte announces a continuation raises the
  truncation error, and any other blob unpacks to one count per terminating byte.\<close>

theorem decode_counts_blob_total:
  "case decode_counts_blob blob of
     Inl e \<Rightarrow> e = truncated_varint \<and> blob \<noteq> [] \<and> \<not> terminal (last blob)
   | Inr cs \<Rightarrow> length cs = terminals blob \<and> (blob = [] \<or> terminal (last blob))"
  using decode_counts_from_result [of 0 blob "[]"]
  by (auto simp: decode_counts_blob_def split: sum.splits)

section \<open>Length of an encoding\<close>

lemma encode_loop_length_bounds:
  assumes "0 \<le> n"
  shows "n < 128 ^ length (encode_loop n) \<and>
    (1 < length (encode_loop n) \<longrightarrow> 128 ^ (length (encode_loop n) - 1) \<le> n)"
  using assms
proof (induction n rule: encode_loop.induct)
  case (1 n)
  show ?case
  proof (cases "n < 128")
    case True
    with "1.prems" show ?thesis by (simp add: encode_loop_unfold)
  next
    case False
    let ?k = "length (encode_loop (n div 128))"
    have "drop_bit 7 n = n div 128" "n div 128 \<noteq> 0" "0 \<le> n div 128"
      using "1.prems" False by (auto simp: drop_bit_eq_div)
    with "1.IH" [OF refl refl] "1.prems" have IH: "n div 128 < 128 ^ ?k"
      "1 < ?k \<longrightarrow> 128 ^ (?k - 1) \<le> n div 128" by simp_all
    have k: "0 < ?k" by simp
    have "n < 128 * 128 ^ ?k"
      using IH(1) by (simp add: div_less_iff_less_mult mult.commute)
    moreover have "128 ^ ?k \<le> n"
    proof (cases "?k = 1")
      case True
      with False show ?thesis by simp
    next
      case False
      with k have "1 < ?k" by linarith
      with IH(2) have "128 ^ (?k - 1) \<le> n div 128" by blast
      then have "128 * 128 ^ (?k - 1) \<le> n" by linarith
      with k show ?thesis by (metis power_minus_mult mult.commute)
    qed
    ultimately show ?thesis
      using "1.prems" False by (simp add: encode_loop_unfold [of n])
  qed
qed

lemma encode_loop_length:
  assumes "0 \<le> n" and "0 < k"
  shows "length (encode_loop n) \<le> k \<longleftrightarrow> n < 128 ^ k"
proof
  note bounds = encode_loop_length_bounds [OF assms(1)]
  {
    assume "length (encode_loop n) \<le> k"
    then have "(128::int) ^ length (encode_loop n) \<le> 128 ^ k" by simp
    with bounds show "n < 128 ^ k" by linarith
  next
    assume nk: "n < 128 ^ k"
    show "length (encode_loop n) \<le> k"
    proof (rule ccontr)
      assume "\<not> length (encode_loop n) \<le> k"
      with assms(2) have "1 < length (encode_loop n)" and "k \<le> length (encode_loop n) - 1" by auto
      with bounds have "(128::int) ^ k \<le> n"
        by (meson order_trans power_increasing one_le_numeral)
      with nk show False by simp
    qed
  }
qed

text \<open>A count of the MCAP format is an unsigned 64-bit number: ten bytes are enough for it.\<close>

lemma encode_loop_u64_length:
  assumes "0 \<le> n" and "n < 2 ^ 64"
  shows "length (encode_loop n) \<le> 10"
  using assms encode_loop_length [of n 10] by simp

text \<open>The encoding is minimal: it has \<open>k\<close> bytes exactly when \<open>k\<close> groups of seven bits are
  needed to write the number (one byte for 0).\<close>

theorem varint_length:
  assumes "encode_varint n = Inr b" and "0 < k"
  shows "length b \<le> k \<longleftrightarrow> n < 128 ^ k"
  using assms by (auto simp: encode_varint_def encode_loop_length split: if_splits)

theorem varint_length_witness: "length ([0xAC, 0x02] :: bytes) \<le> 2 \<longleftrightarrow> (300::int) < 128 ^ 2"
  by (rule varint_length [OF encode_varint_300]) simp

end
