(* ===== verification/Mcap_Summary.thy ===== *)
theory Mcap_Summary
  imports Catalog_Prelude
begin

text \<open>
  \<open>mcap_summary.py\<close>: the facts the builder takes from an MCAP file's summary section, and the in-file
  \<open>s3_key\<close> metadata record. Reading the file format is the third-party \<open>mcap\<close> package's work, so what
  its reader yields on a stream is a parameter; the records below have the fields of that package's
  objects which the code reads.
\<close>

section \<open>What the MCAP reader yields\<close>

record mcap_channel =
  mc_id :: int
  mc_topic :: string
  mc_schema_id :: int

record mcap_schema =
  ms_name :: string
  ms_encoding :: string

record mcap_statistics =
  mst_start :: int
  mst_end :: int
  mst_message_count :: int
  mst_chunk_count :: int
  mst_channel_counts :: "(int \<times> int) list"

record mcap_summary =
  msum_statistics :: "mcap_statistics option"
  msum_channels :: "mcap_channel list"
  msum_schemas :: "(int \<times> mcap_schema) list"

record mcap_metadata =
  mm_name :: string
  mm_metadata :: "(string \<times> string) list"

section \<open>What the builder keeps\<close>

record channel_info =
  ci_channel_id :: int
  ci_topic :: string
  ci_schema_name :: string
  ci_schema_encoding :: string
  ci_message_count :: int

record file_summary =
  fsum_start_time_ns :: int
  fsum_end_time_ns :: int
  fsum_message_count :: int
  fsum_chunk_count :: int
  fsum_channels :: "channel_info list"

definition channel_info_of ::
  "(int \<times> mcap_schema) list \<Rightarrow> (int \<times> int) list \<Rightarrow> mcap_channel \<Rightarrow> channel_info"
where
  "channel_info_of schemas counts ch =
     (let schema = map_of schemas (mc_schema_id ch) in
      \<lparr>ci_channel_id = mc_id ch, ci_topic = mc_topic ch,
       ci_schema_name = (case schema of Some s \<Rightarrow> ms_name s | None \<Rightarrow> []),
       ci_schema_encoding = (case schema of Some s \<Rightarrow> ms_encoding s | None \<Rightarrow> []),
       ci_message_count = (case map_of counts (mc_id ch) of Some n \<Rightarrow> n | None \<Rightarrow> 0)\<rparr>)"

definition no_summary :: exn where
  "no_summary = Exn ''ValueError'' ''no summary/statistics in MCAP''"

definition summary_from_stream ::
  "('s \<Rightarrow> exn + mcap_summary option) \<Rightarrow> 's \<Rightarrow> exn + file_summary"
where
  "summary_from_stream get_summary stream =
     (case get_summary stream of
        Inl e \<Rightarrow> Inl e
      | Inr None \<Rightarrow> Inl no_summary
      | Inr (Some summary) \<Rightarrow>
          (case msum_statistics summary of
             None \<Rightarrow> Inl no_summary
           | Some st \<Rightarrow>
               Inr \<lparr>fsum_start_time_ns = mst_start st, fsum_end_time_ns = mst_end st,
                    fsum_message_count = mst_message_count st, fsum_chunk_count = mst_chunk_count st,
                    fsum_channels =
                      map (channel_info_of (msum_schemas summary) (mst_channel_counts st))
                        (msum_channels summary)\<rparr>))"

text \<open>
  \<open>extract_s3_key\<close>: opening the file and iterating its metadata gives records until the end or until
  an exception; the first record named \<open>s3_key\<close> decides, and every exception is swallowed.
\<close>

fun first_s3_key :: "mcap_metadata list \<Rightarrow> string option" where
  "first_s3_key [] = None"
| "first_s3_key (m # ms) =
     (if mm_name m = ''s3_key'' then map_of (mm_metadata m) ''key'' else first_s3_key ms)"

definition extract_s3_key :: "exn + mcap_metadata list \<times> exn option \<Rightarrow> string option" where
  "extract_s3_key outcome =
     (case outcome of Inl _ \<Rightarrow> None | Inr (records, _) \<Rightarrow> first_s3_key records)"

definition derive_tags :: "file_summary \<Rightarrow> (string \<times> string) list" where
  "derive_tags summary = []"

section \<open>Counts\<close>

text \<open>
  Statistics are consistent when they count the file's own channels only and add up to the total: what
  the MCAP specification says of them.
\<close>

definition consistent_statistics :: "mcap_summary \<Rightarrow> mcap_statistics \<Rightarrow> bool" where
  "consistent_statistics summary st \<longleftrightarrow>
     distinct (map mc_id (msum_channels summary)) \<and>
     distinct (map fst (mst_channel_counts st)) \<and>
     fst ` set (mst_channel_counts st) \<subseteq> mc_id ` set (msum_channels summary) \<and>
     mst_message_count st = sum_list (map snd (mst_channel_counts st))"

lemma sum_counts_over_channels:
  assumes "distinct ids" and "distinct (map fst counts)" and "fst ` set counts \<subseteq> set ids"
  shows "(\<Sum>i\<leftarrow>ids. case map_of counts i of Some n \<Rightarrow> n | None \<Rightarrow> 0) = sum_list (map snd (counts :: ('i \<times> int) list))"
proof -
  let ?c = "\<lambda>i. case map_of counts i of Some n \<Rightarrow> n | None \<Rightarrow> 0"
  have "(\<Sum>i\<leftarrow>ids. ?c i) = sum ?c (set ids)"
    using assms(1) by (rule sum_list_distinct_conv_sum_set)
  also have "\<dots> = sum ?c (fst ` set counts)"
    using assms(3) by (intro sum.mono_neutral_right) (auto simp: dom_map_of_conv_image_fst [symmetric] split: option.splits)
  also have "\<dots> = sum (?c \<circ> fst) (set counts)"
    using assms(2) by (intro sum.reindex) (simp add: distinct_map)
  also have "\<dots> = sum snd (set counts)"
    using assms(2) by (intro sum.cong) auto
  also have "\<dots> = sum_list (map snd counts)"
    using assms(2) by (intro sum_list_distinct_conv_sum_set [symmetric]) (simp add: distinct_map)
  finally show ?thesis .
qed

text \<open>Channels without messages are absent from the statistics' counts and read as 0; with that
  default the per-channel counts of a consistent file add up to its message count, so such a file
  passes the builder's count check.\<close>

theorem summary_counts_add_up:
  assumes "get_summary stream = Inr (Some summary)" and "msum_statistics summary = Some st"
    and "consistent_statistics summary st"
    and "summary_from_stream get_summary stream = Inr fs"
  shows "sum_list (map ci_message_count (fsum_channels fs)) = fsum_message_count fs"
proof -
  have fs: "fsum_channels fs = map (channel_info_of (msum_schemas summary) (mst_channel_counts st))
      (msum_channels summary)" "fsum_message_count fs = mst_message_count st"
    using assms(1,2,4) by (auto simp: summary_from_stream_def)
  have "map ci_message_count (fsum_channels fs) =
      map (\<lambda>i. case map_of (mst_channel_counts st) i of Some n \<Rightarrow> n | None \<Rightarrow> 0)
        (map mc_id (msum_channels summary))"
    by (simp add: fs channel_info_of_def Let_def)
  then show ?thesis
    using assms(3) sum_counts_over_channels [of "map mc_id (msum_channels summary)" "mst_channel_counts st"]
    by (simp add: fs(2) consistent_statistics_def)
qed

definition sample_statistics :: mcap_statistics where
  "sample_statistics =
     \<lparr>mst_start = 10, mst_end = 20, mst_message_count = 7, mst_chunk_count = 1,
      mst_channel_counts = [(1, 7)]\<rparr>"

definition sample_mcap :: mcap_summary where
  "sample_mcap =
     \<lparr>msum_statistics = Some sample_statistics,
      msum_channels =
        [\<lparr>mc_id = 1, mc_topic = ''/odom'', mc_schema_id = 4\<rparr>, \<lparr>mc_id = 2, mc_topic = ''/tf'', mc_schema_id = 0\<rparr>],
      msum_schemas = [(4, \<lparr>ms_name = ''Odometry'', ms_encoding = ''ros2msg''\<rparr>)]\<rparr>"

definition sample_summary :: file_summary where
  "sample_summary =
     \<lparr>fsum_start_time_ns = 10, fsum_end_time_ns = 20, fsum_message_count = 7, fsum_chunk_count = 1,
      fsum_channels =
        [\<lparr>ci_channel_id = 1, ci_topic = ''/odom'', ci_schema_name = ''Odometry'',
          ci_schema_encoding = ''ros2msg'', ci_message_count = 7\<rparr>,
         \<lparr>ci_channel_id = 2, ci_topic = ''/tf'', ci_schema_name = [],
          ci_schema_encoding = [], ci_message_count = 0\<rparr>]\<rparr>"

lemma sample_summary_from_stream:
  "summary_from_stream (\<lambda>_. Inr (Some sample_mcap)) () = Inr sample_summary"
  by (simp add: summary_from_stream_def sample_mcap_def sample_statistics_def sample_summary_def
      channel_info_of_def)

lemma sample_mcap_statistics: "msum_statistics sample_mcap = Some sample_statistics"
  by (simp add: sample_mcap_def)

lemma sample_mcap_consistent: "consistent_statistics sample_mcap sample_statistics"
  by (simp add: consistent_statistics_def sample_mcap_def sample_statistics_def)

theorem summary_counts_add_up_witness:
  "sum_list (map ci_message_count (fsum_channels sample_summary)) = fsum_message_count sample_summary"
  by (rule summary_counts_add_up [OF refl sample_mcap_statistics sample_mcap_consistent
        sample_summary_from_stream])

end
