(* ===== verification/Catalog_DB.thy ===== *)
theory Catalog_DB
  imports Keyparse Varint Mcap_Summary
    "HOL-Library.Product_Lexorder" "HOL-Library.List_Lexorder" "HOL-Library.Char_ord"
begin

text \<open>
  \<open>db.py\<close> and \<open>schema.sql\<close>: the catalog database, the transactions on it, the in-memory id caches and
  the resolvers that keep the two together.

  A table whose rows are an integer primary key and a unique natural key (all lookups and
  dictionaries are) is a list of (natural key, id) pairs in insertion order. The other tables are
  lists of rows, keyed by their primary key where they have no rowid. The connection keeps the
  committed database, which other connections see, apart from the working one, which the open
  transaction has changed. The planned \<open>file_metrics\<close> tables are never written and left out.
\<close>

section \<open>Rows, tables and the database\<close>

type_synonym rowid = nat
type_synonym 'k lookup_table = "('k \<times> rowid) list"

text \<open>The composite natural key of a file: the ids of its dimensions, its date and its name.\<close>

type_synonym ids = "rowid \<times> rowid \<times> rowid \<times> rowid"
type_synonym ident = "ids \<times> string \<times> string"

record file_facts =
  ff_etag :: string
  ff_size_bytes :: int
  ff_last_modified_ns :: int
  ff_cataloged_at_ns :: int
  ff_start_time_ns :: int
  ff_end_time_ns :: int
  ff_chunk_count :: int
  ff_topic_set_id :: rowid
  ff_topic_counts :: bytes
  ff_has_error :: bool

record file_row =
  f_id :: rowid
  f_ident :: ident
  f_facts :: file_facts

record build_row =
  b_build_id :: int
  b_last_build_ns :: int
  b_files_scanned :: int
  b_files_failed :: int
  b_outcome :: string
  b_version :: string

record db =
  customers :: "string lookup_table"
  sites :: "(rowid \<times> string) lookup_table"
  robots :: "(rowid \<times> string) lookup_table"
  sources :: "string lookup_table"
  topic_names :: "string lookup_table"
  schemas :: "(string \<times> string) lookup_table"
  topic_sets :: "string lookup_table"
  topic_set_members :: "(rowid \<times> rowid \<times> rowid) list"
  files :: "file_row list"
  tags_embedded :: "((rowid \<times> string) \<times> string) list"
  tags_override :: "((rowid \<times> string) \<times> (string option \<times> int)) list"
  catalog_failures :: "(string \<times> (int \<times> string)) list"
  build_metadata :: "build_row option"
  db_tables :: "string list"
  schema_version :: "int option"

record caches =
  c_customer :: "string \<rightharpoonup> rowid"
  c_site :: "rowid \<times> string \<rightharpoonup> rowid"
  c_robot :: "rowid \<times> string \<rightharpoonup> rowid"
  c_source :: "string \<rightharpoonup> rowid"
  c_topic :: "string \<rightharpoonup> rowid"
  c_schema :: "string \<times> string \<rightharpoonup> rowid"
  c_topic_set :: "string \<rightharpoonup> rowid"

definition load_caches :: "db \<Rightarrow> caches" where
  "load_caches d =
     \<lparr>c_customer = map_of (customers d), c_site = map_of (sites d), c_robot = map_of (robots d),
      c_source = map_of (sources d), c_topic = map_of (topic_names d),
      c_schema = map_of (schemas d), c_topic_set = map_of (topic_sets d)\<rparr>"

section \<open>The writer's state\<close>

text \<open>
  The state of the single writer: the connection, the caches, and the clock \<open>time.time_ns\<close>, of which
  \<open>ticks n\<close> is the \<open>n\<close>-th reading. \<open>versions\<close> is a ghost that no operation reads: every database committed on
  the connection, in order. These are the states another connection can see and a crash can leave behind.
\<close>

record writer =
  committed :: db
  working :: db
  cache :: caches
  ticks :: "nat \<Rightarrow> int"
  reads :: nat
  versions :: "db list"

definition commit :: "writer \<Rightarrow> writer" where
  "commit w = w\<lparr>committed := working w, versions := versions w @ [working w]\<rparr>"

definition rollback :: "writer \<Rightarrow> writer" where
  "rollback w = w\<lparr>working := committed w\<rparr>"

definition commit_op :: "(writer, unit) op" where
  "commit_op = (\<lambda>w. (Inr (), commit w))"

definition now_ns :: "(writer, int) op" where
  "now_ns = (\<lambda>w. (Inr (ticks w (reads w)), w\<lparr>reads := Suc (reads w)\<rparr>))"

text \<open>A statement on the working database that cannot fail, one that can, and a query.\<close>

definition exec :: "(db \<Rightarrow> db) \<Rightarrow> (writer, unit) op" where
  "exec f = (\<lambda>w. (Inr (), w\<lparr>working := f (working w)\<rparr>))"

definition exec_check :: "(db \<Rightarrow> exn + db) \<Rightarrow> (writer, unit) op" where
  "exec_check f = (\<lambda>w. case f (working w) of Inl e \<Rightarrow> (Inl e, w) | Inr d \<Rightarrow> (Inr (), w\<lparr>working := d\<rparr>))"

definition query :: "(db \<Rightarrow> 'a) \<Rightarrow> (writer, 'a) op" where
  "query f = (\<lambda>w. (Inr (f (working w)), w))"

text \<open>\<open>with conn:\<close> commits on success and rolls back on an exception, which it passes on.\<close>

definition with_conn :: "(writer, 'a) op \<Rightarrow> (writer, 'a) op" where
  "with_conn m = (\<lambda>w. case m w of (Inl e, w') \<Rightarrow> (Inl e, rollback w') | (Inr x, w') \<Rightarrow> (Inr x, commit w'))"

text \<open>Errors of the SQLite binding.\<close>

definition foreign_key_failed :: exn where
  "foreign_key_failed = Exn ''IntegrityError'' ''FOREIGN KEY constraint failed''"

definition unique_failed :: "string \<Rightarrow> exn" where
  "unique_failed columns = Exn ''IntegrityError'' (''UNIQUE constraint failed: '' @ columns)"

definition integer_too_large :: exn where
  "integer_too_large = Exn ''OverflowError'' ''Python int too large to convert to SQLite INTEGER''"

definition row_is_none :: exn where
  "row_is_none = Exn ''TypeError'' (CHR 0x27 # ''NoneType'' @ CHR 0x27 # '' object is not subscriptable'')"

definition fits_sqlite :: "int \<Rightarrow> bool" where
  "fits_sqlite n \<longleftrightarrow> - (2 ^ 63) \<le> n \<and> n < 2 ^ 63"

section \<open>Lookup tables and their caches\<close>

text \<open>SQLite gives a new row one more than the largest rowid in use, 1 in an empty table.\<close>

definition next_rowid :: "rowid list \<Rightarrow> rowid" where
  "next_rowid used = Suc (foldr max used 0)"

definition insert_or_ignore :: "'k \<Rightarrow> 'k lookup_table \<Rightarrow> 'k lookup_table" where
  "insert_or_ignore k t =
     (case map_of t k of Some _ \<Rightarrow> t | None \<Rightarrow> t @ [(k, next_rowid (map snd t))])"

text \<open>
  The resolvers: cached id, or else \<open>INSERT OR IGNORE\<close>, \<open>SELECT id\<close> and a new cache entry. A new row whose
  foreign key \<open>fk\<close> is violated raises; \<open>OR IGNORE\<close> covers uniqueness only.
\<close>

definition resolve_row ::
  "(db \<Rightarrow> 'k \<Rightarrow> bool) \<Rightarrow> (db \<Rightarrow> 'k lookup_table) \<Rightarrow> (('k lookup_table \<Rightarrow> 'k lookup_table) \<Rightarrow> db \<Rightarrow> db) \<Rightarrow>
   (caches \<Rightarrow> ('k \<rightharpoonup> rowid)) \<Rightarrow> ((('k \<rightharpoonup> rowid) \<Rightarrow> ('k \<rightharpoonup> rowid)) \<Rightarrow> caches \<Rightarrow> caches) \<Rightarrow>
   'k \<Rightarrow> (writer, rowid) op"
where
  "resolve_row fk tab tab_upd cch cch_upd k = (\<lambda>w.
     case cch (cache w) k of
       Some i \<Rightarrow> (Inr i, w)
     | None \<Rightarrow>
         if map_of (tab (working w)) k = None \<and> \<not> fk (working w) k then (Inl foreign_key_failed, w)
         else
           let d = tab_upd (insert_or_ignore k) (working w) in
           (case map_of (tab d) k of
              None \<Rightarrow> (Inl row_is_none, w\<lparr>working := d\<rparr>)
            | Some i \<Rightarrow> (Inr i, w\<lparr>working := d, cache := cch_upd (\<lambda>c. c(k \<mapsto> i)) (cache w)\<rparr>)))"

definition no_fk :: "db \<Rightarrow> 'k \<Rightarrow> bool" where
  "no_fk d k = True"

definition site_fk :: "db \<Rightarrow> rowid \<times> string \<Rightarrow> bool" where
  "site_fk d k \<longleftrightarrow> fst k \<in> snd ` set (customers d)"

definition robot_fk :: "db \<Rightarrow> rowid \<times> string \<Rightarrow> bool" where
  "robot_fk d k \<longleftrightarrow> fst k \<in> snd ` set (sites d)"

definition resolve_customer :: "string \<Rightarrow> (writer, rowid) op" where
  "resolve_customer = resolve_row no_fk customers customers_update c_customer c_customer_update"

definition resolve_source :: "string \<Rightarrow> (writer, rowid) op" where
  "resolve_source = resolve_row no_fk sources sources_update c_source c_source_update"

definition resolve_topic :: "string \<Rightarrow> (writer, rowid) op" where
  "resolve_topic = resolve_row no_fk topic_names topic_names_update c_topic c_topic_update"

definition resolve_site :: "rowid \<Rightarrow> string \<Rightarrow> (writer, rowid) op" where
  "resolve_site customer_id name =
     resolve_row site_fk sites sites_update c_site c_site_update (customer_id, name)"

definition resolve_robot :: "rowid \<Rightarrow> string \<Rightarrow> (writer, rowid) op" where
  "resolve_robot site_id name =
     resolve_row robot_fk robots robots_update c_robot c_robot_update (site_id, name)"

definition resolve_schema :: "string \<Rightarrow> string \<Rightarrow> (writer, rowid) op" where
  "resolve_schema name encoding =
     resolve_row no_fk schemas schemas_update c_schema c_schema_update (name, encoding)"

section \<open>Topic sets\<close>

text \<open>
  The members of a set in primary-key order, that is by topic id: the order in which a reader of
  the \<open>WITHOUT ROWID\<close> table sees them.
\<close>

definition members_of :: "db \<Rightarrow> rowid \<Rightarrow> (rowid \<times> rowid) list" where
  "members_of d set_id = sort (map snd (filter (\<lambda>(s, _). s = set_id) (topic_set_members d)))"

definition insert_member :: "rowid \<Rightarrow> rowid \<times> rowid \<Rightarrow> db \<Rightarrow> exn + db" where
  "insert_member set_id m d =
     (if list_ex (\<lambda>(s, t, _). s = set_id \<and> t = fst m) (topic_set_members d)
      then Inl (unique_failed ''topic_set_members.set_id, topic_set_members.topic_id'')
      else if set_id \<in> snd ` set (topic_sets d) \<and> fst m \<in> snd ` set (topic_names d) \<and>
              snd m \<in> snd ` set (schemas d)
      then Inr (d\<lparr>topic_set_members := topic_set_members d @ [(set_id, m)]\<rparr>)
      else Inl foreign_key_failed)"

definition unsorted_members :: exn where
  "unsorted_members = Exn ''ValueError'' ''topic_set members must be sorted by topic_id ASC''"

definition resolve_topic_set :: "string \<Rightarrow> (rowid \<times> rowid) list \<Rightarrow> (writer, rowid) op" where
  "resolve_topic_set fingerprint members = (\<lambda>w.
     case c_topic_set (cache w) fingerprint of
       Some i \<Rightarrow> (Inr i, w)
     | None \<Rightarrow>
         (case map_of (topic_sets (working w)) fingerprint of
            Some i \<Rightarrow> (Inr i, w\<lparr>cache := (cache w)\<lparr>c_topic_set := (c_topic_set (cache w))(fingerprint \<mapsto> i)\<rparr>\<rparr>)
          | None \<Rightarrow>
              if members \<noteq> sort members then (Inl unsorted_members, w)
              else
                bind_op (exec (topic_sets_update (\<lambda>t. t @ [(fingerprint, next_rowid (map snd t))])))
                  (\<lambda>_. bind_op (query (\<lambda>d. map_of (topic_sets d) fingerprint))
                  (\<lambda>row. case row of
                       None \<Rightarrow> raise_op row_is_none
                     | Some set_id \<Rightarrow>
                         bind_op (fold_op (\<lambda>m _. exec_check (insert_member set_id m)) members ())
                         (\<lambda>_ w'. (Inr set_id,
                            w'\<lparr>cache := (cache w')\<lparr>c_topic_set :=
                              (c_topic_set (cache w'))(fingerprint \<mapsto> set_id)\<rparr>\<rparr>)))) w))"

section \<open>File rows\<close>

definition select_file :: "ident \<Rightarrow> db \<Rightarrow> file_row option" where
  "select_file i d = find (\<lambda>r. f_ident r = i) (files d)"

text \<open>
  \<open>INSERT INTO files ... ON CONFLICT(<composite key>) DO UPDATE\<close>: the numbers are bound as 64-bit
  integers, the foreign keys are checked, a conflicting row keeps its id.
\<close>

definition file_fks :: "db \<Rightarrow> ident \<Rightarrow> file_facts \<Rightarrow> bool" where
  "file_fks d i ff \<longleftrightarrow>
     (case i of ((c, s, r, x), _) \<Rightarrow>
        c \<in> snd ` set (customers d) \<and> s \<in> snd ` set (sites d) \<and> r \<in> snd ` set (robots d) \<and>
        x \<in> snd ` set (sources d)) \<and>
     ff_topic_set_id ff \<in> snd ` set (topic_sets d)"

definition upsert_file :: "ident \<Rightarrow> file_facts \<Rightarrow> db \<Rightarrow> exn + db" where
  "upsert_file i ff d =
     (if \<not> list_all fits_sqlite
            [ff_size_bytes ff, ff_last_modified_ns ff, ff_cataloged_at_ns ff, ff_start_time_ns ff,
             ff_end_time_ns ff, ff_chunk_count ff]
      then Inl integer_too_large
      else if \<not> file_fks d i ff then Inl foreign_key_failed
      else
        (case select_file i d of
           Some _ \<Rightarrow>
             Inr (d\<lparr>files := map (\<lambda>r. if f_ident r = i then r\<lparr>f_facts := ff\<rparr> else r) (files d)\<rparr>)
         | None \<Rightarrow>
             Inr (d\<lparr>files := files d @
               [\<lparr>f_id = next_rowid (map f_id (files d)), f_ident = i, f_facts = ff\<rparr>]\<rparr>)))"

text \<open>Deleting file rows cascades to their tags in both layers.\<close>

definition delete_files :: "(file_row \<Rightarrow> bool) \<Rightarrow> db \<Rightarrow> db" where
  "delete_files P d =
     (let gone = map f_id (filter P (files d)) in
      d\<lparr>files := filter (\<lambda>r. \<not> P r) (files d),
        tags_embedded := filter (\<lambda>((i, _), _). i \<notin> set gone) (tags_embedded d),
        tags_override := filter (\<lambda>((i, _), _). i \<notin> set gone) (tags_override d)\<rparr>)"

definition set_has_error :: "rowid \<Rightarrow> bool \<Rightarrow> db \<Rightarrow> db" where
  "set_has_error i e d =
     d\<lparr>files := map (\<lambda>r. if f_id r = i then r\<lparr>f_facts := (f_facts r)\<lparr>ff_has_error := e\<rparr>\<rparr> else r) (files d)\<rparr>"

text \<open>The join of \<open>lookup_file_id\<close>: each id of the row is that of a lookup row with the name asked for.\<close>

definition names_match :: "db \<Rightarrow> dims \<Rightarrow> file_row \<Rightarrow> bool" where
  "names_match d ds f =
     (case f_ident f of ((c, s, r, x), date, filename) \<Rightarrow>
        list_ex (\<lambda>(n, i). i = c \<and> n = dim_customer ds) (customers d) \<and>
        list_ex (\<lambda>((_, n), i). i = s \<and> n = dim_site ds) (sites d) \<and>
        list_ex (\<lambda>((_, n), i). i = r \<and> n = dim_robot ds) (robots d) \<and>
        list_ex (\<lambda>(n, i). i = x \<and> n = dim_source ds) (sources d) \<and>
        date = dim_date ds \<and> filename = dim_filename ds)"

definition lookup_file_id :: "db \<Rightarrow> dims \<Rightarrow> rowid option" where
  "lookup_file_id d ds = map_option f_id (find (names_match d ds) (files d))"

section \<open>Tags\<close>

definition insert_embedded :: "rowid \<Rightarrow> string \<times> string \<Rightarrow> db \<Rightarrow> exn + db" where
  "insert_embedded i kv d =
     (if (i, fst kv) \<in> fst ` set (tags_embedded d)
      then Inl (unique_failed ''tags_embedded.file_id, tags_embedded.key'')
      else if i \<in> f_id ` set (files d)
      then Inr (d\<lparr>tags_embedded := tags_embedded d @ [((i, fst kv), snd kv)]\<rparr>)
      else Inl foreign_key_failed)"

definition upsert_override :: "rowid \<Rightarrow> string \<Rightarrow> string option \<Rightarrow> int \<Rightarrow> db \<Rightarrow> exn + db" where
  "upsert_override i key val now d =
     (if (i, key) \<in> fst ` set (tags_override d) \<or> i \<in> f_id ` set (files d)
      then Inr (d\<lparr>tags_override := upsert (i, key) (val, now) (tags_override d)\<rparr>)
      else Inl foreign_key_failed)"

definition unset_tag :: "rowid \<Rightarrow> string \<Rightarrow> int \<Rightarrow> db \<Rightarrow> exn + db" where
  "unset_tag i key now d =
     (if (i, key) \<in> fst ` set (tags_embedded d)
      then upsert_override i key None now d
      else Inr (d\<lparr>tags_override := delete_key (i, key) (tags_override d)\<rparr>))"

definition update_tags ::
  "rowid \<Rightarrow> (string \<times> string) list option \<Rightarrow> string list option \<Rightarrow> (writer, unit) op"
where
  "update_tags file_id set_kv unset_keys =
     bind_op now_ns (\<lambda>now.
       with_conn
         (bind_op
           (fold_op (\<lambda>(k, v) _. exec_check (upsert_override file_id k (Some v) now))
             (case set_kv of None \<Rightarrow> [] | Some kv \<Rightarrow> kv) ())
           (\<lambda>_. fold_op (\<lambda>k _. exec_check (unset_tag file_id k now))
             (case unset_keys of None \<Rightarrow> [] | Some ks \<Rightarrow> ks) ())))"

text \<open>The view \<open>tags_effective\<close>: rows (file, key, value, is_override).\<close>

fun override_view ::
  "(rowid \<times> string) \<times> (string option \<times> int) \<Rightarrow> (rowid \<times> string \<times> string \<times> bool) option"
where
  "override_view ((i, k), (Some v, _)) = Some (i, k, v, True)"
| "override_view ((i, k), (None, _)) = None"

fun embedded_view ::
  "(rowid \<times> string) set \<Rightarrow> (rowid \<times> string) \<times> string \<Rightarrow> (rowid \<times> string \<times> string \<times> bool) option"
where
  "embedded_view overridden ((i, k), v) = (if (i, k) \<in> overridden then None else Some (i, k, v, False))"

definition tags_effective :: "db \<Rightarrow> (rowid \<times> string \<times> string \<times> bool) list" where
  "tags_effective d =
     List.map_filter override_view (tags_override d) @
     List.map_filter (embedded_view (fst ` set (tags_override d))) (tags_embedded d)"

text \<open>\<open>SELECT key, value, is_override FROM tags_effective WHERE file_id=? ORDER BY key\<close>.\<close>

definition effective_tags_of :: "db \<Rightarrow> rowid \<Rightarrow> (string \<times> string \<times> bool) list" where
  "effective_tags_of d file_id =
     sort_key fst (map snd (filter (\<lambda>(i, _). i = file_id) (tags_effective d)))"

section \<open>Build stamp and failures\<close>

definition BUILDER_VERSION :: string where
  "BUILDER_VERSION = ''0.1.0''"

definition record_build :: "int \<Rightarrow> int \<Rightarrow> string \<Rightarrow> (writer, unit) op" where
  "record_build files_scanned files_failed outcome =
     bind_op now_ns (\<lambda>now.
     bind_op (exec (\<lambda>d. d\<lparr>build_metadata := Some
       \<lparr>b_build_id = (case build_metadata d of None \<Rightarrow> 1 | Some b \<Rightarrow> b_build_id b + 1),
        b_last_build_ns = now, b_files_scanned = files_scanned, b_files_failed = files_failed,
        b_outcome = outcome, b_version = BUILDER_VERSION\<rparr>\<rparr>))
     (\<lambda>_. commit_op))"

definition record_failure :: "string \<Rightarrow> string \<Rightarrow> (writer, unit) op" where
  "record_failure key error_text =
     bind_op now_ns (\<lambda>now.
       exec (\<lambda>d. d\<lparr>catalog_failures := upsert key (now, error_text) (catalog_failures d)\<rparr>))"

section \<open>Opening a database\<close>

definition SCHEMA_VERSION :: int where
  "SCHEMA_VERSION = 3"

definition schema_tables :: "string list" where
  "schema_tables =
     [''schema_version'', ''build_metadata'', ''files'', ''customers'', ''sites'', ''robots'',
      ''sources'', ''topic_names'', ''schemas'', ''topic_sets'', ''topic_set_members'',
      ''tags_embedded'', ''tags_override'', ''catalog_failures'', ''file_metrics'',
      ''file_metric_status'']"

text \<open>\<open>name LIKE 'sqlite_%'\<close>: case-insensitive on ASCII, and \<open>_\<close> is any one character.\<close>

definition lower_char :: "char \<Rightarrow> char" where
  "lower_char c =
     (if 65 \<le> (of_char c :: nat) \<and> (of_char c :: nat) \<le> 90 then char_of ((of_char c :: nat) + 32) else c)"

definition like_sqlite :: "string \<Rightarrow> bool" where
  "like_sqlite name \<longleftrightarrow> prefix ''sqlite'' (map lower_char name) \<and> 7 \<le> length name"

definition version_error :: "string \<Rightarrow> exn" where
  "version_error msg = Exn ''SchemaVersionError'' msg"

definition guard_not_foreign_db :: "(db, unit) op" where
  "guard_not_foreign_db = (\<lambda>d.
     let tables = filter (\<lambda>n. \<not> like_sqlite n) (db_tables d) in
     if tables \<noteq> [] \<and> ''schema_version'' \<notin> set tables
     then (Inl (version_error ''tables but no schema_version''), d)
     else (Inr (), d))"

definition validate_existing_version :: "(db, unit) op" where
  "validate_existing_version = (\<lambda>d.
     if ''schema_version'' \<notin> set (db_tables d) then (Inr (), d)
     else
       (case schema_version d of
          Some v \<Rightarrow> if v \<noteq> SCHEMA_VERSION
            then (Inl (version_error ''mismatch, no schema was applied''), d) else (Inr (), d)
        | None \<Rightarrow> (Inr (), d)))"

definition apply_schema :: "(db, unit) op" where
  "apply_schema = (\<lambda>d.
     (Inr (), d\<lparr>db_tables := db_tables d @ filter (\<lambda>n. n \<notin> set (db_tables d)) schema_tables\<rparr>))"

definition stamp_schema_version :: "(db, unit) op" where
  "stamp_schema_version = (\<lambda>d.
     let d = (case schema_version d of
                None \<Rightarrow> d\<lparr>schema_version := Some SCHEMA_VERSION\<rparr> | Some _ \<Rightarrow> d) in
     (case schema_version d of
        None \<Rightarrow> (Inl (version_error ''row missing after stamp''), d)
      | Some v \<Rightarrow> if v \<noteq> SCHEMA_VERSION then (Inl (version_error ''mismatch''), d) else (Inr (), d)))"

definition open_db :: "(db, unit) op" where
  "open_db =
     bind_op guard_not_foreign_db (\<lambda>_.
     bind_op validate_existing_version (\<lambda>_.
     bind_op apply_schema (\<lambda>_. stamp_schema_version)))"

definition empty_db :: db where
  "empty_db =
     \<lparr>customers = [], sites = [], robots = [], sources = [], topic_names = [], schemas = [],
      topic_sets = [], topic_set_members = [], files = [], tags_embedded = [], tags_override = [],
      catalog_failures = [], build_metadata = None, db_tables = [], schema_version = None\<rparr>"

text \<open>A connection just opened, with caches loaded as \<open>build_and_publish\<close> and \<open>main\<close> load them.\<close>

definition connect :: "db \<Rightarrow> (nat \<Rightarrow> int) \<Rightarrow> writer" where
  "connect d clock =
     \<lparr>committed = d, working = d, cache = load_caches d, ticks = clock, reads = 0, versions = []\<rparr>"

end
