(* ===== verification/Catalog_Invariants.thy ===== *)
theory Catalog_Invariants
  imports Catalog_DB
begin

text \<open>
  What the catalog database keeps true, and the contract between the tables and their caches.

  \<open>coherent\<close> says that the caches are those of the working database; under it a cached resolver does
  exactly what the uncached statement sequence would (locale \<open>cached_table\<close>, interpreted for each of
  the six name tables). \<open>db_wf\<close> is the integrity of the database: unique keys, references that
  resolve, and a name for every file row. Files are addressed abstractly by their dimensions' names
  (\<open>file_at\<close>), the identity that is stable across databases.
\<close>

section \<open>Lookup tables\<close>

definition unique_table :: "'k lookup_table \<Rightarrow> bool" where
  "unique_table t \<longleftrightarrow> distinct (map fst t) \<and> distinct (map snd t)"

definition row_id :: "'k \<Rightarrow> 'k lookup_table \<Rightarrow> rowid" where
  "row_id k t = (case map_of t k of Some i \<Rightarrow> i | None \<Rightarrow> next_rowid (map snd t))"

lemma next_rowid_fresh: "next_rowid used \<notin> set used"
proof -
  have "i \<le> foldr max used 0" if "i \<in> set used" for i
    using that by (induction used) auto
  then show ?thesis by (force simp: next_rowid_def)
qed

lemma insert_or_ignore_present [simp]: "map_of t k = Some i \<Longrightarrow> insert_or_ignore k t = t"
  by (simp add: insert_or_ignore_def)

lemma map_of_insert_or_ignore:
  "map_of (insert_or_ignore k t) = (map_of t)(k \<mapsto> row_id k t)"
  by (auto simp: insert_or_ignore_def row_id_def map_add_def fun_eq_iff split: option.splits)

lemma prefix_insert_or_ignore [simp]: "prefix t (insert_or_ignore k t)"
  by (simp add: insert_or_ignore_def split: option.splits)

lemma unique_table_insert_or_ignore [simp]:
  "unique_table t \<Longrightarrow> unique_table (insert_or_ignore k t)"
  using next_rowid_fresh [of "map snd t"]
  by (auto simp: unique_table_def insert_or_ignore_def map_of_eq_None_iff split: option.splits)

lemma row_id_in_ids: "row_id k t \<in> snd ` set (insert_or_ignore k t)"
  by (force simp: row_id_def insert_or_ignore_def dest: map_of_SomeD split: option.splits)

lemma map_of_prefix: "prefix t t' \<Longrightarrow> map_of t k = Some i \<Longrightarrow> map_of t' k = Some i"
  by (auto simp: prefix_def map_add_def)

lemma ids_prefix: "prefix t t' \<Longrightarrow> snd ` set t \<subseteq> snd ` set t'"
  by (auto simp: prefix_def)

lemma unique_table_inject:
  "unique_table t \<Longrightarrow> map_of t k = Some i \<Longrightarrow> map_of t k' = Some i \<Longrightarrow> k = k'"
  by (auto simp: unique_table_def intro: map_of_distinct_values_inj)

lemma unique_table_iff: "unique_table t \<Longrightarrow> (k, i) \<in> set t \<longleftrightarrow> map_of t k = Some i"
  by (auto simp: unique_table_def dest: map_of_SomeD)

section \<open>Caches\<close>

definition coherent :: "writer \<Rightarrow> bool" where
  "coherent w \<longleftrightarrow> cache w = load_caches (working w)"

definition with_db :: "db \<Rightarrow> writer \<Rightarrow> writer" where
  "with_db d w = w\<lparr>working := d, cache := load_caches d\<rparr>"

lemma with_db_simps [simp]:
  "working (with_db d w) = d" "cache (with_db d w) = load_caches d"
  "committed (with_db d w) = committed w" "coherent (with_db d w)"
  "with_db d (with_db d' w) = with_db d w" "reads (with_db d w) = reads w" "ticks (with_db d w) = ticks w"
  "versions (with_db d w) = versions w"
  by (simp_all add: with_db_def coherent_def)

lemma coherent_with_db: "coherent w \<Longrightarrow> with_db (working w) w = w"
  by (cases w) (simp add: coherent_def with_db_def)

text \<open>
  The contract of a table with a cache: reading after a write, the cache loaded from a database, and
  the agreement of a cache update with reloading. The client is the resolver.
\<close>

locale cached_table =
  fixes tab :: "db \<Rightarrow> 'k lookup_table"
    and tab_upd :: "('k lookup_table \<Rightarrow> 'k lookup_table) \<Rightarrow> db \<Rightarrow> db"
    and cch :: "caches \<Rightarrow> ('k \<rightharpoonup> rowid)"
    and cch_upd :: "(('k \<rightharpoonup> rowid) \<Rightarrow> ('k \<rightharpoonup> rowid)) \<Rightarrow> caches \<Rightarrow> caches"
  assumes tab_upd_get: "tab (tab_upd f d) = f (tab d)"
    and tab_upd_same: "f (tab d) = tab d \<Longrightarrow> tab_upd f d = d"
    and cache_loaded: "cch (load_caches d) = map_of (tab d)"
    and cache_updated: "cch_upd (\<lambda>_. map_of (f (tab d))) (load_caches d) = load_caches (tab_upd f d)"
    and cache_upd_cong: "p (cch c) = q (cch c) \<Longrightarrow> cch_upd p c = cch_upd q c"
begin

text \<open>Under coherence the cached resolver is the uncached reference: intern the key, read its id.\<close>

lemma resolve_row_reference:
  assumes "coherent w" and fk: "map_of (tab (working w)) k = None \<Longrightarrow> fk (working w) k"
  shows "resolve_row fk tab tab_upd cch cch_upd k w =
    (Inr (row_id k (tab (working w))), with_db (tab_upd (insert_or_ignore k) (working w)) w)"
proof -
  let ?d = "working w"
  have c: "cch (cache w) = map_of (tab ?d)" and w: "cache w = load_caches ?d"
    using assms(1) by (simp_all add: coherent_def cache_loaded)
  show ?thesis
  proof (cases "map_of (tab ?d) k")
    case (Some i)
    then have "tab_upd (insert_or_ignore k) ?d = ?d" by (intro tab_upd_same) simp
    with Some show ?thesis
      using coherent_with_db [OF assms(1)] by (simp add: resolve_row_def c row_id_def)
  next
    case None
    let ?i = "row_id k (tab ?d)"
    have "cch_upd (\<lambda>c. c(k \<mapsto> ?i)) (cache w) = cch_upd (\<lambda>_. map_of (insert_or_ignore k (tab ?d))) (cache w)"
      by (rule cache_upd_cong) (simp add: c map_of_insert_or_ignore)
    also have "\<dots> = load_caches (tab_upd (insert_or_ignore k) ?d)"
      by (simp add: w cache_updated)
    finally show ?thesis
      using None fk
      by (simp add: resolve_row_def c Let_def tab_upd_get map_of_insert_or_ignore with_db_def)
  qed
qed

lemma resolved_id: "map_of (tab (tab_upd (insert_or_ignore k) d)) k = Some (row_id k (tab d))"
  by (simp add: tab_upd_get map_of_insert_or_ignore)

end

interpretation customer_table: cached_table customers customers_update c_customer c_customer_update
  by unfold_locales (simp_all add: load_caches_def)

interpretation site_table: cached_table sites sites_update c_site c_site_update
  by unfold_locales (simp_all add: load_caches_def)

interpretation robot_table: cached_table robots robots_update c_robot c_robot_update
  by unfold_locales (simp_all add: load_caches_def)

interpretation source_table: cached_table sources sources_update c_source c_source_update
  by unfold_locales (simp_all add: load_caches_def)

interpretation topic_table: cached_table topic_names topic_names_update c_topic c_topic_update
  by unfold_locales (simp_all add: load_caches_def)

interpretation schema_table: cached_table schemas schemas_update c_schema c_schema_update
  by unfold_locales (simp_all add: load_caches_def)

interpretation topic_set_table: cached_table topic_sets topic_sets_update c_topic_set c_topic_set_update
  by unfold_locales (simp_all add: load_caches_def)

section \<open>Files by the names of their dimensions\<close>

definition lookup_ids :: "db \<Rightarrow> dims \<Rightarrow> ids option" where
  "lookup_ids d ds = do {
     c \<leftarrow> map_of (customers d) (dim_customer ds);
     s \<leftarrow> map_of (sites d) (c, dim_site ds);
     r \<leftarrow> map_of (robots d) (s, dim_robot ds);
     x \<leftarrow> map_of (sources d) (dim_source ds);
     Some (c, s, r, x)
   }"

definition ident_of :: "db \<Rightarrow> dims \<Rightarrow> ident option" where
  "ident_of d ds = map_option (\<lambda>i. (i, dim_date ds, dim_filename ds)) (lookup_ids d ds)"

lemma ident_of_Some:
  "ident_of d ds = Some ((c, s, r, x), date, filename) \<longleftrightarrow>
    map_of (customers d) (dim_customer ds) = Some c \<and> map_of (sites d) (c, dim_site ds) = Some s \<and>
    map_of (robots d) (s, dim_robot ds) = Some r \<and> map_of (sources d) (dim_source ds) = Some x \<and>
    date = dim_date ds \<and> filename = dim_filename ds"
  by (auto simp: ident_of_def lookup_ids_def bind_eq_Some_conv)

text \<open>The row of the file with these dimensions.\<close>

definition file_at :: "db \<Rightarrow> dims \<Rightarrow> file_row option" where
  "file_at d ds = (case ident_of d ds of None \<Rightarrow> None | Some i \<Rightarrow> select_file i d)"

text \<open>The other direction: the dimensions of a row, read off the tables.\<close>

definition name_of :: "'k lookup_table \<Rightarrow> rowid \<Rightarrow> 'k option" where
  "name_of t i = map_of (map prod.swap t) i"

definition dims_of :: "db \<Rightarrow> ident \<Rightarrow> dims option" where
  "dims_of d i = (case i of ((c, s, r, x), date, filename) \<Rightarrow> do {
     cn \<leftarrow> name_of (customers d) c;
     (c', sn) \<leftarrow> name_of (sites d) s;
     (s', rn) \<leftarrow> name_of (robots d) r;
     xn \<leftarrow> name_of (sources d) x;
     if c' = c \<and> s' = s
     then Some \<lparr>dim_customer = cn, dim_site = sn, dim_robot = rn, dim_source = xn,
                dim_date = date, dim_filename = filename\<rparr>
     else None
   })"

definition tables_wf :: "db \<Rightarrow> bool" where
  "tables_wf d \<longleftrightarrow>
     unique_table (customers d) \<and> unique_table (sites d) \<and> unique_table (robots d) \<and>
     unique_table (sources d) \<and> unique_table (topic_names d) \<and> unique_table (schemas d) \<and>
     unique_table (topic_sets d) \<and>
     list_all (\<lambda>(k, _). site_fk d k) (sites d) \<and> list_all (\<lambda>(k, _). robot_fk d k) (robots d)"

definition members_wf :: "db \<Rightarrow> bool" where
  "members_wf d \<longleftrightarrow>
     distinct (map (\<lambda>(s, t, _). (s, t)) (topic_set_members d)) \<and>
     list_all (\<lambda>(s, t, c). s \<in> snd ` set (topic_sets d) \<and> t \<in> snd ` set (topic_names d) \<and>
       c \<in> snd ` set (schemas d)) (topic_set_members d)"

definition file_ok :: "db \<Rightarrow> file_row \<Rightarrow> bool" where
  "file_ok d f \<longleftrightarrow>
     (case dims_of d (f_ident f) of None \<Rightarrow> False | Some ds \<Rightarrow> wf_dims ds) \<and>
     ff_topic_set_id (f_facts f) \<in> snd ` set (topic_sets d)"

definition files_wf :: "db \<Rightarrow> bool" where
  "files_wf d \<longleftrightarrow>
     distinct (map f_id (files d)) \<and> distinct (map f_ident (files d)) \<and> list_all (file_ok d) (files d)"

definition tags_wf :: "db \<Rightarrow> bool" where
  "tags_wf d \<longleftrightarrow>
     distinct (map fst (tags_embedded d)) \<and> distinct (map fst (tags_override d)) \<and>
     fst ` fst ` set (tags_embedded d) \<subseteq> f_id ` set (files d) \<and>
     fst ` fst ` set (tags_override d) \<subseteq> f_id ` set (files d)"

definition db_wf :: "db \<Rightarrow> bool" where
  "db_wf d \<longleftrightarrow>
     tables_wf d \<and> members_wf d \<and> files_wf d \<and> tags_wf d \<and> distinct (map fst (catalog_failures d))"

lemmas db_wf_defs = db_wf_def tables_wf_def members_wf_def files_wf_def tags_wf_def

lemma name_of_iff: "unique_table t \<Longrightarrow> name_of t i = Some k \<longleftrightarrow> map_of t k = Some i"
proof -
  assume u: "unique_table t"
  then have "distinct (map fst (map prod.swap t))" by (simp add: unique_table_def comp_def)
  then have "name_of t i = Some k \<longleftrightarrow> (i, k) \<in> set (map prod.swap t)"
    by (simp add: name_of_def)
  also have "\<dots> \<longleftrightarrow> (k, i) \<in> set t" by auto
  finally show ?thesis using unique_table_iff [OF u] by simp
qed

lemma dims_of_iff:
  assumes "tables_wf d"
  shows "dims_of d i = Some ds \<longleftrightarrow> ident_of d ds = Some i"
proof -
  have u: "unique_table (customers d)" "unique_table (sites d)" "unique_table (robots d)"
    "unique_table (sources d)"
    using assms by (simp_all add: tables_wf_def)
  obtain c s r x date filename where i: "i = ((c, s, r, x), date, filename)"
    by (metis prod.exhaust)
  have "dims_of d i = Some ds \<longleftrightarrow>
      map_of (customers d) (dim_customer ds) = Some c \<and> map_of (sites d) (c, dim_site ds) = Some s \<and>
      map_of (robots d) (s, dim_robot ds) = Some r \<and> map_of (sources d) (dim_source ds) = Some x \<and>
      dim_date ds = date \<and> dim_filename ds = filename"
    by (cases ds) (auto simp: dims_of_def i bind_eq_Some_conv name_of_iff u)
  then show ?thesis by (auto simp: i ident_of_Some)
qed

lemma ident_of_inject:
  "tables_wf d \<Longrightarrow> ident_of d ds = Some i \<Longrightarrow> ident_of d ds' = Some i \<Longrightarrow> ds = ds'"
  by (metis dims_of_iff option.inject)

lemma select_file_Some: "select_file i d = Some f \<Longrightarrow> f \<in> set (files d) \<and> f_ident f = i"
  by (auto simp: select_file_def find_Some_iff)

lemma select_file_iff:
  "files_wf d \<Longrightarrow> select_file i d = Some f \<longleftrightarrow> f \<in> set (files d) \<and> f_ident f = i"
  by (simp add: select_file_def files_wf_def find_key_Some)

lemma file_at_iff:
  assumes "files_wf d"
  shows "file_at d ds = Some f \<longleftrightarrow> f \<in> set (files d) \<and> ident_of d ds = Some (f_ident f)"
  using assms by (auto simp: file_at_def select_file_iff split: option.splits)

lemma file_dims:
  assumes "db_wf d" and "f \<in> set (files d)"
  obtains ds where "wf_dims ds" and "ident_of d ds = Some (f_ident f)" and "file_at d ds = Some f"
proof -
  have wf: "tables_wf d" "files_wf d" using assms(1) by (simp_all add: db_wf_def)
  then have "file_ok d f" using assms(2) by (auto simp: files_wf_def list_all_iff)
  then obtain ds where "wf_dims ds" "dims_of d (f_ident f) = Some ds"
    by (auto simp: file_ok_def split: option.splits)
  then show ?thesis using that wf assms(2) by (simp add: dims_of_iff file_at_iff)
qed

lemma list_ex_name:
  "unique_table t \<Longrightarrow> list_ex (\<lambda>(n, i). i = c \<and> n = nm) t \<longleftrightarrow> map_of t nm = Some c"
  by (auto simp: list_ex_iff unique_table_iff [symmetric])

lemma list_ex_child:
  assumes u: "unique_table t" and c: "map_of t (p, n) = Some c"
  shows "list_ex (\<lambda>((_, n'), i). i = c \<and> n' = nm) t \<longleftrightarrow> n = nm"
proof -
  have "list_ex (\<lambda>((_, n'), i). i = c \<and> n' = nm) t \<longleftrightarrow> (\<exists>p'. ((p', nm), c) \<in> set t)"
    by (force simp: list_ex_iff)
  also have "\<dots> \<longleftrightarrow> (\<exists>p'. map_of t (p', nm) = Some c)"
    by (simp add: unique_table_iff [OF u])
  also have "\<dots> \<longleftrightarrow> n = nm"
    using c unique_table_inject [OF u c] by auto
  finally show ?thesis .
qed

text \<open>The join over names finds exactly the row with those dimensions.\<close>

lemma names_match_iff:
  assumes wf: "db_wf d" and f: "f \<in> set (files d)"
  shows "names_match d ds f \<longleftrightarrow> ident_of d ds = Some (f_ident f)"
proof -
  have u: "unique_table (customers d)" "unique_table (sites d)" "unique_table (robots d)"
    "unique_table (sources d)"
    using wf by (simp_all add: db_wf_def tables_wf_def)
  obtain fs where fs: "ident_of d fs = Some (f_ident f)" using file_dims [OF wf f] by metis
  obtain c s r x date filename where i: "f_ident f = ((c, s, r, x), date, filename)"
    by (metis prod.exhaust)
  have ids: "map_of (customers d) (dim_customer fs) = Some c" "map_of (sites d) (c, dim_site fs) = Some s"
    "map_of (robots d) (s, dim_robot fs) = Some r" "map_of (sources d) (dim_source fs) = Some x"
    using fs by (simp_all add: i ident_of_Some)
  have "names_match d ds f \<longleftrightarrow>
      map_of (customers d) (dim_customer ds) = Some c \<and> dim_site fs = dim_site ds \<and>
      dim_robot fs = dim_robot ds \<and> map_of (sources d) (dim_source ds) = Some x \<and>
      date = dim_date ds \<and> filename = dim_filename ds"
    by (simp add: names_match_def i list_ex_name u list_ex_child [OF u(2) ids(2)]
        list_ex_child [OF u(3) ids(3)])
  also have "\<dots> \<longleftrightarrow>
      map_of (customers d) (dim_customer ds) = Some c \<and> map_of (sites d) (c, dim_site ds) = Some s \<and>
      map_of (robots d) (s, dim_robot ds) = Some r \<and> map_of (sources d) (dim_source ds) = Some x \<and>
      date = dim_date ds \<and> filename = dim_filename ds"
    using ids unique_table_inject [OF u(2) ids(2)] unique_table_inject [OF u(3) ids(3)]
    by (metis prod.inject)
  also have "\<dots> \<longleftrightarrow> ident_of d ds = Some (f_ident f)"
    unfolding i ident_of_Some by (rule refl)
  finally show ?thesis .
qed

lemma lookup_file_id_file_at:
  assumes "db_wf d"
  shows "lookup_file_id d ds = map_option f_id (file_at d ds)"
proof (cases "ident_of d ds")
  case None
  then have "find (names_match d ds) (files d) = None"
    using names_match_iff [OF assms] by (auto simp: find_None_iff)
  with None show ?thesis by (simp add: lookup_file_id_def file_at_def)
next
  case (Some i)
  then have "find (names_match d ds) (files d) = find (\<lambda>f. f_ident f = i) (files d)"
    using names_match_iff [OF assms] by (intro find_cong_in) auto
  with Some show ?thesis by (simp add: lookup_file_id_def file_at_def select_file_def)
qed

section \<open>Operations that leave the names alone\<close>

text \<open>The lookup tables of a database; everything about identities depends on them only.\<close>

definition names :: "db \<Rightarrow> _" where
  "names d = (customers d, sites d, robots d, sources d, topic_names d, schemas d, topic_sets d,
     topic_set_members d)"

lemma names_eq:
  assumes "names d' = names d"
  shows "customers d' = customers d" "sites d' = sites d" "robots d' = robots d" "sources d' = sources d"
    "topic_names d' = topic_names d" "schemas d' = schemas d" "topic_sets d' = topic_sets d"
    "topic_set_members d' = topic_set_members d"
  using assms by (simp_all add: names_def)

lemma names_frame:
  assumes "names d' = names d"
  shows "ident_of d' = ident_of d" "dims_of d' = dims_of d" "tables_wf d' = tables_wf d"
    "members_wf d' = members_wf d" "file_ok d' = file_ok d" "load_caches d' = load_caches d"
    "members_of d' = members_of d" "file_fks d' = file_fks d"
  by (simp_all add: ident_of_def lookup_ids_def dims_of_def tables_wf_def members_wf_def file_ok_def
      load_caches_def members_of_def site_fk_def robot_fk_def file_fks_def fun_eq_iff names_eq [OF assms])

subsection \<open>Upserting a file\<close>

lemma upsert_file_names: "upsert_file i ff d = Inr d' \<Longrightarrow> names d' = names d"
  by (auto simp: upsert_file_def names_def split: if_splits option.splits)

lemma upsert_file_frame:
  assumes "upsert_file i ff d = Inr d'"
  shows "tags_embedded d' = tags_embedded d" "tags_override d' = tags_override d"
    "catalog_failures d' = catalog_failures d" "build_metadata d' = build_metadata d"
    "db_tables d' = db_tables d" "schema_version d' = schema_version d"
  using assms by (auto simp: upsert_file_def split: if_splits option.splits)

text \<open>The id the row gets: the one it has, or a fresh one.\<close>

definition file_id_for :: "ident \<Rightarrow> db \<Rightarrow> rowid" where
  "file_id_for i d =
     (case select_file i d of Some r \<Rightarrow> f_id r | None \<Rightarrow> next_rowid (map f_id (files d)))"

lemma select_upsert_file:
  assumes "upsert_file i ff d = Inr d'"
  shows "select_file j d' =
    (if j = i then Some \<lparr>f_id = file_id_for i d, f_ident = i, f_facts = ff\<rparr> else select_file j d)"
proof (cases "select_file i d")
  case None
  then have "files d' = files d @ [\<lparr>f_id = file_id_for i d, f_ident = i, f_facts = ff\<rparr>]"
    using assms by (auto simp: upsert_file_def file_id_for_def split: if_splits)
  moreover have "find P (xs @ [x]) = (case find P xs of None \<Rightarrow> if P x then Some x else None | Some y \<Rightarrow> Some y)"
    for P and xs :: "file_row list" and x by (induction xs) auto
  ultimately show ?thesis
    using None by (auto simp: select_file_def split: option.splits)
next
  case (Some r)
  then have "files d' = map (\<lambda>r. if f_ident r = i then r\<lparr>f_facts := ff\<rparr> else r) (files d)"
    using assms by (auto simp: upsert_file_def split: if_splits)
  then have sel: "select_file j d' =
      map_option (\<lambda>r. if f_ident r = i then r\<lparr>f_facts := ff\<rparr> else r) (select_file j d)"
    unfolding select_file_def by (simp only:) (rule find_map_update, simp)
  have r: "f_ident r = i" using select_file_Some [OF Some] by simp
  show ?thesis
  proof (cases "j = i")
    case True
    with sel Some r show ?thesis by (cases r) (simp add: file_id_for_def)
  next
    case False
    then have "f_ident r' \<noteq> i" if "select_file j d = Some r'" for r'
      using select_file_Some [OF that] by simp
    with sel False show ?thesis by (cases "select_file j d") auto
  qed
qed

lemma upsert_file_wf:
  assumes up: "upsert_file i ff d = Inr d'" and wf: "files_wf d"
    and ok: "file_ok d \<lparr>f_id = n, f_ident = i, f_facts = ff\<rparr>"
  shows "files_wf d'" and "f_id ` set (files d) \<subseteq> f_id ` set (files d')"
proof -
  note names = names_frame [OF upsert_file_names [OF up]]
  have ok': "file_ok d r" if "f_ident r = i" "f_facts r = ff" for r
    using ok that by (simp add: file_ok_def)
  have "files_wf d' \<and> f_id ` set (files d) \<subseteq> f_id ` set (files d')"
  proof (cases "select_file i d")
    case None
    then have "i \<notin> f_ident ` set (files d)"
      by (simp add: select_file_def find_key_None)
    moreover have "files d' = files d @ [\<lparr>f_id = next_rowid (map f_id (files d)), f_ident = i, f_facts = ff\<rparr>]"
      using up None by (auto simp: upsert_file_def split: if_splits)
    ultimately show ?thesis
      using wf next_rowid_fresh [of "map f_id (files d)"] ok' by (auto simp: files_wf_def names)
  next
    case (Some r)
    then have fs: "files d' = map (\<lambda>r. if f_ident r = i then r\<lparr>f_facts := ff\<rparr> else r) (files d)"
      using up by (auto simp: upsert_file_def split: if_splits)
    then have ids: "map f_id (files d') = map f_id (files d)" "map f_ident (files d') = map f_ident (files d)"
      by auto
    then have "f_id ` set (files d') = f_id ` set (files d)" by (metis list.set_map)
    moreover have "list_all (file_ok d) (files d')"
      using wf ok' by (auto simp: fs files_wf_def list_all_iff)
    ultimately show ?thesis using wf by (simp add: files_wf_def names ids)
  qed
  then show "files_wf d'" and "f_id ` set (files d) \<subseteq> f_id ` set (files d')" by auto
qed

subsection \<open>Deleting files\<close>

lemma delete_files_frame [simp]:
  "names (delete_files P d) = names d" "catalog_failures (delete_files P d) = catalog_failures d"
  "build_metadata (delete_files P d) = build_metadata d" "db_tables (delete_files P d) = db_tables d"
  "schema_version (delete_files P d) = schema_version d"
  "files (delete_files P d) = filter (\<lambda>r. \<not> P r) (files d)"
  by (simp_all add: delete_files_def names_def)

lemma select_delete_files:
  assumes "files_wf d"
  shows "select_file i (delete_files P d) =
    (case select_file i d of None \<Rightarrow> None | Some r \<Rightarrow> if P r then None else Some r)"
  using assms by (simp add: select_file_def files_wf_def find_key_filter)

lemma delete_files_wf: "files_wf d \<Longrightarrow> files_wf (delete_files P d)"
  using names_frame [OF delete_files_frame(1) [of P d]]
  by (auto simp: files_wf_def distinct_map_filter_fst list_all_iff)

lemma delete_files_tags_wf:
  assumes "tags_wf d"
  shows "tags_wf (delete_files P d)"
proof -
  let ?gone = "set (map f_id (filter P (files d)))"
  have kept: "fst ` fst ` set (filter (\<lambda>((i, _), _). i \<notin> ?gone) t) \<subseteq> f_id ` set (filter (\<lambda>r. \<not> P r) (files d))"
    if t: "fst ` fst ` set t \<subseteq> f_id ` set (files d)" for t :: "((rowid \<times> string) \<times> 'z) list"
  proof
    fix i
    assume i: "i \<in> fst ` fst ` set (filter (\<lambda>((i, _), _). i \<notin> ?gone) t)"
    then have "i \<in> fst ` fst ` set t" and gone: "i \<notin> ?gone" by auto
    then obtain f where "f \<in> set (files d)" "i = f_id f" using t by blast
    with gone show "i \<in> f_id ` set (filter (\<lambda>r. \<not> P r) (files d))" by auto
  qed
  from assms show ?thesis
    unfolding tags_wf_def delete_files_def Let_def
    by (simp add: distinct_map_filter_fst kept del: set_map set_filter)
qed

lemma delete_files_db_wf: "db_wf d \<Longrightarrow> db_wf (delete_files P d)"
  using names_frame [OF delete_files_frame(1) [of P d]]
  by (simp add: db_wf_def delete_files_wf delete_files_tags_wf)

subsection \<open>The health flag\<close>

lemma set_has_error_frame [simp]:
  "names (set_has_error i e d) = names d" "catalog_failures (set_has_error i e d) = catalog_failures d"
  "build_metadata (set_has_error i e d) = build_metadata d" "db_tables (set_has_error i e d) = db_tables d"
  "schema_version (set_has_error i e d) = schema_version d"
  "tags_embedded (set_has_error i e d) = tags_embedded d"
  "tags_override (set_has_error i e d) = tags_override d"
  by (simp_all add: set_has_error_def names_def)

lemma set_has_error_ids [simp]:
  "map f_id (files (set_has_error i e d)) = map f_id (files d)"
  "map f_ident (files (set_has_error i e d)) = map f_ident (files d)"
  by (simp_all add: set_has_error_def)

lemma set_has_error_id_set [simp]: "f_id ` set (files (set_has_error i e d)) = f_id ` set (files d)"
  by (metis list.set_map set_has_error_ids(1))

lemma select_set_has_error:
  "select_file j (set_has_error i e d) =
    map_option (\<lambda>r. if f_id r = i then r\<lparr>f_facts := (f_facts r)\<lparr>ff_has_error := e\<rparr>\<rparr> else r) (select_file j d)"
  unfolding select_file_def set_has_error_def by simp (rule find_map_update, simp)

lemma set_has_error_wf: "files_wf d \<Longrightarrow> files_wf (set_has_error i e d)"
  using names_frame [OF set_has_error_frame(1) [of i e d]]
  by (auto simp: files_wf_def list_all_iff) (auto simp: set_has_error_def file_ok_def)

section \<open>Append-only growth of the lookup tables\<close>

text \<open>
  The lookup tables only ever grow at their end, so an id once given keeps naming what it named.
\<close>

definition extends :: "db \<Rightarrow> db \<Rightarrow> bool" where
  "extends d d' \<longleftrightarrow>
     prefix (customers d) (customers d') \<and> prefix (sites d) (sites d') \<and> prefix (robots d) (robots d') \<and>
     prefix (sources d) (sources d') \<and> prefix (topic_names d) (topic_names d') \<and>
     prefix (schemas d) (schemas d') \<and> prefix (topic_sets d) (topic_sets d') \<and>
     prefix (topic_set_members d) (topic_set_members d')"

lemma extends_refl [simp]: "extends d d"
  by (simp add: extends_def)

lemma extends_trans: "extends d d' \<Longrightarrow> extends d' d'' \<Longrightarrow> extends d d''"
  by (auto simp: extends_def)

lemma extends_names:
  assumes "names d' = names d"
  shows "extends d d'"
  by (simp add: extends_def names_eq [OF assms])

lemma ident_of_extends: "extends d d' \<Longrightarrow> ident_of d ds = Some i \<Longrightarrow> ident_of d' ds = Some i"
  by (cases i; cases "fst i") (auto simp: extends_def ident_of_Some dest: map_of_prefix)

text \<open>The rest of the database: everything but the lookup tables.\<close>

definition content :: "db \<Rightarrow> _" where
  "content d = (files d, tags_embedded d, tags_override d, catalog_failures d, build_metadata d,
     db_tables d, schema_version d)"

lemma content_eq:
  assumes "content d' = content d"
  shows "files d' = files d" "tags_embedded d' = tags_embedded d" "tags_override d' = tags_override d"
    "catalog_failures d' = catalog_failures d" "build_metadata d' = build_metadata d"
    "db_tables d' = db_tables d" "schema_version d' = schema_version d"
  using assms by (simp_all add: content_def)

lemma db_wf_grow:
  assumes "db_wf d" and "extends d d'" and "content d' = content d" and "tables_wf d'" and "members_wf d'"
  shows "db_wf d'"
proof -
  have "file_ok d' f" if f: "f \<in> set (files d)" for f
  proof -
    obtain ds where ds: "wf_dims ds" "ident_of d ds = Some (f_ident f)"
      using file_dims [OF assms(1) f] by metis
    then have "dims_of d' (f_ident f) = Some ds"
      using ident_of_extends [OF assms(2)] assms(4) by (simp add: dims_of_iff)
    moreover have "file_ok d f" using assms(1) f by (auto simp: db_wf_def files_wf_def list_all_iff)
    ultimately show ?thesis
      using ds assms(2) ids_prefix [of "topic_sets d" "topic_sets d'"]
      by (auto simp: file_ok_def extends_def)
  qed
  then show ?thesis
    using assms(1,4,5) by (auto simp: db_wf_def files_wf_def tags_wf_def list_all_iff content_eq [OF assms(3)])
qed

text \<open>A row found before is found after, under the same dimensions; nothing appears.\<close>

lemma file_at_grow:
  assumes "db_wf d" and "extends d d'" and "content d' = content d" and "tables_wf d'"
  shows "file_at d' ds = file_at d ds"
proof (cases "ident_of d ds")
  case (Some i)
  then show ?thesis
    using ident_of_extends [OF assms(2) Some]
    by (simp add: file_at_def select_file_def content_eq [OF assms(3)])
next
  case None
  have "select_file i d = None" if i: "ident_of d' ds = Some i" for i
  proof (rule ccontr)
    assume "select_file i d \<noteq> None"
    then obtain f where f: "f \<in> set (files d)" "f_ident f = i" by (auto dest: select_file_Some)
    then obtain fs where "ident_of d fs = Some i" using file_dims [OF assms(1)] by metis
    then have "fs = ds" using ident_of_extends [OF assms(2)] ident_of_inject [OF assms(4)] i by metis
    with None \<open>ident_of d fs = Some i\<close> show False by simp
  qed
  with None show ?thesis
    by (simp add: file_at_def select_file_def content_eq [OF assms(3)] split: option.splits)
qed

end
