(* ===== verification/Sha256.thy ===== *)
theory Sha256
  imports Catalog_Prelude "HOL-Library.Word"
begin

unbundle bit_operations_syntax

text \<open>
  \<open>hashlib.sha256(...).hexdigest()\<close> as the code uses it (FIPS 180-4): the standard-library function
  behind \<open>builder.compute_set_fingerprint\<close>. No theorem relies on how the digest is computed, only on
  equal texts having equal digests; the definition keeps the model of the builder closed and
  executable.
\<close>

type_synonym u32 = "32 word"

definition rotr :: "nat \<Rightarrow> u32 \<Rightarrow> u32" where
  "rotr n x = drop_bit n x OR push_bit (32 - n) x"

text \<open>
  The constants are the first 32 bits of the fractional parts of the cube roots of the first 64
  primes and of the square roots of the first 8, computed here by bisection.
\<close>

definition primes_below :: "nat \<Rightarrow> nat list" where
  "primes_below n = filter (\<lambda>p. list_all (\<lambda>d. p mod d \<noteq> 0) [2..<p]) [2..<n]"

text \<open>The largest \<open>r < 2 ^ n\<close> above \<open>acc\<close>'s bits with \<open>r ^ k \<le> x\<close>.\<close>

fun root_bits :: "nat \<Rightarrow> nat \<Rightarrow> nat \<Rightarrow> nat \<Rightarrow> nat" where
  "root_bits k x 0 acc = acc"
| "root_bits k x (Suc n) acc =
     root_bits k x n (if (acc + 2 ^ n) ^ k \<le> x then acc + 2 ^ n else acc)"

definition root_fraction :: "nat \<Rightarrow> nat \<Rightarrow> u32" where
  "root_fraction k p = of_nat (root_bits k (p * 2 ^ (32 * k)) 40 0 mod 2 ^ 32)"

definition round_constants :: "u32 list" where
  "round_constants = map (root_fraction 3) (primes_below 312)"

definition initial_hash :: "u32 list" where
  "initial_hash = map (root_fraction 2) (primes_below 20)"

text \<open>Padding: a \<open>1\<close> bit, zeros, and the length in bits as a 64-bit big-endian number.\<close>

definition pad :: "nat list \<Rightarrow> nat list" where
  "pad bs =
     (let l = length bs;
          z = (119 - l mod 64) mod 64;
          len = map (\<lambda>i. (8 * l) div 256 ^ i mod 256) [7, 6, 5, 4, 3, 2, 1, 0]
      in bs @ [128] @ replicate z 0 @ len)"

fun be_words :: "nat list \<Rightarrow> u32 list" where
  "be_words (a # b # c # d # bs) =
     of_nat (((a * 256 + b) * 256 + c) * 256 + d) # be_words bs"
| "be_words _ = []"

definition extend :: "u32 list \<Rightarrow> u32 list" where
  "extend w =
     (let i = length w;
          x = w ! (i - 15); y = w ! (i - 2);
          s0 = rotr 7 x XOR rotr 18 x XOR drop_bit 3 x;
          s1 = rotr 17 y XOR rotr 19 y XOR drop_bit 10 y
      in w @ [w ! (i - 16) + s0 + w ! (i - 7) + s1])"

definition schedule :: "u32 list \<Rightarrow> u32 list" where
  "schedule block = (extend ^^ 48) block"

fun round_step :: "u32 \<times> u32 \<Rightarrow> u32 list \<Rightarrow> u32 list" where
  "round_step (k, w) [a, b, c, d, e, f, g, h] =
     (let s1 = rotr 6 e XOR rotr 11 e XOR rotr 25 e;
          ch = (e AND f) XOR (NOT e AND g);
          t1 = h + s1 + ch + k + w;
          s0 = rotr 2 a XOR rotr 13 a XOR rotr 22 a;
          maj = (a AND b) XOR (a AND c) XOR (b AND c);
          t2 = s0 + maj
      in [t1 + t2, a, b, c, d + t1, e, f, g])"
| "round_step _ hs = hs"

definition compress :: "u32 list \<Rightarrow> u32 list \<Rightarrow> u32 list" where
  "compress hs block =
     map2 (+) hs (fold round_step (zip round_constants (schedule block)) hs)"

function blocks :: "u32 list \<Rightarrow> u32 list list" where
  "blocks ws = (if ws = [] then [] else take 16 ws # blocks (drop 16 ws))"
  by pat_completeness auto
termination
  by (relation "measure length") auto

declare blocks.simps [simp del]

definition hex_digit :: "nat \<Rightarrow> char" where
  "hex_digit n = (if n < 10 then char_of (48 + n) else char_of (87 + n))"

definition hex_word :: "u32 \<Rightarrow> string" where
  "hex_word w = map (\<lambda>i. hex_digit (unat w div 16 ^ i mod 16)) [7, 6, 5, 4, 3, 2, 1, 0]"

definition sha256_hex :: "string \<Rightarrow> string" where
  "sha256_hex s =
     concat (map hex_word (fold (\<lambda>b hs. compress hs b)
       (blocks (be_words (pad (map of_char s)))) initial_hash))"

end
