(* ===== verification/Catalog_Resolve.thy ===== *)
theory Catalog_Resolve
  imports Catalog_Invariants Sha256 "HOL-Library.Multiset"
begin

text \<open>
  Resolving names to ids: the four dimension ids of a file, the topic and schema ids of its channels,
  and its topic set with the fingerprint \<open>builder.compute_set_fingerprint\<close> that deduplicates sets.

  Each resolver only grows the database (\<open>grows\<close>): what had an id keeps it, nothing but lookup
  rows appears, and the members of a topic set never change once it exists.
\<close>

section \<open>Growth\<close>

definition lookups_wf :: "db \<Rightarrow> bool" where
  "lookups_wf d \<longleftrightarrow> tables_wf d \<and> members_wf d"

definition grows :: "db \<Rightarrow> db \<Rightarrow> bool" where
  "grows d d' \<longleftrightarrow>
     extends d d' \<and> content d' = content d \<and>
     (lookups_wf d \<longrightarrow>
        lookups_wf d' \<and> (\<forall>i \<in> snd ` set (topic_sets d). members_of d' i = members_of d i))"

lemma db_wf_lookups: "db_wf d \<Longrightarrow> lookups_wf d"
  by (simp add: db_wf_def lookups_wf_def)

lemma grows_refl [simp]: "grows d d"
  by (simp add: grows_def)

lemma grows_lookup:
  assumes "grows d d'"
  shows "ident_of d ds = Some i \<Longrightarrow> ident_of d' ds = Some i"
    and "map_of (topic_names d) t = Some n \<Longrightarrow> map_of (topic_names d') t = Some n"
    and "map_of (topic_sets d) fp = Some n \<Longrightarrow> map_of (topic_sets d') fp = Some n"
    and "snd ` set (topic_names d) \<subseteq> snd ` set (topic_names d')"
    and "snd ` set (schemas d) \<subseteq> snd ` set (schemas d')"
    and "snd ` set (topic_sets d) \<subseteq> snd ` set (topic_sets d')"
proof -
  have e: "extends d d'" using assms by (simp add: grows_def)
  show "ident_of d ds = Some i \<Longrightarrow> ident_of d' ds = Some i" using e by (rule ident_of_extends)
  show "map_of (topic_names d) t = Some n \<Longrightarrow> map_of (topic_names d') t = Some n"
    "map_of (topic_sets d) fp = Some n \<Longrightarrow> map_of (topic_sets d') fp = Some n"
    using e by (auto simp: extends_def dest: map_of_prefix)
  show "snd ` set (topic_names d) \<subseteq> snd ` set (topic_names d')"
    "snd ` set (schemas d) \<subseteq> snd ` set (schemas d')"
    "snd ` set (topic_sets d) \<subseteq> snd ` set (topic_sets d')"
    using e unfolding extends_def by (simp_all add: ids_prefix)
qed

lemma grows_trans: "grows d d' \<Longrightarrow> grows d' d'' \<Longrightarrow> grows d d''"
proof -
  assume g: "grows d d'" "grows d' d''"
  then have "extends d d''" "content d'' = content d"
    by (auto simp: grows_def dest: extends_trans)
  moreover have "members_of d'' i = members_of d i"
    if "lookups_wf d" and i: "i \<in> snd ` set (topic_sets d)" for i
  proof -
    have "i \<in> snd ` set (topic_sets d')" using grows_lookup(6) [OF g(1)] i by (rule subsetD)
    with g i that(1) show ?thesis by (metis grows_def)
  qed
  moreover have "lookups_wf d \<longrightarrow> lookups_wf d''" using g by (simp add: grows_def)
  ultimately show ?thesis unfolding grows_def by blast
qed

lemma grows_wf: "grows d d' \<Longrightarrow> db_wf d \<Longrightarrow> db_wf d'"
  using db_wf_grow [of d d'] db_wf_lookups [of d] by (simp add: grows_def lookups_wf_def)

lemma grows_lookups_wf: "grows d d' \<Longrightarrow> lookups_wf d \<Longrightarrow> lookups_wf d'"
  by (simp add: grows_def)

lemma grows_members:
  "grows d d' \<Longrightarrow> lookups_wf d \<Longrightarrow> i \<in> snd ` set (topic_sets d) \<Longrightarrow> members_of d' i = members_of d i"
  unfolding grows_def by blast

lemma grows_file_at: "grows d d' \<Longrightarrow> db_wf d \<Longrightarrow> file_at d' ds = file_at d ds"
  using file_at_grow [of d d'] db_wf_lookups [of d] by (simp add: grows_def lookups_wf_def)

lemma grows_content:
  assumes "grows d d'"
  shows "files d' = files d" "tags_embedded d' = tags_embedded d" "tags_override d' = tags_override d"
    "catalog_failures d' = catalog_failures d" "build_metadata d' = build_metadata d"
    "db_tables d' = db_tables d" "schema_version d' = schema_version d"
proof -
  have c: "content d' = content d" using assms by (simp add: grows_def)
  show "files d' = files d" "tags_embedded d' = tags_embedded d" "tags_override d' = tags_override d"
    "catalog_failures d' = catalog_failures d" "build_metadata d' = build_metadata d"
    "db_tables d' = db_tables d" "schema_version d' = schema_version d"
    by (rule content_eq [OF c])+
qed

lemma ids_insert_or_ignore: "snd ` set t \<subseteq> snd ` set (insert_or_ignore k t)"
  by (simp add: ids_prefix)

lemma set_insert_or_ignore: "set (insert_or_ignore k t) \<subseteq> insert (k, row_id k t) (set t)"
  by (auto simp: insert_or_ignore_def row_id_def split: option.splits)

lemmas grow_simps = grows_def lookups_wf_def extends_def content_def tables_wf_def members_wf_def members_of_def
  list_all_iff site_fk_def robot_fk_def

lemma grows_customers: "grows d (customers_update (insert_or_ignore k) d)"
  using ids_insert_or_ignore [of "customers d" k] by (auto simp: grow_simps)

lemma grows_sources: "grows d (sources_update (insert_or_ignore k) d)"
  by (simp add: grow_simps)

lemma grows_topic_names: "grows d (topic_names_update (insert_or_ignore k) d)"
  using ids_insert_or_ignore [of "topic_names d" k] by (auto simp: grow_simps)

lemma grows_schemas: "grows d (schemas_update (insert_or_ignore k) d)"
  using ids_insert_or_ignore [of "schemas d" k] by (auto simp: grow_simps)

lemma grows_sites: "site_fk d k \<Longrightarrow> grows d (sites_update (insert_or_ignore k) d)"
  using ids_insert_or_ignore [of "sites d" k] set_insert_or_ignore [of k "sites d"]
  by (auto simp: grow_simps)

lemma grows_robots: "robot_fk d k \<Longrightarrow> grows d (robots_update (insert_or_ignore k) d)"
  using ids_insert_or_ignore [of "robots d" k] set_insert_or_ignore [of k "robots d"]
  by (auto simp: grow_simps)

section \<open>Interning a name\<close>

text \<open>
  Under coherence a resolver returns the id the name has or gets, the caches are those of the new
  database, and the database has grown. Stated once per table, over the reference of \<open>cached_table\<close>.
\<close>

lemmas resolver_defs = resolve_customer_def resolve_source_def resolve_topic_def resolve_site_def
  resolve_robot_def resolve_schema_def no_fk_def

lemmas resolve_reference =
  customer_table.resolve_row_reference site_table.resolve_row_reference
  robot_table.resolve_row_reference source_table.resolve_row_reference
  topic_table.resolve_row_reference schema_table.resolve_row_reference

lemma resolve_customer_reference:
  "coherent w \<Longrightarrow> resolve_customer n w =
    (Inr (row_id n (customers (working w))), with_db (customers_update (insert_or_ignore n) (working w)) w)"
  by (simp add: resolver_defs resolve_reference)

lemma resolve_source_reference:
  "coherent w \<Longrightarrow> resolve_source n w =
    (Inr (row_id n (sources (working w))), with_db (sources_update (insert_or_ignore n) (working w)) w)"
  by (simp add: resolver_defs resolve_reference)

lemma resolve_topic_reference:
  "coherent w \<Longrightarrow> resolve_topic n w =
    (Inr (row_id n (topic_names (working w))), with_db (topic_names_update (insert_or_ignore n) (working w)) w)"
  by (simp add: resolver_defs resolve_reference)

lemma resolve_schema_reference:
  "coherent w \<Longrightarrow> resolve_schema n e w =
    (Inr (row_id (n, e) (schemas (working w))), with_db (schemas_update (insert_or_ignore (n, e)) (working w)) w)"
  by (simp add: resolver_defs resolve_reference)

lemma resolve_site_reference:
  "coherent w \<Longrightarrow> site_fk (working w) (c, n) \<Longrightarrow> resolve_site c n w =
    (Inr (row_id (c, n) (sites (working w))), with_db (sites_update (insert_or_ignore (c, n)) (working w)) w)"
  by (simp add: resolver_defs resolve_reference)

lemma resolve_robot_reference:
  "coherent w \<Longrightarrow> robot_fk (working w) (s, n) \<Longrightarrow> resolve_robot s n w =
    (Inr (row_id (s, n) (robots (working w))), with_db (robots_update (insert_or_ignore (s, n)) (working w)) w)"
  by (simp add: resolver_defs resolve_reference)

section \<open>The dimensions of a file\<close>

definition intern_dims :: "dims \<Rightarrow> db \<Rightarrow> ids \<times> db" where
  "intern_dims ds d =
     (let c = row_id (dim_customer ds) (customers d);
          d = customers_update (insert_or_ignore (dim_customer ds)) d;
          s = row_id (c, dim_site ds) (sites d);
          d = sites_update (insert_or_ignore (c, dim_site ds)) d;
          r = row_id (s, dim_robot ds) (robots d);
          d = robots_update (insert_or_ignore (s, dim_robot ds)) d;
          x = row_id (dim_source ds) (sources d)
      in ((c, s, r, x), sources_update (insert_or_ignore (dim_source ds)) d))"

text \<open>\<open>builder._resolve_ids\<close>: customer, site, robot and source, then a commit.\<close>

definition resolve_ids :: "dims \<Rightarrow> (writer, ids) op" where
  "resolve_ids ds =
     bind_op (resolve_customer (dim_customer ds)) (\<lambda>c.
     bind_op (resolve_site c (dim_site ds)) (\<lambda>s.
     bind_op (resolve_robot s (dim_robot ds)) (\<lambda>r.
     bind_op (resolve_source (dim_source ds)) (\<lambda>x.
     bind_op commit_op (\<lambda>_. return_op (c, s, r, x))))))"

lemma resolve_ids_reference:
  assumes "coherent w"
  shows "resolve_ids ds w =
    (let (i, d) = intern_dims ds (working w) in (Inr i, commit (with_db d w)))"
  using assms
  by (simp add: resolve_ids_def intern_dims_def Let_def resolve_customer_reference
      resolve_site_reference resolve_robot_reference resolve_source_reference commit_op_def
      site_fk_def robot_fk_def row_id_in_ids)

lemma grows_intern_dims: "grows d (snd (intern_dims ds d))"
proof -
  let ?c = "row_id (dim_customer ds) (customers d)"
  let ?d1 = "customers_update (insert_or_ignore (dim_customer ds)) d"
  let ?s = "row_id (?c, dim_site ds) (sites ?d1)"
  let ?d2 = "sites_update (insert_or_ignore (?c, dim_site ds)) ?d1"
  let ?d3 = "robots_update (insert_or_ignore (?s, dim_robot ds)) ?d2"
  have "grows d ?d1" by (rule grows_customers)
  moreover have "grows ?d1 ?d2"
    by (rule grows_sites) (simp add: site_fk_def row_id_in_ids)
  moreover have "grows ?d2 ?d3"
    by (rule grows_robots) (simp add: robot_fk_def row_id_in_ids)
  moreover have "grows ?d3 (sources_update (insert_or_ignore (dim_source ds)) ?d3)"
    by (rule grows_sources)
  ultimately have "grows d (sources_update (insert_or_ignore (dim_source ds)) ?d3)"
    by (blast intro: grows_trans)
  then show ?thesis by (simp add: intern_dims_def Let_def)
qed

lemma lookup_intern_dims: "lookup_ids (snd (intern_dims ds d)) ds = Some (fst (intern_dims ds d))"
  by (simp add: intern_dims_def Let_def lookup_ids_def map_of_insert_or_ignore)

text \<open>Interning again finds the same ids and changes nothing.\<close>

lemma intern_dims_present:
  assumes "lookup_ids d ds = Some i"
  shows "intern_dims ds d = (i, d)"
proof -
  have [simp]: "row_id k t = n" "insert_or_ignore k t = t" if "map_of t k = Some n" for k n and t :: "'k lookup_table"
    using that by (simp_all add: row_id_def)
  have "map_of (customers d) (dim_customer ds) = Some (fst i)"
    "map_of (sites d) (fst i, dim_site ds) = Some (fst (snd i))"
    "map_of (robots d) (fst (snd i), dim_robot ds) = Some (fst (snd (snd i)))"
    "map_of (sources d) (dim_source ds) = Some (snd (snd (snd i)))"
    using assms by (auto simp: lookup_ids_def bind_eq_Some_conv)
  then show ?thesis by (simp add: intern_dims_def Let_def)
qed

section \<open>Topic sets\<close>

text \<open>
  \<open>builder.compute_set_fingerprint\<close>: SHA-256 of the JSON text of the sorted members, without blanks.
\<close>

definition json_pair :: "rowid \<times> rowid \<Rightarrow> string" where
  "json_pair m = ''['' @ show_nat (fst m) @ CHR '','' # show_nat (snd m) @ '']''"

fun json_items :: "(rowid \<times> rowid) list \<Rightarrow> string" where
  "json_items [] = []"
| "json_items [m] = json_pair m"
| "json_items (m # n # ms) = json_pair m @ CHR '','' # json_items (n # ms)"

definition fingerprint_payload :: "(rowid \<times> rowid) list \<Rightarrow> string" where
  "fingerprint_payload members = ''['' @ json_items (sort members) @ '']''"

definition compute_set_fingerprint :: "(rowid \<times> rowid) list \<Rightarrow> string" where
  "compute_set_fingerprint members = sha256_hex (fingerprint_payload members)"

lemma show_nat_no_sep [simp]: "CHR '','' \<notin> set (show_nat n)" "CHR '']'' \<notin> set (show_nat n)"
  using show_nat_digits [of "CHR '',''" n] show_nat_digits [of "CHR '']''" n] by auto

lemma json_pair_inject:
  assumes "json_pair m @ xs = json_pair n @ ys"
  shows "m = n" and "xs = ys"
proof -
  have eq: "show_nat (fst m) @ CHR '','' # (show_nat (snd m) @ CHR '']'' # xs) =
      show_nat (fst n) @ CHR '','' # (show_nat (snd n) @ CHR '']'' # ys)"
    using assms by (simp add: json_pair_def)
  have first: "show_nat (fst m) = show_nat (fst n)"
    and rest: "show_nat (snd m) @ CHR '']'' # xs = show_nat (snd n) @ CHR '']'' # ys"
    using append_sep_eq [OF eq] by simp_all
  have "show_nat (snd m) = show_nat (snd n)" and "xs = ys"
    using append_sep_eq [OF rest] by simp_all
  with first show "m = n" and "xs = ys" by (auto intro: prod_eqI)
qed

lemma json_pair_not_Nil [simp]: "json_pair m \<noteq> []" "json_pair m @ xs \<noteq> []"
  by (simp_all add: json_pair_def)

lemma json_items_Cons: "json_items (m # ms) = json_pair m @ (if ms = [] then [] else CHR '','' # json_items ms)"
  by (cases ms) auto

lemma json_items_inject: "json_items ms = json_items ns \<longleftrightarrow> ms = ns"
proof (induction ms arbitrary: ns)
  case Nil
  then show ?case by (cases ns) (auto simp: json_items_Cons)
next
  case (Cons m ms)
  show ?case
  proof (cases ns)
    case Nil
    then show ?thesis by (simp add: json_items_Cons)
  next
    case ns: (Cons n ns')
    show ?thesis
    proof
      assume "json_items (m # ms) = json_items ns"
      then have eq: "json_pair m @ (if ms = [] then [] else CHR '','' # json_items ms) =
          json_pair n @ (if ns' = [] then [] else CHR '','' # json_items ns')"
        by (simp add: ns json_items_Cons)
      from json_pair_inject [OF eq] have "m = n" and "ms = ns'"
        using Cons.IH [of ns'] by (auto split: if_splits)
      then show "m # ms = ns" by (simp add: ns)
    qed simp
  qed
qed

lemma fingerprint_payload_inject: "fingerprint_payload ms = fingerprint_payload ns \<longleftrightarrow> sort ms = sort ns"
  by (simp add: fingerprint_payload_def json_items_inject)

text \<open>The hashed text of two topic sets is the same exactly when they have the same members, in
  whatever order the channels came: deduplication merges what it should, and beyond it only what a
  collision of SHA-256 would.\<close>

theorem fingerprint_payload_iff: "fingerprint_payload ms = fingerprint_payload ns \<longleftrightarrow> mset ms = mset ns"
proof -
  have "sort ms = sort ns \<longleftrightarrow> mset ms = mset ns"
    by (metis mset_sort properties_for_sort sorted_sort)
  then show ?thesis by (simp add: fingerprint_payload_inject)
qed

subsection \<open>Inserting the members\<close>

definition members_ok :: "db \<Rightarrow> (rowid \<times> rowid) list \<Rightarrow> bool" where
  "members_ok d ms \<longleftrightarrow>
     sorted ms \<and> distinct (map fst ms) \<and>
     (\<forall>m \<in> set ms. fst m \<in> snd ` set (topic_names d) \<and> snd m \<in> snd ` set (schemas d))"

lemma insert_members_run:
  assumes "i \<in> snd ` set (topic_sets (working w))" and "distinct (map fst ms)"
    and "\<forall>m \<in> set ms. fst m \<in> snd ` set (topic_names (working w)) \<and> snd m \<in> snd ` set (schemas (working w))"
    and "\<forall>m \<in> set ms. \<forall>c. (i, fst m, c) \<notin> set (topic_set_members (working w))"
  shows "fold_op (\<lambda>m _. exec_check (insert_member i m)) ms () w =
    (Inr (), w\<lparr>working := (working w)\<lparr>topic_set_members := topic_set_members (working w) @ map (Pair i) ms\<rparr>\<rparr>)"
  using assms
proof (induction ms arbitrary: w)
  case (Cons m ms)
  let ?w = "w\<lparr>working := (working w)\<lparr>topic_set_members := topic_set_members (working w) @ [(i, m)]\<rparr>\<rparr>"
  have "\<not> list_ex (\<lambda>(s, t, _). s = i \<and> t = fst m) (topic_set_members (working w))"
    using Cons.prems(4) by (auto simp: list_ex_iff)
  then have step: "exec_check (insert_member i m) w = (Inr (), ?w)"
    using Cons.prems(1,3) by (simp add: exec_check_def insert_member_def)
  have "fold_op (\<lambda>m _. exec_check (insert_member i m)) ms () ?w =
    (Inr (), ?w\<lparr>working := (working ?w)\<lparr>topic_set_members := topic_set_members (working ?w) @ map (Pair i) ms\<rparr>\<rparr>)"
  proof (rule Cons.IH)
    have "fst m \<notin> fst ` set ms" using Cons.prems(2) by simp
    then show "\<forall>n \<in> set ms. \<forall>c. (i, fst n, c) \<notin> set (topic_set_members (working ?w))"
      using Cons.prems(4) by (auto simp: image_iff)
  qed (use Cons.prems in simp_all)
  with step show ?case by simp
qed simp

text \<open>The database after a new set with its members.\<close>

definition add_topic_set :: "string \<Rightarrow> (rowid \<times> rowid) list \<Rightarrow> db \<Rightarrow> rowid \<times> db" where
  "add_topic_set fp ms d =
     (let i = next_rowid (map snd (topic_sets d)) in
      (i, d\<lparr>topic_sets := topic_sets d @ [(fp, i)],
            topic_set_members := topic_set_members d @ map (Pair i) ms\<rparr>))"

lemma members_wf_fresh:
  assumes "members_wf d"
  shows "(next_rowid (map snd (topic_sets d)), m) \<notin> set (topic_set_members d)"
proof
  assume "(next_rowid (map snd (topic_sets d)), m) \<in> set (topic_set_members d)"
  then have "next_rowid (map snd (topic_sets d)) \<in> set (map snd (topic_sets d))"
    using assms by (cases m) (auto simp: members_wf_def list_all_iff)
  then show False using next_rowid_fresh by blast
qed

lemma members_of_append:
  "members_of (d\<lparr>topic_sets := t, topic_set_members := topic_set_members d @ map (Pair i) ms\<rparr>) j =
    (if j = i then sort (members_of d i @ ms) else members_of d j)"
proof -
  have "filter (\<lambda>(s, _). s = j) (map (Pair i) ms) = (if j = i then map (Pair i) ms else [])"
    by (induction ms) auto
  moreover have "sort (sort xs @ ys) = sort (xs @ ys)" for xs ys :: "(rowid \<times> rowid) list"
    by (rule properties_for_sort) auto
  ultimately show ?thesis by (simp add: members_of_def comp_def)
qed

lemma add_topic_set_grows:
  assumes ms: "members_ok d ms" and new: "map_of (topic_sets d) fp = None"
    and add: "add_topic_set fp ms d = (i, d')"
  shows "grows d d'" and "map_of (topic_sets d') fp = Some i"
    and "lookups_wf d \<Longrightarrow> members_of d' i = ms"
proof -
  have i: "i = next_rowid (map snd (topic_sets d))"
    and d': "d' = d\<lparr>topic_sets := topic_sets d @ [(fp, i)],
      topic_set_members := topic_set_members d @ map (Pair i) ms\<rparr>"
    using add by (auto simp: add_topic_set_def Let_def)
  have fresh: "i \<notin> snd ` set (topic_sets d)"
    using next_rowid_fresh [of "map snd (topic_sets d)"] by (simp add: i)
  show "map_of (topic_sets d') fp = Some i"
    using new by (simp add: d' map_add_def)
  have "members_of d i = []" if "members_wf d"
  proof -
    have "filter (\<lambda>(s, _). s = i) (topic_set_members d) = []"
      using members_wf_fresh [OF that] by (auto simp: i filter_empty_conv)
    then show ?thesis by (simp add: members_of_def)
  qed
  then show "members_of d' i = ms" if "lookups_wf d"
    using that ms by (simp add: d' members_of_append lookups_wf_def members_ok_def sorted_sort_id)
  have "members_of d' j = members_of d j" if "j \<in> snd ` set (topic_sets d)" for j
    using that fresh by (auto simp: d' members_of_append)
  moreover have "extends d d'" "content d' = content d"
    by (simp_all add: d' extends_def content_def)
  moreover have "tables_wf d'" if "tables_wf d"
    using that new fresh
    by (auto simp: d' tables_wf_def unique_table_def site_fk_def robot_fk_def map_of_eq_None_iff)
  moreover have "members_wf d'" if wf: "members_wf d"
  proof -
    have "distinct (map (\<lambda>(s, t, _). (s, t)) (map (Pair i) ms))"
      using ms by (fastforce simp: members_ok_def distinct_map inj_on_def)
    moreover have "set (map (\<lambda>(s, t, _). (s, t)) (topic_set_members d)) \<inter>
        set (map (\<lambda>(s, t, _). (s, t)) (map (Pair i) ms)) = {}"
      using members_wf_fresh [OF wf] by (auto simp: i)
    ultimately have "distinct (map (\<lambda>(s, t, _). (s, t)) (topic_set_members d'))"
      using wf by (simp add: members_wf_def d' del: map_map set_map)
    moreover have "list_all (\<lambda>(s, t, c). s \<in> snd ` set (topic_sets d') \<and> t \<in> snd ` set (topic_names d') \<and>
        c \<in> snd ` set (schemas d')) (topic_set_members d')"
    proof -
      let ?ok = "\<lambda>(s, t, c). s \<in> snd ` set (topic_sets d') \<and> t \<in> snd ` set (topic_names d') \<and>
        c \<in> snd ` set (schemas d')"
      have "?ok (i, m)" if "m \<in> set ms" for m
        using ms that by (cases m) (force simp: d' members_ok_def)
      then have "list_all ?ok (map (Pair i) ms)" unfolding list_all_iff set_map by blast
      moreover have "list_all ?ok (topic_set_members d)"
        using wf by (auto simp: d' members_wf_def list_all_iff)
      ultimately show ?thesis by (simp add: d' del: list.pred_map)
    qed
    ultimately show ?thesis by (simp add: members_wf_def)
  qed
  ultimately show "grows d d'"
    unfolding grows_def lookups_wf_def by blast
qed

lemma resolve_topic_set_new:
  assumes coh: "coherent w" and wf: "lookups_wf (working w)" and ms: "members_ok (working w) ms"
    and new: "map_of (topic_sets (working w)) fp = None"
  shows "resolve_topic_set fp ms w =
    (let (i, d) = add_topic_set fp ms (working w) in (Inr i, with_db d w))"
proof -
  let ?d = "working w"
  let ?i = "next_rowid (map snd (topic_sets ?d))"
  let ?w1 = "w\<lparr>working := ?d\<lparr>topic_sets := topic_sets ?d @ [(fp, ?i)]\<rparr>\<rparr>"
  have c: "cache w = load_caches ?d" using coh by (simp add: coherent_def)
  have run: "fold_op (\<lambda>m _. exec_check (insert_member ?i m)) ms () ?w1 =
      (Inr (), ?w1\<lparr>working := (working ?w1)\<lparr>topic_set_members :=
        topic_set_members (working ?w1) @ map (Pair ?i) ms\<rparr>\<rparr>)"
  proof (rule insert_members_run)
    show "\<forall>m \<in> set ms. \<forall>c. (?i, fst m, c) \<notin> set (topic_set_members (working ?w1))"
      using wf members_wf_fresh [of ?d] by (simp add: lookups_wf_def)
  qed (use ms in \<open>simp_all add: members_ok_def\<close>)
  have caches: "(load_caches ?d)\<lparr>c_topic_set := (c_topic_set (load_caches ?d))(fp \<mapsto> ?i)\<rparr> =
      load_caches (snd (add_topic_set fp ms ?d))"
    using new
    by (auto simp: load_caches_def add_topic_set_def Let_def map_add_def fun_eq_iff split: option.splits)
  have upd: "topic_sets_update (\<lambda>t. t @ [(fp, next_rowid (map snd t))]) ?d = ?d\<lparr>topic_sets := topic_sets ?d @ [(fp, ?i)]\<rparr>"
    by simp
  have "sort ms = ms" using ms by (simp add: members_ok_def sorted_sort_id)
  moreover have "map_of (topic_sets ?d @ [(fp, ?i)]) fp = Some ?i"
    using new by (simp add: map_add_def)
  ultimately show ?thesis
    using new run caches
    by (simp add: resolve_topic_set_def c load_caches_def exec_def query_def add_topic_set_def
        Let_def with_db_def upd)
qed

lemma resolve_topic_set_known:
  assumes coh: "coherent w" and known: "map_of (topic_sets (working w)) fp = Some i"
  shows "resolve_topic_set fp ms w = (Inr i, w)"
  using assms by (simp add: resolve_topic_set_def coherent_def load_caches_def)

text \<open>Both cases together, as the transaction uses them.\<close>

lemma resolve_topic_set_reference:
  assumes "coherent w" and "lookups_wf (working w)" and "members_ok (working w) ms"
  obtains i d where "resolve_topic_set fp ms w = (Inr i, with_db d w)" and "grows (working w) d"
    and "map_of (topic_sets d) fp = Some i"
    and "map_of (topic_sets (working w)) fp = None \<Longrightarrow> members_of d i = ms \<and> topic_sets d = topic_sets (working w) @ [(fp, i)]"
    and "map_of (topic_sets (working w)) fp \<noteq> None \<Longrightarrow> d = working w"
proof (cases "map_of (topic_sets (working w)) fp")
  case None
  obtain i d where add: "add_topic_set fp ms (working w) = (i, d)" by (cases "add_topic_set fp ms (working w)")
  then have "topic_sets d = topic_sets (working w) @ [(fp, i)]"
    by (auto simp: add_topic_set_def Let_def)
  then show ?thesis
    using that [of i d] None add add_topic_set_grows [OF assms(3) None add] assms(2)
      resolve_topic_set_new [OF assms None] by simp
next
  case (Some i)
  then show ?thesis
    using that [of i "working w"] resolve_topic_set_known [OF assms(1) Some] coherent_with_db [OF assms(1)]
    by simp
qed

text \<open>Every stored set carries the fingerprint of its members.\<close>

definition sets_wf :: "db \<Rightarrow> bool" where
  "sets_wf d \<longleftrightarrow> list_all (\<lambda>(fp, i). fp = compute_set_fingerprint (members_of d i)) (topic_sets d)"

lemma sets_wf_member:
  "sets_wf d \<Longrightarrow> map_of (topic_sets d) fp = Some i \<Longrightarrow> compute_set_fingerprint (members_of d i) = fp"
  by (auto simp: sets_wf_def list_all_iff dest: map_of_SomeD)

lemma grows_sets_wf:
  assumes "grows d d'" and "lookups_wf d" and "sets_wf d"
    and "\<And>fp i. (fp, i) \<in> set (topic_sets d') \<Longrightarrow> (fp, i) \<notin> set (topic_sets d) \<Longrightarrow>
      fp = compute_set_fingerprint (members_of d' i)"
  shows "sets_wf d'"
  unfolding sets_wf_def list_all_iff
proof (safe)
  fix fp i
  assume in': "(fp, i) \<in> set (topic_sets d')"
  show "fp = compute_set_fingerprint (members_of d' i)"
  proof (cases "(fp, i) \<in> set (topic_sets d)")
    case True
    then have "i \<in> snd ` set (topic_sets d)" by force
    then have "members_of d' i = members_of d i" by (rule grows_members [OF assms(1,2)])
    with True assms(3) show ?thesis by (auto simp: sets_wf_def list_all_iff)
  qed (use assms(4) in' in blast)
qed

end
