(* ===== verification/Storage.thy ===== *)
theory Storage
  imports Mcap_Summary
begin

text \<open>
  \<open>storage.py\<close>: fingerprints, listings, the \<open>Source\<close> protocol through which the core of the builder sees
  a backend, and the local-filesystem backend \<open>LocalSource\<close>. A source is a record of its operations.
  What lies outside the program (the file system, the MCAP reader of the \<open>mcap\<close> package) is a parameter:
  a function from the arguments of the call to its outcome.
\<close>

section \<open>Fingerprints and listings\<close>

record stat =
  st_size :: int
  st_etag :: string
  st_mtime_ns :: int

record listing =
  lst_key :: string
  lst_stat :: stat

definition is_catalogable_name :: "string \<Rightarrow> bool" where
  "is_catalogable_name name \<longleftrightarrow>
     suffix ''.mcap'' name \<and> \<not> prefix ''.'' name \<and> \<not> suffix ''.mcap.tmp'' name \<and> \<not> suffix ''.part'' name"

definition local_etag :: "int \<Rightarrow> int \<Rightarrow> string" where
  "local_etag sz mtime_ns = ''local:'' @ show_int sz @ '':'' @ show_int mtime_ns"

text \<open>The synthetic fingerprint of a local file separates any two states of it that differ in size
  or in modification time, so either change is detected.\<close>

theorem local_etag_inject:
  "local_etag sz mtime = local_etag sz' mtime' \<longleftrightarrow> sz = sz' \<and> mtime = mtime'"
  using append_sep_eq [of "show_int sz" "CHR '':''" "show_int mtime" "show_int sz'" "show_int mtime'"]
  by (auto simp: local_etag_def)

text \<open>The two temporary-file tests never decide: a name with one of those endings lacks \<open>.mcap\<close>.\<close>

lemma suffix_last_two: "suffix (s @ [x, y]) t \<Longrightarrow> last t = y \<and> last (butlast t) = x"
  by (auto simp: suffix_def butlast_append)

lemma is_catalogable_name_iff:
  "is_catalogable_name name \<longleftrightarrow> suffix ''.mcap'' name \<and> \<not> prefix ''.'' name"
  unfolding is_catalogable_name_def
  using suffix_last_two [of "''.mc''" "CHR ''a''" "CHR ''p''" name]
    suffix_last_two [of "''.mcap.t''" "CHR ''m''" "CHR ''p''" name]
    suffix_last_two [of "''.pa''" "CHR ''r''" "CHR ''t''" name]
  by auto

section \<open>The Source protocol\<close>

text \<open>
  \<open>'s\<close> is the type of the streams that \<open>open_summary\<close> returns. \<open>src_stat\<close>, \<open>src_open\<close>, \<open>src_list\<close> and
  \<open>src_event_key\<close> may raise; the other two operations do not.
\<close>

record 's source =
  src_stat :: "string \<Rightarrow> exn + stat option"
  src_open :: "string \<Rightarrow> int \<Rightarrow> exn + 's"
  src_list :: "exn + listing list"
  src_event_key :: "string \<Rightarrow> exn + string"
  src_intended_key :: "string \<Rightarrow> string option"
  src_wait_for_stable :: "string \<Rightarrow> bool"

section \<open>POSIX paths\<close>

text \<open>\<open>os.path.join\<close>, and \<open>os.path.relpath\<close> on normalised absolute paths.\<close>

definition path_join :: "string \<Rightarrow> string \<Rightarrow> string" where
  "path_join a b =
     (if prefix ''/'' b then b
      else if a = [] \<or> suffix ''/'' a then a @ b
      else a @ ''/'' @ b)"

fun split_slash :: "string \<Rightarrow> string list" where
  "split_slash [] = [[]]"
| "split_slash (c # s) =
     (if c = CHR ''/'' then [] # split_slash s
      else (case split_slash s of [] \<Rightarrow> [[c]] | p # ps \<Rightarrow> (c # p) # ps))"

fun join_slash :: "string list \<Rightarrow> string" where
  "join_slash [] = []"
| "join_slash [p] = p"
| "join_slash (p # q # ps) = p @ CHR ''/'' # join_slash (q # ps)"

definition norm_step :: "string list \<Rightarrow> string \<Rightarrow> string list" where
  "norm_step acc c =
     (if c = [] \<or> c = ''.'' then acc else if c = ''..'' then butlast acc else acc @ [c])"

definition abs_parts :: "string \<Rightarrow> string \<Rightarrow> string list" where
  "abs_parts cwd p = foldl norm_step [] (split_slash (path_join cwd p))"

definition relpath :: "string \<Rightarrow> string \<Rightarrow> string \<Rightarrow> exn + string" where
  "relpath cwd path start =
     (if path = [] then Inl (Exn ''ValueError'' ''no path specified'')
      else
        let s = abs_parts cwd start; p = abs_parts cwd path;
            i = length (longest_common_prefix s p);
            rel = replicate (length s - i) ''..'' @ drop i p
        in Inr (if rel = [] then ''.'' else join_slash rel))"

section \<open>The local backend\<close>

text \<open>
  The file system as \<open>LocalSource\<close> uses it: the working directory, \<open>os.stat\<close> (size and modification
  time, \<open>None\<close> for an \<open>OSError\<close>), opening a path, the paths under a root that \<open>rglob("*.mcap")\<close> yields (as
  their parts relative to the root), the metadata records the MCAP reader yields for a path, and the
  outcome of the stability poll.
\<close>

record 's local_fs =
  fs_cwd :: string
  fs_stat :: "string \<Rightarrow> (int \<times> int) option"
  fs_open :: "string \<Rightarrow> exn + 's"
  fs_rglob_mcap :: "string \<Rightarrow> string list list"
  fs_metadata :: "string \<Rightarrow> exn + mcap_metadata list \<times> exn option"
  fs_stable :: "string \<Rightarrow> bool"

definition local_stat :: "'s local_fs \<Rightarrow> string \<Rightarrow> string \<Rightarrow> stat option" where
  "local_stat fs root key =
     (case fs_stat fs (path_join root key) of
        None \<Rightarrow> None
      | Some (sz, mtime) \<Rightarrow>
          Some \<lparr>st_size = sz, st_etag = local_etag sz mtime, st_mtime_ns = mtime\<rparr>)"

definition relpath_key :: "'s local_fs \<Rightarrow> string \<Rightarrow> string \<Rightarrow> exn + string" where
  "relpath_key fs abs_path watched_root = relpath (fs_cwd fs) abs_path watched_root"

definition local_visible :: "string list \<Rightarrow> bool" where
  "local_visible parts \<longleftrightarrow>
     \<not> list_ex (prefix ''.'') parts \<and> (parts \<noteq> [] \<longrightarrow> is_catalogable_name (last parts))"

definition local_list_all :: "'s local_fs \<Rightarrow> string \<Rightarrow> listing list" where
  "local_list_all fs root =
     List.map_filter
       (\<lambda>parts.
          if local_visible parts then
            (case local_stat fs root (join_slash parts) of
               None \<Rightarrow> None
             | Some st \<Rightarrow> Some \<lparr>lst_key = join_slash parts, lst_stat = st\<rparr>)
          else None)
       (fs_rglob_mcap fs root)"

definition local_source :: "'s local_fs \<Rightarrow> string \<Rightarrow> 's source" where
  "local_source fs root =
     \<lparr>src_stat = (\<lambda>key. Inr (local_stat fs root key)),
      src_open = (\<lambda>key sz. fs_open fs (path_join root key)),
      src_list = Inr (local_list_all fs root),
      src_event_key = (\<lambda>payload. relpath_key fs payload root),
      src_intended_key = (\<lambda>key. extract_s3_key (fs_metadata fs (path_join root key))),
      src_wait_for_stable = (\<lambda>payload. fs_stable fs payload)\<rparr>"

section \<open>Event keys agree with listed keys\<close>

text \<open>A path relative to the root, as a listing gives it: proper names, no empty or dot component.\<close>

definition clean_parts :: "string list \<Rightarrow> bool" where
  "clean_parts parts \<longleftrightarrow>
     parts \<noteq> [] \<and>
     list_all (\<lambda>p. p \<noteq> [] \<and> p \<noteq> ''.'' \<and> p \<noteq> ''..'' \<and> CHR ''/'' \<notin> set p) parts"

lemma split_slash_nonempty [simp]: "split_slash s \<noteq> []"
  by (cases s) (auto split: list.splits)

lemma split_slash_append: "split_slash (a @ CHR ''/'' # b) = split_slash a @ split_slash b"
proof (induction a)
  case (Cons c a)
  then show ?case by (cases "split_slash a") auto
qed simp

lemma split_slash_no_slash: "CHR ''/'' \<notin> set p \<Longrightarrow> split_slash p = [p]"
  by (induction p) auto

lemma split_join_slash:
  "parts \<noteq> [] \<Longrightarrow> list_all (\<lambda>p. CHR ''/'' \<notin> set p) parts \<Longrightarrow> split_slash (join_slash parts) = parts"
  by (induction parts rule: join_slash.induct) (auto simp: split_slash_append split_slash_no_slash)

lemma norm_clean: "clean_parts parts \<Longrightarrow> foldl norm_step acc parts = acc @ parts"
proof (induction parts arbitrary: acc)
  case (Cons p ps)
  then have "norm_step acc p = acc @ [p]" by (simp add: clean_parts_def norm_step_def)
  with Cons show ?case by (cases "ps = []") (auto simp: clean_parts_def)
qed (simp add: clean_parts_def)

lemma norm_path_join:
  assumes "\<not> prefix ''/'' b"
  shows "foldl norm_step acc (split_slash (path_join a b)) =
    foldl norm_step (foldl norm_step acc (split_slash a)) (split_slash b)"
proof (cases "a = []")
  case True
  with assms show ?thesis by (simp add: path_join_def norm_step_def)
next
  case False
  show ?thesis
  proof (cases "suffix ''/'' a")
    case True
    then obtain a' where a: "a = a' @ ''/''" by (auto simp: suffix_def)
    with assms have "path_join a b = a' @ CHR ''/'' # b" by (simp add: path_join_def)
    then show ?thesis by (simp add: a split_slash_append norm_step_def)
  next
    case ns: False
    with assms False have "path_join a b = a @ CHR ''/'' # b" by (simp add: path_join_def)
    then show ?thesis by (simp add: split_slash_append)
  qed
qed

lemma join_slash_clean:
  assumes "clean_parts parts"
  shows "join_slash parts \<noteq> []" and "\<not> prefix ''/'' (join_slash parts)"
    and "split_slash (join_slash parts) = parts"
proof -
  obtain c p ps where "parts = (c # p) # ps" "c \<noteq> CHR ''/''"
    using assms by (cases parts; cases "hd parts") (auto simp: clean_parts_def)
  then show "join_slash parts \<noteq> []" and "\<not> prefix ''/'' (join_slash parts)"
    by (cases ps; simp)+
  show "split_slash (join_slash parts) = parts"
    using assms by (intro split_join_slash) (auto simp: clean_parts_def list_all_iff)
qed

lemma abs_parts_path_join:
  assumes "clean_parts parts"
  shows "abs_parts cwd (path_join root (join_slash parts)) = abs_parts cwd root @ parts"
proof -
  note key = join_slash_clean [OF assms]
  show ?thesis
  proof (cases "prefix ''/'' root")
    case True
    then have "prefix ''/'' (path_join root (join_slash parts))"
      using key(2) by (auto simp: path_join_def prefix_def)
    with True key(2) show ?thesis
      using norm_path_join [OF key(2), of "[]" root] norm_clean [OF assms]
      by (simp add: abs_parts_def path_join_def [of cwd] key(3))
  next
    case False
    then have "\<not> prefix ''/'' (path_join root (join_slash parts))"
      using key(2) by (cases root) (auto simp: path_join_def)
    with False show ?thesis
      using norm_path_join [OF key(2), of _ root] norm_clean [OF assms]
      by (simp add: abs_parts_def norm_path_join key(3))
  qed
qed

lemma longest_common_prefix_self: "longest_common_prefix xs (xs @ ys) = xs"
  by (induction xs) auto

text \<open>The key under which a file-system event is processed is the key under which the reconcile
  lists the same file, however the watched root is written: relative, absolute, with a trailing
  slash or with dot components.\<close>

theorem local_event_key_agrees:
  assumes "clean_parts parts"
  shows "src_event_key (local_source fs root) (path_join root (join_slash parts)) =
    Inr (join_slash parts)"
proof -
  have "path_join root (join_slash parts) \<noteq> []"
    using join_slash_clean(1) [OF assms] by (simp add: path_join_def)
  moreover have "parts \<noteq> []" using assms by (simp add: clean_parts_def)
  ultimately show ?thesis
    by (simp add: local_source_def relpath_key_def relpath_def Let_def
        abs_parts_path_join [OF assms] longest_common_prefix_self)
qed

theorem local_event_key_agrees_witness:
  "src_event_key
     (local_source
        \<lparr>fs_cwd = ''/srv'', fs_stat = (\<lambda>_. None), fs_open = (\<lambda>_. Inr ()), fs_rglob_mcap = (\<lambda>_. []),
         fs_metadata = (\<lambda>_. Inr ([], None)), fs_stable = (\<lambda>_. True)\<rparr> ''../lake/'')
     (path_join ''../lake/'' (join_slash [''robot=r1'', ''a.mcap''])) =
   Inr (join_slash [''robot=r1'', ''a.mcap''])"
  by (rule local_event_key_agrees) (simp add: clean_parts_def)

end
