(* ===== verification/Builder.thy ===== *)
theory Builder
  imports Catalog_Resolve Storage
begin

text \<open>
  \<open>builder.py\<close>: from an object of a source to its row in the catalog, and back out again.

  \<open>catalog_object\<close> is the event path, \<open>extract_summary\<close> and \<open>apply_extract\<close> are the two phases of the
  reconcile path, \<open>delete_by_key\<close> is the removal. Both paths end in \<open>write_file_row\<close>, one transaction
  that either writes row, tags and topic set and clears the failure, or is rolled back and leaves
  the object quarantined: no row, one failure. \<open>get_summary\<close> stands for the MCAP reader of the \<open>mcap\<close>
  package on a stream of the source.
\<close>

section \<open>Results\<close>

datatype status = Cataloged | Skipped | Failed

record catalog_result =
  res_status :: status
  res_detail :: string

abbreviation cataloged :: catalog_result where
  "cataloged \<equiv> \<lparr>res_status = Cataloged, res_detail = []\<rparr>"

abbreviation skipped :: catalog_result where
  "skipped \<equiv> \<lparr>res_status = Skipped, res_detail = []\<rparr>"

abbreviation failed :: "string \<Rightarrow> catalog_result" where
  "failed msg \<equiv> \<lparr>res_status = Failed, res_detail = msg\<rparr>"

text \<open>\<open>Extract\<close>: one constructor for each \<open>kind\<close>, with the fields that kind has.\<close>

datatype extracted =
    Ready (ex_key: string) dims string stat file_summary
  | Unparseable (ex_key: string) string
  | Vanished (ex_key: string)
  | Read_error (ex_key: string) dims string string

section \<open>Keys and tags\<close>

definition resolve_key_dims :: "'s source \<Rightarrow> string \<Rightarrow> (dims \<times> string) option" where
  "resolve_key_dims source key =
     (let eff = (case src_intended_key source key of Some k \<Rightarrow> k | None \<Rightarrow> key) in
      case parse_hive_key eff of
        None \<Rightarrow> None
      | Some dims \<Rightarrow> if rebuild_hive_key dims \<noteq> lstrip_slash eff then None else Some (dims, eff))"

definition lower :: "string \<Rightarrow> string" where
  "lower s = map lower_char s"

definition is_error_tag :: "string \<Rightarrow> string \<Rightarrow> bool" where
  "is_error_tag key val \<longleftrightarrow>
     key \<in> {''error'', ''has_error''} \<and> lower val \<in> {''1'', ''true'', ''yes''}"

section \<open>The row of a file\<close>

definition ident_for :: "ids \<Rightarrow> dims \<Rightarrow> ident" where
  "ident_for ids dims = (ids, dim_date dims, dim_filename dims)"

definition composite_row :: "ids \<Rightarrow> dims \<Rightarrow> (writer, file_row option) op" where
  "composite_row ids dims = query (select_file (ident_for ids dims))"

definition quarantine_existing :: "ids \<Rightarrow> dims \<Rightarrow> string \<Rightarrow> string \<Rightarrow> (writer, unit) op" where
  "quarantine_existing ids dims eff_key error_text =
     bind_op (exec (delete_files (\<lambda>r. f_ident r = ident_for ids dims))) (\<lambda>_.
     bind_op (record_failure eff_key error_text) (\<lambda>_. commit_op))"

type_synonym by_topic = "(rowid \<times> (rowid \<times> int)) list"

definition add_channel :: "channel_info \<Rightarrow> by_topic \<Rightarrow> (writer, by_topic) op" where
  "add_channel ch by_topic =
     bind_op (resolve_topic (ci_topic ch)) (\<lambda>topic_id.
     bind_op (resolve_schema (ci_schema_name ch) (ci_schema_encoding ch)) (\<lambda>schema_id.
       return_op
         (case map_of by_topic topic_id of
            Some (prev_schema, prev_count) \<Rightarrow>
              upsert topic_id (prev_schema, prev_count + ci_message_count ch) by_topic
          | None \<Rightarrow> upsert topic_id (schema_id, ci_message_count ch) by_topic)))"

definition members_from :: "by_topic \<Rightarrow> (rowid \<times> rowid) list" where
  "members_from by_topic = sort (map (\<lambda>(tid, sid, _). (tid, sid)) by_topic)"

text \<open>\<open>by_topic[tid][1]\<close> for each member; the members are keys of \<open>by_topic\<close>.\<close>

definition counts_from :: "by_topic \<Rightarrow> (rowid \<times> rowid) list \<Rightarrow> int list" where
  "counts_from by_topic members = map (\<lambda>(tid, _). snd (the (map_of by_topic tid))) members"

definition count_mismatch :: "int \<Rightarrow> int \<Rightarrow> exn" where
  "count_mismatch sum_counts message_count =
     Exn ''ValueError''
       (''count mismatch: sum(counts)='' @ show_int sum_counts @ '' != message_count='' @ show_int message_count)"

definition lift_result :: "exn + 'a \<Rightarrow> (writer, 'a) op" where
  "lift_result r = (case r of Inl e \<Rightarrow> raise_op e | Inr x \<Rightarrow> return_op x)"

text \<open>The body of \<open>with conn\<close> in \<open>_write_file_row\<close>.\<close>

definition file_txn ::
  "dims \<Rightarrow> string \<Rightarrow> ids \<Rightarrow> stat \<Rightarrow> file_summary \<Rightarrow> (writer, unit) op"
where
  "file_txn dims eff_key ids st summary =
     bind_op (fold_op add_channel (fsum_channels summary) []) (\<lambda>by_topic.
     let members = members_from by_topic in
     bind_op (resolve_topic_set (compute_set_fingerprint members) members) (\<lambda>set_id.
     let counts = counts_from by_topic members in
     if sum_list counts \<noteq> fsum_message_count summary
     then raise_op (count_mismatch (sum_list counts) (fsum_message_count summary))
     else
     bind_op (lift_result (encode_counts_blob counts)) (\<lambda>blob.
     bind_op now_ns (\<lambda>now.
     bind_op (exec_check (upsert_file (ident_for ids dims)
         \<lparr>ff_etag = st_etag st, ff_size_bytes = st_size st, ff_last_modified_ns = st_mtime_ns st,
          ff_cataloged_at_ns = now, ff_start_time_ns = fsum_start_time_ns summary,
          ff_end_time_ns = fsum_end_time_ns summary, ff_chunk_count = fsum_chunk_count summary,
          ff_topic_set_id = set_id, ff_topic_counts = blob, ff_has_error = False\<rparr>)) (\<lambda>_.
     bind_op (composite_row ids dims) (\<lambda>row.
     case row of
       None \<Rightarrow> raise_op row_is_none
     | Some r \<Rightarrow>
         let file_id = f_id r; tags = derive_tags summary in
         bind_op (exec (tags_embedded_update (filter (\<lambda>((i, _), _). i \<noteq> file_id)))) (\<lambda>_.
         bind_op (fold_op (\<lambda>kv _. exec_check (insert_embedded file_id kv)) tags ()) (\<lambda>_.
         let has_error = list_ex (\<lambda>(k, v). is_error_tag k v) tags \<or> fsum_message_count summary = 0 in
         bind_op (exec (set_has_error file_id has_error)) (\<lambda>_.
         exec (catalog_failures_update (delete_key eff_key)))))))))))"

text \<open>On an exception the transaction is rolled back, the caches are reloaded and the file quarantined.\<close>

definition reload_caches :: "(writer, unit) op" where
  "reload_caches = (\<lambda>w. (Inr (), w\<lparr>cache := load_caches (working w)\<rparr>))"

definition write_file_row ::
  "dims \<Rightarrow> string \<Rightarrow> ids \<Rightarrow> stat \<Rightarrow> file_summary \<Rightarrow> (writer, catalog_result) op"
where
  "write_file_row dims eff_key ids st summary = (\<lambda>w.
     case with_conn (file_txn dims eff_key ids st summary) w of
       (Inr _, w) \<Rightarrow> (Inr cataloged, w)
     | (Inl e, w) \<Rightarrow>
         bind_op reload_caches (\<lambda>_.
         bind_op (quarantine_existing ids dims eff_key (exn_text e)) (\<lambda>_.
         return_op (failed (exn_msg e)))) w)"

section \<open>Reading an object\<close>

text \<open>\<open>with source.open_summary(key, stat.size) as stream: summary_from_stream(stream)\<close>.\<close>

definition read_summary ::
  "('s \<Rightarrow> exn + mcap_summary option) \<Rightarrow> 's source \<Rightarrow> string \<Rightarrow> stat \<Rightarrow> exn + file_summary"
where
  "read_summary get_summary source key st =
     (case src_open source key (st_size st) of
        Inl e \<Rightarrow> Inl e
      | Inr stream \<Rightarrow> summary_from_stream get_summary stream)"

definition extract_summary ::
  "('s \<Rightarrow> exn + mcap_summary option) \<Rightarrow> 's source \<Rightarrow> string \<Rightarrow> stat \<Rightarrow> dims \<Rightarrow> string \<Rightarrow> extracted"
where
  "extract_summary get_summary source key st dims eff_key =
     (case read_summary get_summary source key st of
        Inr summary \<Rightarrow> Ready key dims eff_key st summary
      | Inl e \<Rightarrow>
          let gone = (case src_stat source key of Inr None \<Rightarrow> True | Inr (Some _) \<Rightarrow> False | Inl _ \<Rightarrow> False) in
          if gone then Vanished key else Read_error key dims eff_key (exn_text e))"

section \<open>The two entry points and the removal\<close>

definition apply_extract :: "extracted \<Rightarrow> (writer, catalog_result) op" where
  "apply_extract ex =
     (case ex of
        Vanished _ \<Rightarrow> return_op (failed ''vanished'')
      | Unparseable key error \<Rightarrow>
          let text = (if error = [] then ''unparseable key'' else error) in
          bind_op (record_failure key text) (\<lambda>_. bind_op commit_op (\<lambda>_. return_op (failed text)))
      | Read_error _ dims eff_key error \<Rightarrow>
          bind_op (resolve_ids dims) (\<lambda>ids.
          bind_op (quarantine_existing ids dims eff_key error) (\<lambda>_. return_op (failed error)))
      | Ready _ dims eff_key st summary \<Rightarrow>
          bind_op (resolve_ids dims) (\<lambda>ids. write_file_row dims eff_key ids st summary))"

definition catalog_object ::
  "('s \<Rightarrow> exn + mcap_summary option) \<Rightarrow> string \<Rightarrow> 's source \<Rightarrow> stat option \<Rightarrow> (writer, catalog_result) op"
where
  "catalog_object get_summary key source st0 =
     bind_op (lift_result (case st0 of Some st \<Rightarrow> Inr (Some st) | None \<Rightarrow> src_stat source key)) (\<lambda>st1.
     case st1 of
       None \<Rightarrow> return_op (failed ''vanished'')
     | Some st \<Rightarrow>
         (case resolve_key_dims source key of
            None \<Rightarrow>
              bind_op (record_failure key ''unparseable key'') (\<lambda>_.
              bind_op commit_op (\<lambda>_. return_op (failed ''unparseable key'')))
          | Some (dims, eff_key) \<Rightarrow>
              bind_op (resolve_ids dims) (\<lambda>ids.
              bind_op (composite_row ids dims) (\<lambda>existing.
              if (case existing of Some r \<Rightarrow> ff_etag (f_facts r) = st_etag st | None \<Rightarrow> False)
              then return_op skipped
              else
                (case read_summary get_summary source key st of
                   Inl e \<Rightarrow>
                     bind_op (quarantine_existing ids dims eff_key (exn_text e)) (\<lambda>_.
                     return_op (failed (exn_msg e)))
                 | Inr summary \<Rightarrow> write_file_row dims eff_key ids st summary)))))"

text \<open>The ids of a key, from the caches only.\<close>

definition cached_ids :: "caches \<Rightarrow> dims \<Rightarrow> ids option" where
  "cached_ids c dims = do {
     customer_id \<leftarrow> c_customer c (dim_customer dims);
     site_id \<leftarrow> c_site c (customer_id, dim_site dims);
     robot_id \<leftarrow> c_robot c (site_id, dim_robot dims);
     source_id \<leftarrow> c_source c (dim_source dims);
     Some (customer_id, site_id, robot_id, source_id)
   }"

definition delete_by_key :: "string \<Rightarrow> (writer, bool) op" where
  "delete_by_key key = (\<lambda>w.
     case parse_hive_key key of
       None \<Rightarrow> (Inr False, w)
     | Some dims \<Rightarrow>
         (case cached_ids (cache w) dims of
            None \<Rightarrow> (Inr False, w)
          | Some ids \<Rightarrow>
              bind_op (query (\<lambda>d. filter (\<lambda>r. f_ident r = ident_for ids dims) (files d))) (\<lambda>deleted.
              bind_op (exec (delete_files (\<lambda>r. f_ident r = ident_for ids dims))) (\<lambda>_.
              bind_op (exec (catalog_failures_update (delete_key key))) (\<lambda>_.
              bind_op commit_op (\<lambda>_.
              return_op (deleted \<noteq> []))))) w))"

definition catalog_file ::
  "('s \<Rightarrow> exn + mcap_summary option) \<Rightarrow> 's local_fs \<Rightarrow> string \<Rightarrow> string \<Rightarrow> (writer, catalog_result) op"
where
  "catalog_file get_summary fs path watched_root =
     (let source = local_source fs watched_root in
      bind_op (lift_result (src_event_key source path)) (\<lambda>key.
        catalog_object get_summary key source None))"

definition delete_by_path :: "'s local_fs \<Rightarrow> string \<Rightarrow> string \<Rightarrow> (writer, bool) op" where
  "delete_by_path fs path watched_root =
     bind_op (lift_result (relpath_key fs path watched_root)) delete_by_key"

end
