(* ===== verification/Builder_Transaction.thy ===== *)
theory Builder_Transaction
  imports Builder
begin

text \<open>
  What the per-file transaction computes. The channels of a file become the table \<open>by_topic\<close>
  (\<open>channel_table\<close>), that table the topic set and the counts blob, and reading both back gives each
  topic of the file with its schema and its total (\<open>file_topics\<close>).
\<close>

section \<open>Collecting the channels\<close>

definition topic_count :: "channel_info list \<Rightarrow> string \<Rightarrow> int" where
  "topic_count chs t = sum_list (map ci_message_count (filter (\<lambda>c. ci_topic c = t) chs))"

text \<open>The schema under which a topic is catalogued is that of its first channel.\<close>

definition topic_schema :: "channel_info list \<Rightarrow> string \<Rightarrow> (string \<times> string) option" where
  "topic_schema chs t =
     map_option (\<lambda>c. (ci_schema_name c, ci_schema_encoding c)) (find (\<lambda>c. ci_topic c = t) chs)"

definition topic_entry :: "db \<Rightarrow> channel_info list \<Rightarrow> string \<Rightarrow> (rowid \<times> int) option" where
  "topic_entry d chs t = do {
     schema \<leftarrow> topic_schema chs t;
     schema_id \<leftarrow> map_of (schemas d) schema;
     Some (schema_id, topic_count chs t)
   }"

definition channel_table :: "db \<Rightarrow> channel_info list \<Rightarrow> by_topic \<Rightarrow> bool" where
  "channel_table d chs bt \<longleftrightarrow>
     distinct (map fst bt) \<and>
     (\<forall>t i. map_of (topic_names d) t = Some i \<longrightarrow> map_of bt i = topic_entry d chs t) \<and>
     (\<forall>i \<in> fst ` set bt. \<exists>t \<in> ci_topic ` set chs. map_of (topic_names d) t = Some i) \<and>
     (\<forall>t \<in> ci_topic ` set chs. \<exists>i. map_of (topic_names d) t = Some i) \<and>
     (\<forall>c \<in> set chs. map_of (schemas d) (ci_schema_name c, ci_schema_encoding c) \<noteq> None) \<and>
     sum_list (map (\<lambda>(_, _, n). n) bt) = sum_list (map ci_message_count chs)"

lemma channel_tableD:
  assumes "channel_table d chs bt"
  shows "distinct (map fst bt)"
    and "map_of (topic_names d) t = Some i \<Longrightarrow> map_of bt i = topic_entry d chs t"
    and "i \<in> fst ` set bt \<Longrightarrow> \<exists>t \<in> ci_topic ` set chs. map_of (topic_names d) t = Some i"
    and "t \<in> ci_topic ` set chs \<Longrightarrow> \<exists>i. map_of (topic_names d) t = Some i"
    and "c \<in> set chs \<Longrightarrow> map_of (schemas d) (ci_schema_name c, ci_schema_encoding c) \<noteq> None"
    and "sum_list (map (\<lambda>(_, _, n). n) bt) = sum_list (map ci_message_count chs)"
  using assms unfolding channel_table_def by blast+

lemma channel_tableI:
  assumes "distinct (map fst bt)"
    and "\<And>t i. map_of (topic_names d) t = Some i \<Longrightarrow> map_of bt i = topic_entry d chs t"
    and "\<And>i. i \<in> fst ` set bt \<Longrightarrow> \<exists>t \<in> ci_topic ` set chs. map_of (topic_names d) t = Some i"
    and "\<And>t. t \<in> ci_topic ` set chs \<Longrightarrow> \<exists>i. map_of (topic_names d) t = Some i"
    and "\<And>c. c \<in> set chs \<Longrightarrow> map_of (schemas d) (ci_schema_name c, ci_schema_encoding c) \<noteq> None"
    and "sum_list (map (\<lambda>(_, _, n). n) bt) = sum_list (map ci_message_count chs)"
  shows "channel_table d chs bt"
  using assms unfolding channel_table_def by blast

lemma topic_count_snoc:
  "topic_count (chs @ [c]) t = topic_count chs t + (if ci_topic c = t then ci_message_count c else 0)"
  by (simp add: topic_count_def)

lemma topic_schema_snoc:
  "topic_schema (chs @ [c]) t =
    (case topic_schema chs t of
       Some s \<Rightarrow> Some s
     | None \<Rightarrow> if ci_topic c = t then Some (ci_schema_name c, ci_schema_encoding c) else None)"
  by (induction chs) (auto simp: topic_schema_def)

lemma topic_schema_None: "topic_schema chs t = None \<longleftrightarrow> t \<notin> ci_topic ` set chs"
  by (auto simp: topic_schema_def find_None_iff)

lemma topic_count_absent: "t \<notin> ci_topic ` set chs \<Longrightarrow> topic_count chs t = 0"
proof -
  assume "t \<notin> ci_topic ` set chs"
  then have "filter (\<lambda>c. ci_topic c = t) chs = []" by (auto simp: filter_empty_conv)
  then show ?thesis by (simp add: topic_count_def)
qed

lemma sum_upsert:
  assumes "distinct (map fst (t :: by_topic))"
  shows "sum_list (map (\<lambda>(_, _, n). n) (upsert k (s, n) t)) =
    sum_list (map (\<lambda>(_, _, n). n) t) + n - (case map_of t k of Some (_, m) \<Rightarrow> m | None \<Rightarrow> 0)"
  using assms by (induction t) auto

lemma topic_entry_grows:
  assumes "extends d d'" and "topic_entry d chs t = Some e"
  shows "topic_entry d' chs t = Some e"
  using assms map_of_prefix [of "schemas d" "schemas d'"]
  by (auto simp: topic_entry_def bind_eq_Some_conv extends_def)

lemma unique_topic_names: "lookups_wf d \<Longrightarrow> unique_table (topic_names d)"
  by (simp add: lookups_wf_def tables_wf_def)

lemma channel_table_entry_None:
  assumes "channel_table d chs bt" and "topic_entry d chs t = None"
  shows "t \<notin> ci_topic ` set chs"
proof (rule ccontr)
  assume "\<not> t \<notin> ci_topic ` set chs"
  then obtain sch where sch: "topic_schema chs t = Some sch" by (metis topic_schema_None not_Some_eq)
  then obtain c where c: "find (\<lambda>c. ci_topic c = t) chs = Some c"
    and "sch = (ci_schema_name c, ci_schema_encoding c)"
    by (auto simp: topic_schema_def)
  moreover have "c \<in> set chs" using c by (auto simp: find_Some_iff)
  ultimately have "map_of (schemas d) sch \<noteq> None" using channel_tableD(5) [OF assms(1)] by simp
  with sch assms(2) show False by (auto simp: topic_entry_def bind_eq_None_conv)
qed

lemma topic_entry_absent: "t \<notin> ci_topic ` set chs \<Longrightarrow> topic_entry d chs t = None"
  by (simp add: topic_entry_def topic_schema_None [symmetric])

lemma channel_table_grows:
  assumes ct: "channel_table d chs bt" and g: "grows d d'" and wf: "lookups_wf d'"
  shows "channel_table d' chs bt"
proof -
  have e: "extends d d'" using g by (simp add: grows_def)
  have topics: "map_of (topic_names d') t = Some i" if "map_of (topic_names d) t = Some i" for t i
    using that by (rule grows_lookup(2) [OF g])
  have entry: "map_of bt i = topic_entry d' chs t" if t: "map_of (topic_names d') t = Some i" for t i
  proof (cases "t \<in> ci_topic ` set chs")
    case True
    then obtain j where j: "map_of (topic_names d) t = Some j" using channel_tableD(4) [OF ct] by blast
    then have "j = i" using topics t by fastforce
    then have bt: "map_of bt i = topic_entry d chs t" using channel_tableD(2) [OF ct j] by simp
    have "topic_entry d chs t \<noteq> None" using channel_table_entry_None [OF ct] True by blast
    then show ?thesis using bt topic_entry_grows [OF e] by force
  next
    case False
    have "i \<notin> fst ` set bt"
    proof
      assume "i \<in> fst ` set bt"
      then obtain t' where t': "t' \<in> ci_topic ` set chs" "map_of (topic_names d) t' = Some i"
        using channel_tableD(3) [OF ct] by blast
      then have "t' = t"
        using unique_table_inject [OF unique_topic_names [OF wf] topics t] by simp
      with t'(1) False show False by simp
    qed
    then show ?thesis using False by (simp add: topic_entry_absent map_of_eq_None_iff)
  qed
  have schema: "map_of (schemas d') k \<noteq> None" if "map_of (schemas d) k \<noteq> None" for k
    using that e map_of_prefix [of "schemas d" "schemas d'" k] by (auto simp: extends_def)
  show ?thesis
  proof (rule channel_tableI)
    show "\<exists>t \<in> ci_topic ` set chs. map_of (topic_names d') t = Some i" if "i \<in> fst ` set bt" for i
      using channel_tableD(3) [OF ct that] topics by blast
    show "\<exists>i. map_of (topic_names d') t = Some i" if "t \<in> ci_topic ` set chs" for t
      using channel_tableD(4) [OF ct that] topics by blast
    show "map_of bt i = topic_entry d' chs t" if "map_of (topic_names d') t = Some i" for t i
      using that by (rule entry)
    show "map_of (schemas d') (ci_schema_name c, ci_schema_encoding c) \<noteq> None" if "c \<in> set chs" for c
      using channel_tableD(5) [OF ct that] by (rule schema)
  qed (rule channel_tableD(1,6) [OF ct])+
qed

definition record_channel :: "channel_info \<Rightarrow> rowid \<Rightarrow> rowid \<Rightarrow> by_topic \<Rightarrow> by_topic" where
  "record_channel ch topic_id schema_id bt =
     upsert topic_id
       (case map_of bt topic_id of
          Some (prev_schema, prev_count) \<Rightarrow> (prev_schema, prev_count + ci_message_count ch)
        | None \<Rightarrow> (schema_id, ci_message_count ch)) bt"

lemma channel_table_snoc:
  assumes ct: "channel_table d chs bt" and wf: "lookups_wf d"
    and i: "map_of (topic_names d) (ci_topic c) = Some i"
    and s: "map_of (schemas d) (ci_schema_name c, ci_schema_encoding c) = Some s"
  shows "channel_table d (chs @ [c]) (record_channel c i s bt)"
proof -
  have entry: "map_of bt i = topic_entry d chs (ci_topic c)" by (rule channel_tableD(2) [OF ct i])
  have this_topic: "map_of (record_channel c i s bt) i = topic_entry d (chs @ [c]) (ci_topic c)"
  proof (cases "map_of bt i")
    case None
    then have new: "ci_topic c \<notin> ci_topic ` set chs" using entry channel_table_entry_None [OF ct] by simp
    then have "topic_schema chs (ci_topic c) = None" by (simp only: topic_schema_None not_False_eq_True)
    then show ?thesis
      using None s topic_count_absent [OF new]
      by (simp add: record_channel_def topic_entry_def topic_schema_snoc topic_count_snoc)
  next
    case (Some e)
    then show ?thesis
      using entry
      by (auto simp: record_channel_def topic_entry_def topic_schema_snoc topic_count_snoc
          bind_eq_Some_conv split: prod.splits)
  qed
  have other: "map_of (record_channel c i s bt) j = topic_entry d (chs @ [c]) t"
    if "map_of (topic_names d) t = Some j" "t \<noteq> ci_topic c" for t j
  proof -
    have "j \<noteq> i" using unique_table_inject [OF unique_topic_names [OF wf] i] that by blast
    moreover have "topic_entry d (chs @ [c]) t = topic_entry d chs t"
      using that(2) by (simp add: topic_entry_def topic_schema_snoc topic_count_snoc split: option.splits)
    moreover have "map_of bt j = topic_entry d chs t" by (rule channel_tableD(2) [OF ct that(1)])
    ultimately show ?thesis by (simp add: record_channel_def)
  qed
  show ?thesis
  proof (rule channel_tableI)
    show "distinct (map fst (record_channel c i s bt))"
      using channel_tableD(1) [OF ct] by (simp add: record_channel_def)
    show "map_of (record_channel c i s bt) j = topic_entry d (chs @ [c]) t"
      if "map_of (topic_names d) t = Some j" for t j
      using that this_topic other i by (cases "t = ci_topic c") auto
    show "\<exists>t \<in> ci_topic ` set (chs @ [c]). map_of (topic_names d) t = Some j"
      if "j \<in> fst ` set (record_channel c i s bt)" for j
      using that i channel_tableD(3) [OF ct, of j] by (auto simp: record_channel_def)
    show "\<exists>j. map_of (topic_names d) t = Some j" if "t \<in> ci_topic ` set (chs @ [c])" for t
      using that i channel_tableD(4) [OF ct, of t] by auto
    show "map_of (schemas d) (ci_schema_name c', ci_schema_encoding c') \<noteq> None"
      if "c' \<in> set (chs @ [c])" for c'
      using that s channel_tableD(5) [OF ct, of c'] by auto
    show "sum_list (map (\<lambda>(_, _, n). n) (record_channel c i s bt)) =
        sum_list (map ci_message_count (chs @ [c]))"
      using channel_tableD(1,6) [OF ct]
      by (auto simp: record_channel_def sum_upsert split: option.splits)
  qed
qed

lemma add_channel_reference:
  assumes coh: "coherent w" and wf: "lookups_wf (working w)" and ct: "channel_table (working w) chs bt"
  obtains d bt' where "add_channel c bt w = (Inr bt', with_db d w)" and "grows (working w) d"
    and "channel_table d (chs @ [c]) bt'" and "topic_sets d = topic_sets (working w)"
proof -
  let ?d = "working w" and ?t = "ci_topic c" and ?k = "(ci_schema_name c, ci_schema_encoding c)"
  let ?d1 = "topic_names_update (insert_or_ignore ?t) ?d"
  let ?d2 = "schemas_update (insert_or_ignore ?k) ?d1"
  let ?i = "row_id ?t (topic_names ?d)" and ?s = "row_id ?k (schemas ?d)"
  have g: "grows ?d ?d2"
    by (rule grows_trans [OF grows_topic_names grows_schemas])
  note wf2 = grows_lookups_wf [OF g wf]
  have "add_channel c bt w = (Inr (record_channel c ?i ?s bt), with_db ?d2 w)"
    using coh
    by (simp add: add_channel_def resolve_topic_reference resolve_schema_reference record_channel_def
        split: option.splits prod.splits)
  moreover have "channel_table ?d2 (chs @ [c]) (record_channel c ?i ?s bt)"
    by (rule channel_table_snoc [OF channel_table_grows [OF ct g wf2] wf2])
      (simp_all add: map_of_insert_or_ignore)
  ultimately show ?thesis using that g by simp
qed

lemma add_channels_reference:
  assumes "coherent w" and "lookups_wf (working w)" and "channel_table (working w) prior bt"
  obtains d bt' where "fold_op add_channel chs bt w = (Inr bt', with_db d w)" and "grows (working w) d"
    and "channel_table d (prior @ chs) bt'" and "topic_sets d = topic_sets (working w)"
  using assms
proof (induction chs arbitrary: prior bt w thesis)
  case Nil
  show ?case
    by (rule Nil.prems(1) [of bt "working w"])
      (use Nil.prems coherent_with_db [of w] in simp_all)
next
  case (Cons c chs)
  obtain d bt' where one: "add_channel c bt w = (Inr bt', with_db d w)" "grows (working w) d"
    "channel_table d (prior @ [c]) bt'" "topic_sets d = topic_sets (working w)"
    using add_channel_reference [OF Cons.prems(2-4)] by blast
  obtain d' bt'' where rest: "fold_op add_channel chs bt' (with_db d w) = (Inr bt'', with_db d' (with_db d w))"
    "grows (working (with_db d w)) d'" "channel_table d' ((prior @ [c]) @ chs) bt''"
    "topic_sets d' = topic_sets (working (with_db d w))"
  proof (rule Cons.IH [where w = "with_db d w" and prior = "prior @ [c]" and bt = bt'])
    show "lookups_wf (working (with_db d w))" using grows_lookups_wf [OF one(2) Cons.prems(3)] by simp
    show "channel_table (working (with_db d w)) (prior @ [c]) bt'" using one(3) by simp
  qed simp_all
  show ?case
  proof (rule Cons.prems(1))
    show "fold_op add_channel (c # chs) bt w = (Inr bt'', with_db d' w)" using one(1) rest(1) by simp
    show "grows (working w) d'" using one(2) rest(2) grows_trans by simp
    show "channel_table d' (prior @ c # chs) bt''" using rest(3) by simp
    show "topic_sets d' = topic_sets (working w)" using one(4) rest(4) by simp
  qed
qed

section \<open>Members, counts and reading them back\<close>

lemma members_from_mset: "mset (members_from bt) = mset (map (\<lambda>(t, s, _). (t, s)) bt)"
  by (simp add: members_from_def)

lemma members_from_set: "(t, s) \<in> set (members_from bt) \<longleftrightarrow> (\<exists>n. (t, s, n) \<in> set bt)"
  by (force simp: members_from_def)

lemma members_from_fst:
  assumes "distinct (map fst bt)"
  shows "distinct (map fst (members_from bt))"
proof -
  have "mset (map fst (members_from bt)) = mset (map fst (map (\<lambda>(t, s, _). (t, s)) bt))"
    unfolding mset_map members_from_mset ..
  also have "map fst (map (\<lambda>(t, s, _). (t, s)) bt) = map fst bt" by auto
  finally show ?thesis using assms by (metis mset_eq_imp_distinct_iff)
qed

text \<open>Members and counts together are the entries of the table.\<close>

lemma members_counts_mset:
  assumes "distinct (map fst bt)"
  shows "mset (zip (members_from bt) (counts_from bt (members_from bt))) =
    mset (map (\<lambda>(t, s, n). ((t, s), n)) bt)"
proof -
  let ?c = "\<lambda>(t, _). snd (the (map_of bt t))"
  have "zip (members_from bt) (counts_from bt (members_from bt)) = map (\<lambda>m. (m, ?c m)) (members_from bt)"
    by (simp add: counts_from_def zip_map2 zip_same_conv_map)
  then have "mset (zip (members_from bt) (counts_from bt (members_from bt))) =
      mset (map (\<lambda>m. (m, ?c m)) (map (\<lambda>(t, s, _). (t, s)) bt))"
    by (simp only: mset_map members_from_mset)
  also have "map (\<lambda>m. (m, ?c m)) (map (\<lambda>(t, s, _). (t, s)) bt) = map (\<lambda>(t, s, n). ((t, s), n)) bt"
    using assms by auto
  finally show ?thesis .
qed

lemma length_counts_from [simp]: "length (counts_from bt ms) = length ms"
  by (simp add: counts_from_def)

lemma sum_counts_from:
  assumes "distinct (map fst bt)"
  shows "sum_list (counts_from bt (members_from bt)) = sum_list (map (\<lambda>(_, _, n). n) bt)"
proof -
  have "counts_from bt (members_from bt) = map snd (zip (members_from bt) (counts_from bt (members_from bt)))"
    by simp
  then have "mset (counts_from bt (members_from bt)) = mset (map snd (map (\<lambda>(t, s, n). ((t, s), n)) bt))"
    by (metis members_counts_mset [OF assms] mset_map)
  also have "map snd (map (\<lambda>(t, s, n). ((t, s), n)) bt) = map (\<lambda>(_, _, n). n) bt" by auto
  finally show ?thesis by (metis sum_mset_sum_list)
qed

text \<open>The entries of the table by name: topic, schema and total.\<close>

lemma channel_table_entry:
  assumes ct: "channel_table d chs bt"
  shows "(t, s, n) \<in> set bt \<longleftrightarrow>
    (\<exists>tn sch. map_of (topic_names d) tn = Some t \<and> map_of (schemas d) sch = Some s \<and>
      topic_schema chs tn = Some sch \<and> n = topic_count chs tn)" (is "?l \<longleftrightarrow> ?r")
proof
  note D = channel_tableD [OF ct]
  assume m: ?l
  then have "t \<in> fst ` set bt" by force
  then obtain tn where tn: "map_of (topic_names d) tn = Some t" using D(3) by blast
  then have "topic_entry d chs tn = Some (s, n)" using D(1,2) m by (metis map_of_is_SomeI)
  then show ?r using tn by (auto simp: topic_entry_def bind_eq_Some_conv)
next
  note D = channel_tableD [OF ct]
  assume ?r
  then obtain tn sch where tn: "map_of (topic_names d) tn = Some t"
    and "map_of (schemas d) sch = Some s" "topic_schema chs tn = Some sch" "n = topic_count chs tn"
    by blast
  then have "topic_entry d chs tn = Some (s, n)" by (simp add: topic_entry_def)
  then show ?l using D(2) [OF tn] by (auto dest: map_of_SomeD)
qed

lemma members_from_ok:
  assumes "channel_table d chs bt"
  shows "members_ok d (members_from bt)"
proof -
  have "t \<in> snd ` set (topic_names d) \<and> s \<in> snd ` set (schemas d)" if m: "(t, s, n) \<in> set bt" for t s n
    using m unfolding channel_table_entry [OF assms] by (force dest: map_of_SomeD)
  then show ?thesis
    using members_from_fst [OF channel_tableD(1) [OF assms]]
    by (auto simp: members_ok_def members_from_set) (simp add: members_from_def)
qed

lemma members_counts_set:
  assumes "distinct (map fst bt)"
  shows "((t, s), n) \<in> set (zip (members_from bt) (counts_from bt (members_from bt))) \<longleftrightarrow> (t, s, n) \<in> set bt"
proof -
  have "set (zip (members_from bt) (counts_from bt (members_from bt))) = set (map (\<lambda>(t, s, n). ((t, s), n)) bt)"
    using members_counts_mset [OF assms] by (rule mset_eq_setD)
  then show ?thesis by force
qed

text \<open>
  The channels of a file as a reader of the catalog sees them: the decoded counts, in the order of the
  topic set's members, with the names of topic and schema.
\<close>

definition entry_names :: "db \<Rightarrow> (rowid \<times> rowid) \<times> int \<Rightarrow> (string \<times> (string \<times> string) \<times> int) option" where
  "entry_names d = (\<lambda>((t, s), n). do {
     topic \<leftarrow> name_of (topic_names d) t;
     schema \<leftarrow> name_of (schemas d) s;
     Some (topic, schema, n)
   })"

definition file_topics :: "db \<Rightarrow> file_row \<Rightarrow> (string \<times> (string \<times> string) \<times> int) list option" where
  "file_topics d f =
     (case decode_counts_blob (ff_topic_counts (f_facts f)) of
        Inl _ \<Rightarrow> None
      | Inr counts \<Rightarrow>
          (let members = members_of d (ff_topic_set_id (f_facts f)) in
           if length counts \<noteq> length members then None
           else those (map (entry_names d) (zip members counts))))"

lemma those_map_Some: "(\<And>x. x \<in> set xs \<Longrightarrow> f x = Some (g x)) \<Longrightarrow> those (map f xs) = Some (map g xs)"
  by (induction xs) auto

text \<open>The names of an entry, and the entries of a topic.\<close>

lemma channel_table_names:
  assumes ct: "channel_table d chs bt" and wf: "lookups_wf d" and m: "(t, s, n) \<in> set bt"
  obtains tn sch where "name_of (topic_names d) t = Some tn" and "name_of (schemas d) s = Some sch"
    and "topic_schema chs tn = Some sch" and "n = topic_count chs tn"
proof -
  have "unique_table (topic_names d)" "unique_table (schemas d)"
    using wf by (simp_all add: lookups_wf_def tables_wf_def)
  then show ?thesis
    using that m unfolding channel_table_entry [OF ct] by (auto simp: name_of_iff)
qed

lemma channel_table_topic:
  assumes ct: "channel_table d chs bt" and wf: "lookups_wf d" and sch: "topic_schema chs tn = Some sch"
  obtains t s where "(t, s, topic_count chs tn) \<in> set bt" and "name_of (topic_names d) t = Some tn"
    and "name_of (schemas d) s = Some sch"
proof -
  note D = channel_tableD [OF ct]
  have u: "unique_table (topic_names d)" "unique_table (schemas d)"
    using wf by (simp_all add: lookups_wf_def tables_wf_def)
  have tn: "tn \<in> ci_topic ` set chs" using sch by (metis option.distinct(1) topic_schema_None)
  then obtain t where t: "map_of (topic_names d) tn = Some t" using D(4) by blast
  have "topic_entry d chs tn \<noteq> None" using channel_table_entry_None [OF ct] tn by blast
  then obtain s where s: "map_of (schemas d) sch = Some s" using sch by (auto simp: topic_entry_def bind_eq_Some_conv)
  have "(t, s, topic_count chs tn) \<in> set bt" unfolding channel_table_entry [OF ct] using t s sch by blast
  with t s u that show ?thesis by (simp add: name_of_iff)
qed

definition read_entry :: "db \<Rightarrow> (rowid \<times> rowid) \<times> int \<Rightarrow> string \<times> (string \<times> string) \<times> int" where
  "read_entry d = (\<lambda>((t, s), n). (the (name_of (topic_names d) t), the (name_of (schemas d) s), n))"

lemma read_entries_distinct:
  assumes ct: "channel_table d chs bt" and wf: "lookups_wf d"
  shows "distinct (map fst (map (read_entry d) (zip (members_from bt) (counts_from bt (members_from bt)))))"
    (is "distinct (map fst (map _ ?z))")
proof -
  let ?name = "\<lambda>i. the (name_of (topic_names d) i)"
  have "map fst (map (read_entry d) ?z) = map ?name (map fst (members_from bt))"
    by (rule nth_equalityI) (auto simp: read_entry_def case_prod_beta)
  moreover have "inj_on ?name (set (map fst (members_from bt)))"
  proof (rule inj_onI)
    have u: "unique_table (topic_names d)" using wf by (rule unique_topic_names)
    fix i j
    assume ij: "i \<in> set (map fst (members_from bt))" "j \<in> set (map fst (members_from bt))"
      and eq: "?name i = ?name j"
    then have "i \<in> fst ` set bt" "j \<in> fst ` set bt" by (force simp: members_from_def)+
    then obtain ti tj where "map_of (topic_names d) ti = Some i" "map_of (topic_names d) tj = Some j"
      using channel_tableD(3) [OF ct] by meson
    with eq show "i = j" using name_of_iff [OF u] by (metis option.inject option.sel)
  qed
  ultimately show ?thesis
    using members_from_fst [OF channel_tableD(1) [OF ct]] by (simp add: distinct_map comp_inj_on)
qed

lemma file_topics_table:
  assumes ct: "channel_table d chs bt" and wf: "lookups_wf d"
    and blob: "decode_counts_blob (ff_topic_counts (f_facts f)) = Inr (counts_from bt (members_from bt))"
    and ms: "members_of d (ff_topic_set_id (f_facts f)) = members_from bt"
  obtains ts where "file_topics d f = Some ts" and "distinct (map fst ts)"
    and "\<And>t sch n. (t, sch, n) \<in> set ts \<longleftrightarrow> topic_schema chs t = Some sch \<and> n = topic_count chs t"
proof -
  let ?z = "zip (members_from bt) (counts_from bt (members_from bt))"
  note z = members_counts_set [OF channel_tableD(1) [OF ct]]
  have "entry_names d m = Some (read_entry d m)" if m: "m \<in> set ?z" for m
  proof -
    obtain t s n where tsn: "m = ((t, s), n)" by (metis prod.exhaust)
    with m have "(t, s, n) \<in> set bt" by (simp only: z)
    then obtain tn sch where "name_of (topic_names d) t = Some tn" "name_of (schemas d) s = Some sch"
      by (rule channel_table_names [OF ct wf])
    then show ?thesis by (simp add: tsn read_entry_def entry_names_def)
  qed
  then have "those (map (entry_names d) ?z) = Some (map (read_entry d) ?z)" by (rule those_map_Some)
  then have read: "file_topics d f = Some (map (read_entry d) ?z)"
    by (simp add: file_topics_def blob ms Let_def)
  have "(tn, sch, n) \<in> set (map (read_entry d) ?z) \<longleftrightarrow> topic_schema chs tn = Some sch \<and> n = topic_count chs tn"
    for tn sch n
  proof
    assume "(tn, sch, n) \<in> set (map (read_entry d) ?z)"
    then obtain t s where "(t, s, n) \<in> set bt" "tn = the (name_of (topic_names d) t)"
      "sch = the (name_of (schemas d) s)" using z by (auto simp: read_entry_def)
    then show "topic_schema chs tn = Some sch \<and> n = topic_count chs tn"
      using channel_table_names [OF ct wf] by (metis option.sel)
  next
    assume "topic_schema chs tn = Some sch \<and> n = topic_count chs tn"
    then obtain t s where "(t, s, n) \<in> set bt" "name_of (topic_names d) t = Some tn"
      "name_of (schemas d) s = Some sch"
      using channel_table_topic [OF ct wf] by metis
    then have "((t, s), n) \<in> set ?z" "read_entry d ((t, s), n) = (tn, sch, n)"
      using z by (simp_all add: read_entry_def)
    then show "(tn, sch, n) \<in> set (map (read_entry d) ?z)" by (metis image_eqI set_map)
  qed
  then show ?thesis using that read read_entries_distinct [OF ct wf] by blast
qed

section \<open>Storing the row\<close>

text \<open>The facts the transaction stores, and what it does to the database besides.\<close>

definition row_facts :: "stat \<Rightarrow> file_summary \<Rightarrow> int \<Rightarrow> rowid \<Rightarrow> bytes \<Rightarrow> file_facts" where
  "row_facts st summary now set_id blob =
     \<lparr>ff_etag = st_etag st, ff_size_bytes = st_size st, ff_last_modified_ns = st_mtime_ns st,
      ff_cataloged_at_ns = now, ff_start_time_ns = fsum_start_time_ns summary,
      ff_end_time_ns = fsum_end_time_ns summary, ff_chunk_count = fsum_chunk_count summary,
      ff_topic_set_id = set_id, ff_topic_counts = blob,
      ff_has_error = (fsum_message_count summary = 0)\<rparr>"

definition facts_fit :: "file_facts \<Rightarrow> bool" where
  "facts_fit ff \<longleftrightarrow>
     list_all fits_sqlite
       [ff_size_bytes ff, ff_last_modified_ns ff, ff_cataloged_at_ns ff, ff_start_time_ns ff,
        ff_end_time_ns ff, ff_chunk_count ff]"

definition stored :: "ident \<Rightarrow> file_facts \<Rightarrow> string \<Rightarrow> db \<Rightarrow> db \<Rightarrow> bool" where
  "stored i ff key d d' \<longleftrightarrow>
     names d' = names d \<and>
     (\<forall>j. select_file j d' =
        (if j = i then Some \<lparr>f_id = file_id_for i d, f_ident = i, f_facts = ff\<rparr> else select_file j d)) \<and>
     tags_override d' = tags_override d \<and>
     tags_embedded d' = filter (\<lambda>((n, _), _). n \<noteq> file_id_for i d) (tags_embedded d) \<and>
     catalog_failures d' = delete_key key (catalog_failures d) \<and>
     build_metadata d' = build_metadata d \<and> db_tables d' = db_tables d \<and>
     schema_version d' = schema_version d \<and> db_wf d'"

lemma ident_file_fks:
  assumes "ident_of d ds = Some i" and "ff_topic_set_id ff \<in> snd ` set (topic_sets d)"
  shows "file_fks d i ff"
proof -
  obtain c s r x dt fn where i: "i = ((c, s, r, x), dt, fn)" by (metis prod.exhaust)
  have ids: "n \<in> snd ` set t" if "map_of t k = Some n" for k n and t :: "'k lookup_table"
    using that by (force dest: map_of_SomeD)
  show ?thesis
    using assms unfolding i ident_of_Some by (auto simp: file_fks_def intro: ids)
qed

lemma upsert_file_fits:
  "facts_fit ff \<Longrightarrow> file_fks d i ff \<Longrightarrow> \<exists>d'. upsert_file i ff d = Inr d'"
  "\<not> facts_fit ff \<Longrightarrow> upsert_file i ff d = Inl integer_too_large"
  by (auto simp: upsert_file_def facts_fit_def split: option.splits)

lemma tags_wf_filter:
  "tags_wf d \<Longrightarrow> tags_wf (tags_embedded_update (filter P) d)"
  by (auto simp: tags_wf_def distinct_map_filter_fst)

lemma file_id_for_select: "files_wf d \<Longrightarrow> select_file j d = Some r \<Longrightarrow> f_id r = file_id_for i d \<Longrightarrow>
    ident_of d ds = Some i \<Longrightarrow> j = i"
proof (cases "select_file i d")
  case None
  assume a: "files_wf d" "select_file j d = Some r" "f_id r = file_id_for i d"
  then have "r \<in> set (files d)" using select_file_Some by blast
  then have "f_id r \<in> set (map f_id (files d))" by simp
  with a(3) None show ?thesis using next_rowid_fresh by (metis file_id_for_def option.case(1))
next
  case (Some r')
  assume a: "files_wf d" "select_file j d = Some r" "f_id r = file_id_for i d"
  then have "r = r'"
    using Some by (auto simp: file_id_for_def select_file_iff files_wf_def distinct_map dest: inj_onD)
  with a Some show ?thesis by (simp add: select_file_iff)
qed

lemma store_row:
  assumes wf: "db_wf d" and ds: "ident_of d ds = Some i" "wf_dims ds"
    and set_id: "ff_topic_set_id ff \<in> snd ` set (topic_sets d)"
    and up: "upsert_file i (ff\<lparr>ff_has_error := False\<rparr>) d = Inr d2"
  shows "select_file i d2 = Some \<lparr>f_id = file_id_for i d, f_ident = i, f_facts = ff\<lparr>ff_has_error := False\<rparr>\<rparr>"
    and "stored i ff key d
      (catalog_failures_update (delete_key key)
        (set_has_error (file_id_for i d) (ff_has_error ff)
          (tags_embedded_update (filter (\<lambda>((n, _), _). n \<noteq> file_id_for i d)) d2)))"
      (is "stored _ _ _ _ (catalog_failures_update _ (set_has_error ?n ?e ?d3))")
proof -
  let ?ff = "ff\<lparr>ff_has_error := False\<rparr>"
  let ?d5 = "catalog_failures_update (delete_key key) (set_has_error ?n ?e ?d3)"
  note sel = select_upsert_file [OF up] and frame = upsert_file_frame [OF up]
  note names2 = upsert_file_names [OF up]
  have fw: "files_wf d" and tw: "tables_wf d" using wf by (simp_all add: db_wf_def)
  show "select_file i d2 = Some \<lparr>f_id = ?n, f_ident = i, f_facts = ?ff\<rparr>" by (simp add: sel)
  have same: "select_file j ?d5 = select_file j (set_has_error ?n ?e d2)" for j
    by (simp add: select_file_def set_has_error_def)
  have other: "f_id r \<noteq> ?n" if "select_file j d = Some r" "j \<noteq> i" for j r
    using file_id_for_select [OF fw that(1) _ ds(1)] that(2) by blast
  have select: "select_file j ?d5 =
      (if j = i then Some \<lparr>f_id = ?n, f_ident = i, f_facts = ff\<rparr> else select_file j d)" for j
    unfolding same select_set_has_error sel
    using other by (cases "select_file j d") (auto split: if_splits)
  have "file_ok d \<lparr>f_id = 0, f_ident = i, f_facts = ?ff\<rparr>"
    using ds(2) set_id dims_of_iff [OF tw, THEN iffD2, OF ds(1)] by (simp add: file_ok_def)
  note up_wf = upsert_file_wf [OF up fw this]
  have names5: "names ?d5 = names d2"
    by (simp add: names_def set_has_error_def)
  have "files_wf (set_has_error ?n ?e d2)" using up_wf(1) by (rule set_has_error_wf)
  then have files5: "files_wf ?d5"
    using names_frame [OF names5] names_frame [OF set_has_error_frame(1) [of ?n ?e d2]]
    by (simp add: files_wf_def set_has_error_def)
  have tags2: "tags_wf d2"
    using wf subset_trans [OF _ up_wf(2)] by (simp add: db_wf_def tags_wf_def frame)
  have "tags_wf ?d3" by (rule tags_wf_filter [OF tags2])
  then have tags5: "tags_wf ?d5" by (simp add: tags_wf_def)
  have "names ?d5 = names d" using names5 names2 by simp
  moreover from this have "db_wf ?d5"
    using wf files5 tags5 names_frame [of ?d5 d] by (simp add: db_wf_def frame)
  ultimately show "stored i ff key d ?d5"
    by (simp add: stored_def select frame)
qed

section \<open>The transaction\<close>

abbreviation channel_total :: "file_summary \<Rightarrow> int" where
  "channel_total summary \<equiv> sum_list (map ci_message_count (fsum_channels summary))"

text \<open>A tick of the clock does not concern the database.\<close>

abbreviation ticked :: "writer \<Rightarrow> writer" where
  "ticked w \<equiv> w\<lparr>reads := Suc (reads w)\<rparr>"

lemma ident_of_for: "lookup_ids d ds = Some ids \<Longrightarrow> ident_of d ds = Some (ident_for ids ds)"
  by (simp add: ident_of_def ident_for_def)

lemma channel_table_empty: "channel_table d [] []"
  by (rule channel_tableI) (simp_all add: topic_entry_def topic_schema_def)

text \<open>
  The members a file's channels intern to, and the absence of a collision: no stored topic set has
  their fingerprint without being that very set.
\<close>

definition channel_members :: "channel_info list \<Rightarrow> writer \<Rightarrow> (rowid \<times> rowid) list" where
  "channel_members chs w =
     (case fold_op add_channel chs [] w of (Inr bt, _) \<Rightarrow> members_from bt | (Inl _, _) \<Rightarrow> [])"

definition collision_free :: "channel_info list \<Rightarrow> writer \<Rightarrow> bool" where
  "collision_free chs w \<longleftrightarrow>
     (case map_of (topic_sets (working w)) (compute_set_fingerprint (channel_members chs w)) of
        None \<Rightarrow> True
      | Some i \<Rightarrow> members_of (working w) i = channel_members chs w)"

text \<open>The first half, up to the topic set: it cannot fail.\<close>

lemma collect_channels:
  assumes coh: "coherent w" and wf: "lookups_wf (working w)" and sets: "sets_wf (working w)"
  obtains d0 d bt set_id where
    "fold_op add_channel chs [] w = (Inr bt, with_db d0 w)"
    and "resolve_topic_set (compute_set_fingerprint (members_from bt)) (members_from bt) (with_db d0 w) =
      (Inr set_id, with_db d w)"
    and "grows (working w) d" and "sets_wf d" and "channel_table d chs bt"
    and "map_of (topic_sets d) (compute_set_fingerprint (members_from bt)) = Some set_id"
    and "collision_free chs w \<longrightarrow> members_of d set_id = members_from bt"
proof -
  let ?fp = "\<lambda>bt. compute_set_fingerprint (members_from bt)"
  obtain d0 bt where chan: "fold_op add_channel chs [] w = (Inr bt, with_db d0 w)"
    "grows (working w) d0" "channel_table d0 ([] @ chs) bt" "topic_sets d0 = topic_sets (working w)"
    by (rule add_channels_reference [OF coh wf channel_table_empty])
  have wf0: "lookups_wf d0" by (rule grows_lookups_wf [OF chan(2) wf])
  have ct0: "channel_table d0 chs bt" using chan(3) by simp
  have sets0: "sets_wf d0"
    using grows_sets_wf [OF chan(2) wf sets] by (simp add: chan(4))
  obtain set_id d where res: "resolve_topic_set (?fp bt) (members_from bt) (with_db d0 w) =
      (Inr set_id, with_db d (with_db d0 w))"
    "grows (working (with_db d0 w)) d" "map_of (topic_sets d) (?fp bt) = Some set_id"
    "map_of (topic_sets (working (with_db d0 w))) (?fp bt) = None \<Longrightarrow>
      members_of d set_id = members_from bt \<and>
      topic_sets d = topic_sets (working (with_db d0 w)) @ [(?fp bt, set_id)]"
    "map_of (topic_sets (working (with_db d0 w))) (?fp bt) \<noteq> None \<Longrightarrow> d = working (with_db d0 w)"
    by (rule resolve_topic_set_reference [where w = "with_db d0 w" and fp = "?fp bt" and ms = "members_from bt"])
      (use wf0 members_from_ok [OF ct0] in simp_all)
  have g: "grows d0 d" using res(2) by simp
  have "sets_wf d"
  proof (cases "map_of (topic_sets d0) (?fp bt)")
    case None
    then have "members_of d set_id = members_from bt \<and> topic_sets d = topic_sets d0 @ [(?fp bt, set_id)]"
      using res(4) by simp
    then show ?thesis by (intro grows_sets_wf [OF g wf0 sets0]) auto
  next
    case (Some j)
    then show ?thesis using res(5) sets0 by simp
  qed
  moreover have "channel_table d chs bt"
    by (rule channel_table_grows [OF ct0 g grows_lookups_wf [OF g wf0]])
  moreover have "members_of d set_id = members_from bt" if free: "collision_free chs w"
  proof (cases "map_of (topic_sets d0) (?fp bt)")
    case None
    then show ?thesis using res(4) by simp
  next
    case (Some j)
    then have d: "d = d0" using res(5) by simp
    with Some res(3) have "j = set_id" by simp
    with Some free have "members_of (working w) set_id = members_from bt"
      by (simp add: collision_free_def channel_members_def chan(1,4))
    moreover have "set_id \<in> snd ` set (topic_sets (working w))"
      using Some \<open>j = set_id\<close> chan(4) by (force dest: map_of_SomeD)
    ultimately show ?thesis using grows_members [OF chan(2) wf] d by simp
  qed
  ultimately show ?thesis
    using that [OF chan(1)] res(1,3) grows_trans [OF chan(2) g] by simp
qed

text \<open>Everything the transaction can do: four ways to fail, and one to store the row.\<close>

lemma file_txn_reference:
  assumes coh: "coherent w" and wf: "db_wf (working w)" and sets: "sets_wf (working w)"
    and ids: "lookup_ids (working w) ds = Some ids" and ds: "wf_dims ds"
  obtains d bt set_id where "grows (working w) d" and "sets_wf d"
    and "channel_table d (fsum_channels summary) bt"
    and "map_of (topic_sets d) (compute_set_fingerprint (members_from bt)) = Some set_id"
    and "collision_free (fsum_channels summary) w \<longrightarrow> members_of d set_id = members_from bt"
    and "channel_total summary \<noteq> fsum_message_count summary \<Longrightarrow>
      file_txn ds key ids st summary w =
        (Inl (count_mismatch (channel_total summary) (fsum_message_count summary)), with_db d w)"
    and "\<And>e. channel_total summary = fsum_message_count summary \<Longrightarrow>
      encode_counts_blob (counts_from bt (members_from bt)) = Inl e \<Longrightarrow>
      file_txn ds key ids st summary w = (Inl e, with_db d w)"
    and "\<And>blob. channel_total summary = fsum_message_count summary \<Longrightarrow>
      encode_counts_blob (counts_from bt (members_from bt)) = Inr blob \<Longrightarrow>
      \<not> facts_fit (row_facts st summary (ticks w (reads w)) set_id blob) \<Longrightarrow>
      file_txn ds key ids st summary w = (Inl integer_too_large, ticked (with_db d w))"
    and "\<And>blob. channel_total summary = fsum_message_count summary \<Longrightarrow>
      encode_counts_blob (counts_from bt (members_from bt)) = Inr blob \<Longrightarrow>
      facts_fit (row_facts st summary (ticks w (reads w)) set_id blob) \<Longrightarrow>
      \<exists>d'. file_txn ds key ids st summary w = (Inr (), ticked (with_db d' w)) \<and>
        stored (ident_for ids ds) (row_facts st summary (ticks w (reads w)) set_id blob) key d d'"
proof -
  have lw: "lookups_wf (working w)" using wf by (rule db_wf_lookups)
  obtain d0 d bt set_id where
    chan: "fold_op add_channel (fsum_channels summary) [] w = (Inr bt, with_db d0 w)"
    and set_id: "resolve_topic_set (compute_set_fingerprint (members_from bt)) (members_from bt) (with_db d0 w) =
      (Inr set_id, with_db d w)"
    and g: "grows (working w) d" and sets': "sets_wf d" and ct: "channel_table d (fsum_channels summary) bt"
    and fp: "map_of (topic_sets d) (compute_set_fingerprint (members_from bt)) = Some set_id"
    and free: "collision_free (fsum_channels summary) w \<longrightarrow> members_of d set_id = members_from bt"
    by (rule collect_channels [OF coh lw sets, where chs = "fsum_channels summary"])
  let ?counts = "counts_from bt (members_from bt)" and ?i = "ident_for ids ds"
  let ?ff = "row_facts st summary (ticks w (reads w)) set_id"
  have sum: "sum_list ?counts = channel_total summary"
    using sum_counts_from channel_tableD(1,6) [OF ct] by simp
  have ident: "ident_of d ds = Some ?i"
    by (rule grows_lookup(1) [OF g ident_of_for [OF ids]])
  have set_in: "set_id \<in> snd ` set (topic_sets d)" using fp by (force dest: map_of_SomeD)
  note eval = file_txn_def chan set_id sum Let_def lift_result_def
  show ?thesis
  proof (rule that [OF g sets' ct fp free])
    show "file_txn ds key ids st summary w =
        (Inl (count_mismatch (channel_total summary) (fsum_message_count summary)), with_db d w)"
      if "channel_total summary \<noteq> fsum_message_count summary"
      using that by (simp add: eval)
  next
    fix e
    assume "channel_total summary = fsum_message_count summary" "encode_counts_blob ?counts = Inl e"
    then show "file_txn ds key ids st summary w = (Inl e, with_db d w)" by (simp add: eval)
  next
    fix blob
    assume "channel_total summary = fsum_message_count summary" "encode_counts_blob ?counts = Inr blob"
      "\<not> facts_fit (?ff blob)"
    moreover from this(3) have "\<not> facts_fit ((?ff blob)\<lparr>ff_has_error := False\<rparr>)" by (simp add: facts_fit_def)
    note upsert_file_fits(2) [OF this]
    ultimately show "file_txn ds key ids st summary w = (Inl integer_too_large, ticked (with_db d w))"
      by (simp add: eval now_ns_def exec_check_def row_facts_def)
  next
    fix blob
    assume ok: "channel_total summary = fsum_message_count summary" "encode_counts_blob ?counts = Inr blob"
      "facts_fit (?ff blob)"
    from ok(3) have "facts_fit ((?ff blob)\<lparr>ff_has_error := False\<rparr>)" by (simp add: facts_fit_def)
    moreover have "file_fks d ?i ((?ff blob)\<lparr>ff_has_error := False\<rparr>)"
      using set_in by (intro ident_file_fks [OF ident]) (simp add: row_facts_def)
    ultimately obtain d2 where up: "upsert_file ?i ((?ff blob)\<lparr>ff_has_error := False\<rparr>) d = Inr d2"
      using upsert_file_fits(1) by blast
    have "ff_topic_set_id (?ff blob) \<in> snd ` set (topic_sets d)" using set_in by (simp add: row_facts_def)
    note row = store_row [OF grows_wf [OF g wf] ident ds this up]
    have caches: "load_caches d2 = load_caches d" by (rule names_frame [OF upsert_file_names [OF up]])
    let ?n = "file_id_for ?i d"
    let ?d' = "catalog_failures_update (delete_key key)
        (set_has_error ?n (ff_has_error (?ff blob))
          (tags_embedded_update (filter (\<lambda>((n, _), _). n \<noteq> ?n)) d2))"
    have "load_caches ?d' = load_caches d"
      using caches by (simp add: load_caches_def set_has_error_def)
    then have "(ticked (with_db d w))\<lparr>working := ?d'\<rparr> = ticked (with_db ?d' w)" by (simp add: with_db_def)
    moreover have "file_txn ds key ids st summary w = (Inr (), (ticked (with_db d w))\<lparr>working := ?d'\<rparr>)"
      using ok up row(1)
      by (simp add: eval now_ns_def exec_check_def exec_def query_def composite_row_def row_facts_def
          derive_tags_def)
    ultimately have "file_txn ds key ids st summary w = (Inr (), ticked (with_db ?d' w))" by simp
    with row(2) show "\<exists>d'. file_txn ds key ids st summary w = (Inr (), ticked (with_db d' w)) \<and>
        stored ?i (?ff blob) key d d'" by blast
  qed
qed

end
