(* ===== verification/Catalog_Abstract.thy ===== *)
theory Catalog_Abstract
  imports Builder_Transaction
begin

text \<open>
  The catalog as its readers and its owner mean it: maps from a file's six dimensions to its row, its
  channels and its tags, and from an object's key to its failure. Row ids appear only inside a row;
  caches, lookup tables and topic sets not at all. \<open>catalog_of\<close> reads a database as such a catalog, and each
  step of the builder is one of the abstract updates below (proved here for the statements, in the
  theories of the operations for the operations).
\<close>

type_synonym topics = "(string \<times> (string \<times> string) \<times> int) list"

record catalog =
  cat_files :: "dims \<rightharpoonup> file_row"
  cat_topics :: "dims \<rightharpoonup> topics"
  cat_embedded :: "dims \<Rightarrow> string \<rightharpoonup> string"
  cat_override :: "dims \<Rightarrow> string \<rightharpoonup> (string option \<times> int)"
  cat_failures :: "string \<rightharpoonup> (int \<times> string)"
  cat_build :: "build_row option"

definition topics_at :: "db \<Rightarrow> dims \<Rightarrow> topics option" where
  "topics_at d ds = (case file_at d ds of None \<Rightarrow> None | Some f \<Rightarrow> file_topics d f)"

definition tags_at :: "((rowid \<times> string) \<times> 'v) list \<Rightarrow> db \<Rightarrow> dims \<Rightarrow> string \<Rightarrow> 'v option" where
  "tags_at t d ds = (case file_at d ds of None \<Rightarrow> Map.empty | Some f \<Rightarrow> (\<lambda>k. map_of t (f_id f, k)))"

definition catalog_of :: "db \<Rightarrow> catalog" where
  "catalog_of d =
     \<lparr>cat_files = file_at d, cat_topics = topics_at d, cat_embedded = tags_at (tags_embedded d) d,
      cat_override = tags_at (tags_override d) d, cat_failures = map_of (catalog_failures d),
      cat_build = build_metadata d\<rparr>"

section \<open>Abstract updates\<close>

text \<open>A file is catalogued: its row and channels are as given, its embedded tags are rewritten (to none),
  its failure is cleared, and the overrides of every file stay.\<close>

definition put_file :: "dims \<Rightarrow> file_row \<Rightarrow> topics option \<Rightarrow> string \<Rightarrow> catalog \<Rightarrow> catalog" where
  "put_file ds f ts key c =
     c\<lparr>cat_files := (cat_files c)(ds \<mapsto> f), cat_topics := (cat_topics c)(ds := ts),
       cat_embedded := (cat_embedded c)(ds := Map.empty),
       cat_failures := (cat_failures c)(key := None)\<rparr>"

text \<open>Files leave the catalog with all their tags.\<close>

definition drop_files :: "dims set \<Rightarrow> catalog \<Rightarrow> catalog" where
  "drop_files D c =
     c\<lparr>cat_files := (\<lambda>ds. if ds \<in> D then None else cat_files c ds),
       cat_topics := (\<lambda>ds. if ds \<in> D then None else cat_topics c ds),
       cat_embedded := (\<lambda>ds. if ds \<in> D then Map.empty else cat_embedded c ds),
       cat_override := (\<lambda>ds. if ds \<in> D then Map.empty else cat_override c ds)\<rparr>"

definition note_failure :: "string \<Rightarrow> int \<times> string \<Rightarrow> catalog \<Rightarrow> catalog" where
  "note_failure key info c = c\<lparr>cat_failures := (cat_failures c)(key \<mapsto> info)\<rparr>"

definition clear_failure :: "string \<Rightarrow> catalog \<Rightarrow> catalog" where
  "clear_failure key c = c\<lparr>cat_failures := (cat_failures c)(key := None)\<rparr>"

section \<open>What does not show\<close>

lemma name_of_grows:
  assumes "unique_table t" and "unique_table t'" and "prefix t t'" and "i \<in> snd ` set t"
  shows "name_of t' i = name_of t i"
proof -
  obtain k where "(k, i) \<in> set t" using assms(4) by force
  then have "map_of t k = Some i" using unique_table_iff [OF assms(1)] by blast
  then show ?thesis
    using map_of_prefix [OF assms(3)] by (metis assms(1,2) name_of_iff)
qed

lemma members_of_set: "(t, s) \<in> set (members_of d i) \<longleftrightarrow> (i, t, s) \<in> set (topic_set_members d)"
  by (force simp: members_of_def)

lemma file_topics_grows:
  assumes g: "grows d d'" and wf: "lookups_wf d" and f: "ff_topic_set_id (f_facts f) \<in> snd ` set (topic_sets d)"
  shows "file_topics d' f = file_topics d f"
proof -
  have wf': "lookups_wf d'" by (rule grows_lookups_wf [OF g wf])
  have e: "extends d d'" using g by (simp add: grows_def)
  have ms: "members_of d' (ff_topic_set_id (f_facts f)) = members_of d (ff_topic_set_id (f_facts f))"
    by (rule grows_members [OF g wf f])
  have names: "name_of (topic_names d') t = name_of (topic_names d) t \<and> name_of (schemas d') s = name_of (schemas d) s"
    if "(t, s) \<in> set (members_of d i)" for t s i
  proof -
    have "t \<in> snd ` set (topic_names d)" "s \<in> snd ` set (schemas d)"
      using that wf by (auto simp: members_of_set lookups_wf_def members_wf_def list_all_iff)
    then show ?thesis
      using wf wf' e by (auto simp: lookups_wf_def tables_wf_def extends_def intro: name_of_grows)
  qed
  have entries: "map (entry_names d') (zip (members_of d i) cs) = map (entry_names d) (zip (members_of d i) cs)"
    for i and cs :: "int list"
    using names by (intro map_cong refl) (auto simp: entry_names_def dest!: set_zip_leftD)
  show ?thesis by (simp add: file_topics_def ms Let_def entries del: map_eq_conv split: sum.splits)
qed

lemma file_at_topic_set:
  assumes "db_wf d" and "file_at d ds = Some f"
  shows "ff_topic_set_id (f_facts f) \<in> snd ` set (topic_sets d)"
proof -
  have fw: "files_wf d" using assms(1) by (simp add: db_wf_def)
  then have "file_ok d f" using assms(2) by (auto simp: file_at_iff files_wf_def list_all_iff)
  then show ?thesis by (simp add: file_ok_def)
qed

text \<open>Interning names is invisible.\<close>

lemma catalog_of_grows:
  assumes "grows d d'" and "db_wf d"
  shows "catalog_of d' = catalog_of d"
proof -
  have at: "file_at d' = file_at d"
    by (rule ext) (rule grows_file_at [OF assms])
  have "topics_at d' ds = topics_at d ds" for ds
    using file_topics_grows [OF assms(1) db_wf_lookups [OF assms(2)]] file_at_topic_set [OF assms(2)]
    by (simp add: topics_at_def at split: option.splits)
  then show ?thesis
    by (simp add: catalog_of_def at tags_at_def grows_content [OF assms(1)] fun_eq_iff)
qed

section \<open>The statements\<close>

lemma file_topics_names:
  assumes "names d' = names d"
  shows "file_topics d' = file_topics d"
proof -
  have entries: "entry_names d' = entry_names d"
    by (simp add: entry_names_def names_eq [OF assms])
  show ?thesis
    by (rule ext) (simp only: file_topics_def names_frame(7) [OF assms] entries)
qed

lemma file_at_same:
  assumes "names d' = names d" and "files d' = files d"
  shows "file_at d' = file_at d" and "topics_at d' = topics_at d"
proof -
  show at: "file_at d' = file_at d"
    by (rule ext) (simp only: file_at_def select_file_def names_frame(1) [OF assms(1)] assms(2))
  show "topics_at d' = topics_at d"
    by (rule ext) (simp only: topics_at_def at file_topics_names [OF assms(1)])
qed

lemma stored_file_at:
  assumes st: "stored i ff key d d'" and ds: "ident_of d ds = Some i" and wf: "db_wf d"
  shows "file_at d' = (file_at d)(ds \<mapsto> \<lparr>f_id = file_id_for i d, f_ident = i, f_facts = ff\<rparr>)"
proof
  fix ds'
  have names: "names d' = names d" using st by (simp add: stored_def)
  have "ident_of d ds' = Some i \<longleftrightarrow> ds' = ds"
    using ds wf ident_of_inject [of d ds' i ds] by (auto simp: db_wf_def)
  then show "file_at d' ds' = ((file_at d)(ds \<mapsto> \<lparr>f_id = file_id_for i d, f_ident = i, f_facts = ff\<rparr>)) ds'"
    using st ds by (auto simp: file_at_def names_frame(1) [OF names] stored_def split: option.splits)
qed

lemma file_at_distinct_ids:
  assumes wf: "db_wf d" and "file_at d ds = Some f" and "file_at d ds' = Some f'" and "f_id f = f_id f'"
  shows "ds = ds'"
proof -
  have fw: "files_wf d" and tw: "tables_wf d" using wf by (simp_all add: db_wf_def)
  have "f = f'"
    using assms(2-4) fw by (auto simp: file_at_iff files_wf_def distinct_map dest: inj_onD)
  then show ?thesis
    using assms(2,3) fw ident_of_inject [OF tw] by (simp add: file_at_iff)
qed

lemma file_id_for_file_at:
  assumes wf: "db_wf d" and ds: "ident_of d ds = Some i"
  shows "file_at d ds = Some f \<Longrightarrow> file_id_for i d = f_id f"
    and "file_at d ds = None \<Longrightarrow> file_id_for i d \<notin> f_id ` set (files d)"
    and "file_at d ds' = Some f' \<Longrightarrow> ds' \<noteq> ds \<Longrightarrow> f_id f' \<noteq> file_id_for i d"
proof -
  have sel: "file_at d ds = select_file i d" using ds by (simp add: file_at_def)
  show id: "file_id_for i d = f_id f" if "file_at d ds = Some f" for f
    using that by (simp add: file_id_for_def sel)
  show fresh: "file_id_for i d \<notin> f_id ` set (files d)" if "file_at d ds = None"
    using that next_rowid_fresh [of "map f_id (files d)"] by (simp add: file_id_for_def sel)
  have in': "f_id f' \<in> f_id ` set (files d)" if "file_at d ds' = Some f'"
    using that wf by (auto simp: file_at_iff db_wf_def)
  show "f_id f' \<noteq> file_id_for i d" if "file_at d ds' = Some f'" "ds' \<noteq> ds"
    using that id fresh in' file_at_distinct_ids [OF wf that(1)] by (cases "file_at d ds") metis+
qed

lemma tags_at_absent:
  assumes "tags_wf d" and "i \<notin> f_id ` set (files d)"
  shows "map_of (tags_override d) (i, k) = None" and "map_of (tags_embedded d) (i, k) = None"
  using assms by (force simp: tags_wf_def map_of_eq_None_iff image_iff)+

lemma map_of_filter_file:
  "map_of (filter (\<lambda>((n, _), _). n \<noteq> m) t) (i, k) = (if i = m then None else map_of t (i, k))"
  by (induction t) auto

lemma catalog_of_stored:
  assumes st: "stored i ff key d d'" and ds: "ident_of d ds = Some i" and wf: "db_wf d"
  shows "catalog_of d' =
    put_file ds \<lparr>f_id = file_id_for i d, f_ident = i, f_facts = ff\<rparr>
      (file_topics d \<lparr>f_id = file_id_for i d, f_ident = i, f_facts = ff\<rparr>) key (catalog_of d)"
proof -
  let ?f = "\<lparr>f_id = file_id_for i d, f_ident = i, f_facts = ff\<rparr>"
  have names: "names d' = names d" and ov: "tags_override d' = tags_override d"
    and em: "tags_embedded d' = filter (\<lambda>((n, _), _). n \<noteq> file_id_for i d) (tags_embedded d)"
    using st by (simp_all add: stored_def)
  note at = stored_file_at [OF st ds wf] and id = file_id_for_file_at [OF wf ds]
  have tags: "tags_wf d" using wf by (simp add: db_wf_def)
  have "topics_at d' = (topics_at d)(ds := file_topics d ?f)"
    by (rule ext) (simp add: topics_at_def at file_topics_names [OF names] split: option.splits)
  moreover have "tags_at (tags_override d') d' ds' = tags_at (tags_override d) d ds'" for ds'
    using id(1,2) tags_at_absent(1) [OF tags]
    by (cases "file_at d ds") (auto simp: tags_at_def at ov)
  moreover have "tags_at (tags_embedded d') d' ds' = ((tags_at (tags_embedded d) d)(ds := Map.empty)) ds'" for ds'
    using id(3) [of ds']
    by (cases "file_at d ds'") (auto simp: tags_at_def at em map_of_filter_file)
  moreover have "map_of (catalog_failures d') = (map_of (catalog_failures d))(key := None)"
    "build_metadata d' = build_metadata d"
    using st by (simp_all add: stored_def)
  ultimately show ?thesis by (simp add: catalog_of_def put_file_def at fun_eq_iff)
qed

lemma delete_files_file_at:
  assumes "db_wf d"
  shows "file_at (delete_files P d) ds =
    (case file_at d ds of None \<Rightarrow> None | Some f \<Rightarrow> if P f then None else Some f)"
  using assms names_frame(1) [OF delete_files_frame(1) [of P d]]
  by (simp add: file_at_def select_delete_files db_wf_def split: option.splits)

lemma catalog_of_delete_files:
  assumes wf: "db_wf d" and D: "\<And>ds f. file_at d ds = Some f \<Longrightarrow> P f \<longleftrightarrow> ds \<in> D"
  shows "catalog_of (delete_files P d) = drop_files D (catalog_of d)"
proof -
  let ?d = "delete_files P d" and ?gone = "set (map f_id (filter P (files d)))"
  have names: "names ?d = names d" by simp
  have at: "file_at ?d ds = (if ds \<in> D then None else file_at d ds)" for ds
    using D by (auto simp: delete_files_file_at [OF wf] split: option.splits)
  have kept: "f_id f \<notin> ?gone" if f: "file_at d ds = Some f" "ds \<notin> D" for ds f
  proof
    assume "f_id f \<in> ?gone"
    then obtain g where g: "g \<in> set (files d)" "P g" "f_id g = f_id f" by auto
    obtain ds' where ds': "file_at d ds' = Some g" using file_dims [OF wf g(1)] by metis
    then have "ds' = ds" using file_at_distinct_ids [OF wf ds' f(1)] g(3) by simp
    with D [OF ds'] g(2) f(2) show False by simp
  qed
  have filt: "map_of (filter (\<lambda>((j, _), _). j \<notin> ?gone) t) (i, k) = (if i \<in> ?gone then None else map_of t (i, k))"
    for i k and t :: "((rowid \<times> string) \<times> 'v) list"
    by (induction t) auto
  have tags: "tags_at (filter (\<lambda>((j, _), _). j \<notin> ?gone) t) ?d ds = (if ds \<in> D then Map.empty else tags_at t d ds)"
    for ds and t :: "((rowid \<times> string) \<times> 'v) list"
    using kept by (auto simp: tags_at_def at filt simp del: set_map set_filter split: option.splits)
  have rows: "tags_embedded ?d = filter (\<lambda>((j, _), _). j \<notin> ?gone) (tags_embedded d)"
    "tags_override ?d = filter (\<lambda>((j, _), _). j \<notin> ?gone) (tags_override d)"
    by (simp_all add: delete_files_def Let_def)
  show ?thesis
    by (simp add: catalog_of_def drop_files_def topics_at_def at file_topics_names [OF names] rows tags
        fun_eq_iff del: set_map set_filter split: option.splits)
qed

lemma catalog_of_failures:
  "catalog_of (d\<lparr>catalog_failures := upsert key info (catalog_failures d)\<rparr>) = note_failure key info (catalog_of d)"
  "catalog_of (d\<lparr>catalog_failures := delete_key key (catalog_failures d)\<rparr>) = clear_failure key (catalog_of d)"
proof -
  have "names (catalog_failures_update f d) = names d" "files (catalog_failures_update f d) = files d" for f
    by (simp_all add: names_def)
  note frame = file_at_same [OF this]
  show "catalog_of (d\<lparr>catalog_failures := upsert key info (catalog_failures d)\<rparr>) = note_failure key info (catalog_of d)"
    "catalog_of (d\<lparr>catalog_failures := delete_key key (catalog_failures d)\<rparr>) = clear_failure key (catalog_of d)"
    by (simp_all add: catalog_of_def note_failure_def clear_failure_def tags_at_def frame fun_eq_iff)
qed

end
