(* ===== verification/Builder_Correct.thy ===== *)
theory Builder_Correct
  imports Catalog_Abstract
begin

text \<open>
  Correctness of the builder's operations. \<open>in_sync\<close> is what holds between operations: nothing is
  uncommitted, the caches are those of the database, the database is well formed, and so was every
  version of it committed on the way. Every operation keeps it whatever happens, and its effect on the
  catalog is one of the abstract updates.
\<close>

section \<open>Between operations\<close>

definition whole :: "db \<Rightarrow> bool" where
  "whole d \<longleftrightarrow> db_wf d \<and> sets_wf d"

definition in_sync :: "writer \<Rightarrow> bool" where
  "in_sync w \<longleftrightarrow>
     committed w = working w \<and> coherent w \<and> db_wf (working w) \<and> sets_wf (working w) \<and>
     (\<forall>d \<in> set (versions w). whole d)"

lemma in_syncD [dest]:
  "in_sync w \<Longrightarrow> coherent w" "in_sync w \<Longrightarrow> db_wf (working w)" "in_sync w \<Longrightarrow> sets_wf (working w)"
  "in_sync w \<Longrightarrow> committed w = working w" "in_sync w \<Longrightarrow> \<forall>d \<in> set (versions w). whole d"
  by (simp_all add: in_sync_def)

lemma commit_simps [simp]:
  "working (commit w) = working w" "committed (commit w) = working w" "cache (commit w) = cache w"
  "coherent (commit w) = coherent w" "reads (commit w) = reads w" "ticks (commit w) = ticks w"
  "versions (commit w) = versions w @ [working w]"
  by (simp_all add: commit_def coherent_def)

lemma ticked_simps [simp]:
  "coherent (w\<lparr>reads := n\<rparr>) = coherent w" "in_sync (w\<lparr>reads := n\<rparr>) = in_sync w"
  by (simp_all add: coherent_def in_sync_def)

lemma in_sync_commit:
  "coherent w \<Longrightarrow> db_wf (working w) \<Longrightarrow> sets_wf (working w) \<Longrightarrow> \<forall>d \<in> set (versions w). whole d \<Longrightarrow> in_sync (commit w)"
  by (simp add: in_sync_def whole_def)

lemma in_sync_with_db: "in_sync w \<Longrightarrow> with_db (working w) w = w"
  by (rule coherent_with_db) (rule in_syncD)

lemma sets_wf_names: "names d' = names d \<Longrightarrow> sets_wf d' = sets_wf d"
  using names_frame(7) [of d' d] names_eq(7) [of d' d] by (simp add: sets_wf_def)

lemma in_sync_connect: "db_wf d \<Longrightarrow> sets_wf d \<Longrightarrow> in_sync (connect d clock)"
  by (simp add: in_sync_def connect_def coherent_def)

lemma empty_db_wf [simp]: "db_wf empty_db" "sets_wf empty_db"
  by (simp_all add: db_wf_defs empty_db_def unique_table_def sets_wf_def)

section \<open>Resolving a key and its ids\<close>

lemma resolve_key_dims_Some:
  "resolve_key_dims source key = Some (ds, eff) \<longleftrightarrow>
    eff = (case src_intended_key source key of Some k \<Rightarrow> k | None \<Rightarrow> key) \<and> trusted_dims eff = Some ds"
  by (auto simp: resolve_key_dims_def Let_def trusted_dims_def split: option.splits if_splits
      simp del: trusted_dims_Some)

lemma resolve_key_dims_wf: "resolve_key_dims source key = Some (ds, eff) \<Longrightarrow> wf_dims ds"
  by (simp add: resolve_key_dims_Some)

lemma resolve_ids_in_sync:
  assumes "in_sync w"
  obtains ids d where "resolve_ids ds w = (Inr ids, commit (with_db d w))" and "grows (working w) d"
    and "lookup_ids d ds = Some ids" and "in_sync (commit (with_db d w))"
    and "catalog_of d = catalog_of (working w)" and "(ids, d) = intern_dims ds (working w)"
proof -
  let ?d = "snd (intern_dims ds (working w))" and ?ids = "fst (intern_dims ds (working w))"
  have wf: "db_wf (working w)" "sets_wf (working w)" using assms by auto
  have g: "grows (working w) ?d" by (rule grows_intern_dims)
  have "topic_sets ?d = topic_sets (working w)"
    by (simp add: intern_dims_def Let_def)
  then have "sets_wf ?d"
    using grows_sets_wf [OF g db_wf_lookups [OF wf(1)] wf(2)] by simp
  then have "in_sync (commit (with_db ?d w))"
    using grows_wf [OF g wf(1)] in_syncD(5) [OF assms] by (intro in_sync_commit) simp_all
  moreover have "resolve_ids ds w = (Inr ?ids, commit (with_db ?d w))"
    using resolve_ids_reference [of w ds] assms by (auto simp: case_prod_beta)
  ultimately show ?thesis
    using that [of ?ids ?d] g lookup_intern_dims catalog_of_grows [OF g wf(1)] by simp
qed

section \<open>Quarantine\<close>

definition quarantined :: "ident \<Rightarrow> string \<Rightarrow> int \<times> string \<Rightarrow> db \<Rightarrow> db" where
  "quarantined i key info d =
     (let d = delete_files (\<lambda>r. f_ident r = i) d in
      d\<lparr>catalog_failures := upsert key info (catalog_failures d)\<rparr>)"

lemma names_failures: "names (d\<lparr>catalog_failures := t\<rparr>) = names d"
  by (simp add: names_def)

lemma failures_wf:
  assumes "db_wf d" and "distinct (map fst t)"
  shows "db_wf (d\<lparr>catalog_failures := t\<rparr>)"
  using assms names_frame [OF names_failures [where d = d and t = t]]
  by (simp add: db_wf_def files_wf_def tags_wf_def)

lemma quarantined_wf:
  assumes "db_wf d"
  shows "db_wf (quarantined i key info d)" and "names (quarantined i key info d) = names d"
proof -
  have "db_wf (delete_files (\<lambda>r. f_ident r = i) d)" by (rule delete_files_db_wf [OF assms])
  then show "db_wf (quarantined i key info d)"
    using assms by (simp add: quarantined_def Let_def failures_wf db_wf_def [of d])
  show "names (quarantined i key info d) = names d"
    by (simp add: quarantined_def Let_def names_failures)
qed

lemma catalog_of_delete_ident:
  assumes wf: "db_wf d" and ds: "ident_of d ds = Some i"
  shows "catalog_of (delete_files (\<lambda>r. f_ident r = i) d) = drop_files {ds} (catalog_of d)"
proof (rule catalog_of_delete_files [OF wf])
  have fw: "files_wf d" "tables_wf d" using wf by (simp_all add: db_wf_def)
  fix ds' f
  assume "file_at d ds' = Some f"
  then have "ident_of d ds' = Some (f_ident f)" using fw(1) by (simp add: file_at_iff)
  then show "f_ident f = i \<longleftrightarrow> ds' \<in> {ds}"
    by (metis ident_of_inject [OF fw(2)] ds option.inject singleton_iff)
qed

lemma catalog_of_quarantined:
  assumes "db_wf d" and "ident_of d ds = Some i"
  shows "catalog_of (quarantined i key info d) = note_failure key info (drop_files {ds} (catalog_of d))"
  using catalog_of_failures(1) [where d = "delete_files (\<lambda>r. f_ident r = i) d" and key = key and info = info]
    catalog_of_delete_ident [OF assms]
  by (simp add: quarantined_def Let_def)

lemma quarantine_existing_in_sync:
  assumes s: "in_sync w" and ids: "lookup_ids (working w) ds = Some ids"
  obtains d where "quarantine_existing ids ds key text w = (Inr (), commit (ticked (with_db d w)))"
    and "in_sync (commit (ticked (with_db d w)))" and "names d = names (working w)"
    and "catalog_of d =
      note_failure key (ticks w (reads w), text) (drop_files {ds} (catalog_of (working w)))"
proof -
  let ?i = "ident_for ids ds" and ?d = "quarantined (ident_for ids ds) key (ticks w (reads w), text) (working w)"
  have wf: "db_wf (working w)" "sets_wf (working w)" and coh: "coherent w" using s by auto
  note q = quarantined_wf [OF wf(1), of ?i key "(ticks w (reads w), text)"]
  have "load_caches ?d = load_caches (working w)" by (rule names_frame [OF q(2)])
  then have w: "(ticked w)\<lparr>working := ?d\<rparr> = ticked (with_db ?d w)"
    using coh by (simp add: with_db_def coherent_def)
  have "quarantine_existing ids ds key text w = (Inr (), commit ((ticked w)\<lparr>working := ?d\<rparr>))"
    by (simp add: quarantine_existing_def exec_def record_failure_def now_ns_def commit_op_def
        quarantined_def Let_def commit_def)
  moreover have "in_sync (commit (ticked (with_db ?d w)))"
    using q sets_wf_names [OF q(2)] wf in_syncD(5) [OF s] by (intro in_sync_commit) simp_all
  ultimately show ?thesis
    using that q(2) catalog_of_quarantined [OF wf(1) ident_of_for [OF ids]] w by simp
qed

section \<open>The per-file transaction\<close>

text \<open>What makes a file acceptable: its counts add up and are not negative, and its numbers fit.\<close>

definition acceptable :: "stat \<Rightarrow> file_summary \<Rightarrow> int \<Rightarrow> bool" where
  "acceptable st summary now \<longleftrightarrow>
     channel_total summary = fsum_message_count summary \<and>
     list_all (\<lambda>c. 0 \<le> topic_count (fsum_channels summary) (ci_topic c)) (fsum_channels summary) \<and>
     list_all fits_sqlite
       [st_size st, st_mtime_ns st, now, fsum_start_time_ns summary, fsum_end_time_ns summary,
        fsum_chunk_count summary]"

lemma counts_nonneg:
  assumes ct: "channel_table d chs bt" and wf: "lookups_wf d"
  shows "(\<forall>n \<in> set (counts_from bt (members_from bt)). 0 \<le> n) \<longleftrightarrow>
    list_all (\<lambda>c. 0 \<le> topic_count chs (ci_topic c)) chs"
proof -
  let ?z = "zip (members_from bt) (counts_from bt (members_from bt))"
  have "set (counts_from bt (members_from bt)) = snd ` set ?z"
    by (simp flip: set_map)
  also have "\<dots> = {n. \<exists>t s. (t, s, n) \<in> set bt}"
    using members_counts_set [OF channel_tableD(1) [OF ct]] by force
  also have "\<dots> = topic_count chs ` ci_topic ` set chs"
  proof (intro set_eqI iffI)
    fix n
    assume "n \<in> {n. \<exists>t s. (t, s, n) \<in> set bt}"
    then obtain t s where "(t, s, n) \<in> set bt" by blast
    then obtain tn sch where "topic_schema chs tn = Some sch" "n = topic_count chs tn"
      using channel_table_names [OF ct wf] by metis
    then show "n \<in> topic_count chs ` ci_topic ` set chs"
      by (metis image_eqI option.distinct(1) topic_schema_None)
  next
    fix n
    assume "n \<in> topic_count chs ` ci_topic ` set chs"
    then obtain tn where tn: "n = topic_count chs tn" "tn \<in> ci_topic ` set chs" by auto
    then obtain sch where "topic_schema chs tn = Some sch"
      using topic_schema_None [of chs tn] by auto
    with tn(1) show "n \<in> {n. \<exists>t s. (t, s, n) \<in> set bt}"
      using channel_table_topic [OF ct wf] by blast
  qed
  finally show ?thesis by (simp add: list_all_iff)
qed

lemma write_rolled_back:
  assumes s: "in_sync w" and ids: "lookup_ids (working w) ds = Some ids"
    and txn: "file_txn ds key ids st summary w = (Inl e, w1)"
    and w1: "w1 = with_db d w \<or> w1 = ticked (with_db d w)"
  obtains w' now where "write_file_row ds key ids st summary w = (Inr (failed (exn_msg e)), w')"
    and "in_sync w'" and "names (working w') = names (working w)"
    and "catalog_of (working w') =
      note_failure key (now, exn_text e) (drop_files {ds} (catalog_of (working w)))"
proof -
  let ?w2 = "(rollback w1)\<lparr>cache := load_caches (working (rollback w1))\<rparr>"
  have "committed w1 = committed w" using w1 by auto
  then have work: "working ?w2 = working w" using s by (simp add: rollback_def in_sync_def)
  have "in_sync ?w2"
    using s work w1 by (auto simp: in_sync_def coherent_def rollback_def)
  moreover have "lookup_ids (working ?w2) ds = Some ids" using ids work by simp
  ultimately obtain d' where q: "quarantine_existing ids ds key (exn_text e) ?w2 = (Inr (), commit (ticked (with_db d' ?w2)))"
    "in_sync (commit (ticked (with_db d' ?w2)))" "names d' = names (working ?w2)"
    "catalog_of d' = note_failure key (ticks ?w2 (reads ?w2), exn_text e) (drop_files {ds} (catalog_of (working ?w2)))"
    by (rule quarantine_existing_in_sync)
  have "write_file_row ds key ids st summary w = (Inr (failed (exn_msg e)), commit (ticked (with_db d' ?w2)))"
    using q(1) by (simp add: write_file_row_def with_conn_def txn reload_caches_def)
  then show ?thesis using that q(2-4) work by simp
qed

text \<open>The row a success stores: the facts given, an old row's id, and a counts blob to be read back.\<close>

definition row_written :: "stat \<Rightarrow> file_summary \<Rightarrow> int \<Rightarrow> file_row option \<Rightarrow> file_row \<Rightarrow> bool" where
  "row_written st summary now old f \<longleftrightarrow>
     f_facts f = row_facts st summary now (ff_topic_set_id (f_facts f)) (ff_topic_counts (f_facts f)) \<and>
     (case old of None \<Rightarrow> True | Some r \<Rightarrow> f_id f = f_id r)"

definition topics_written :: "file_summary \<Rightarrow> topics \<Rightarrow> bool" where
  "topics_written summary ts \<longleftrightarrow>
     distinct (map fst ts) \<and>
     (\<forall>t sch n. (t, sch, n) \<in> set ts \<longleftrightarrow>
       topic_schema (fsum_channels summary) t = Some sch \<and> n = topic_count (fsum_channels summary) t)"

lemma write_committed:
  assumes s: "in_sync w" and ids: "lookup_ids (working w) ds = Some ids"
    and g: "grows (working w) d" and sets: "sets_wf d"
    and ct: "channel_table d (fsum_channels summary) bt"
    and free: "collision_free (fsum_channels summary) w \<longrightarrow> members_of d set_id = members_from bt"
    and blob: "encode_counts_blob (counts_from bt (members_from bt)) = Inr blob"
    and st: "stored (ident_for ids ds) (row_facts st summary (ticks w (reads w)) set_id blob) key d d'"
  shows "in_sync (commit (ticked (with_db d' w)))" and "extends (working w) d'"
    and "\<exists>f. catalog_of d' = put_file ds f (file_topics d' f) key (catalog_of (working w)) \<and>
      row_written st summary (ticks w (reads w)) (file_at (working w) ds) f \<and>
      (collision_free (fsum_channels summary) w \<longrightarrow>
        (\<exists>ts. file_topics d' f = Some ts \<and> topics_written summary ts))"
proof -
  have wf: "db_wf (working w)" "sets_wf (working w)" using s by auto
  have wf': "lookups_wf d" by (rule grows_lookups_wf [OF g db_wf_lookups [OF wf(1)]])
  let ?i = "ident_for ids ds" and ?ff = "row_facts st summary (ticks w (reads w)) set_id blob"
  let ?f = "\<lparr>f_id = file_id_for ?i d, f_ident = ?i, f_facts = ?ff\<rparr>"
  have names: "names d' = names d" and wfd': "db_wf d'" using st by (simp_all add: stored_def)
  have wfd: "db_wf d" by (rule grows_wf [OF g wf(1)])
  have ident: "ident_of d ds = Some ?i" by (rule grows_lookup(1) [OF g ident_of_for [OF ids]])
  show "in_sync (commit (ticked (with_db d' w)))"
    using wfd' sets sets_wf_names [OF names] in_syncD(5) [OF s] by (intro in_sync_commit) simp_all
  show "extends (working w) d'"
    using g extends_names [OF names] extends_trans by (auto simp: grows_def)
  have "catalog_of d' = put_file ds ?f (file_topics d' ?f) key (catalog_of (working w))"
    using catalog_of_stored [OF st ident wfd] file_topics_names [OF names] catalog_of_grows [OF g wf(1)]
    by simp
  moreover have "row_written st summary (ticks w (reads w)) (file_at (working w) ds) ?f"
    using file_id_for_file_at(1) [OF wfd ident] grows_file_at [OF g wf(1)]
    by (auto simp: row_written_def row_facts_def split: option.splits)
  moreover have "\<exists>ts. file_topics d' ?f = Some ts \<and> topics_written summary ts"
    if free': "collision_free (fsum_channels summary) w"
  proof -
    have "decode_counts_blob (ff_topic_counts (f_facts ?f)) = Inr (counts_from bt (members_from bt))"
      using decode_encoded_counts [OF blob] by (simp add: row_facts_def)
    moreover have "members_of d (ff_topic_set_id (f_facts ?f)) = members_from bt"
      using free free' by (simp add: row_facts_def)
    ultimately obtain ts where "file_topics d ?f = Some ts" "distinct (map fst ts)"
      "\<And>t sch n. (t, sch, n) \<in> set ts \<longleftrightarrow> topic_schema (fsum_channels summary) t = Some sch \<and>
        n = topic_count (fsum_channels summary) t"
      by (rule file_topics_table [OF ct wf']) blast
    then show ?thesis by (simp add: topics_written_def file_topics_names [OF names])
  qed
  ultimately show "\<exists>f. catalog_of d' = put_file ds f (file_topics d' f) key (catalog_of (working w)) \<and>
      row_written st summary (ticks w (reads w)) (file_at (working w) ds) f \<and>
      (collision_free (fsum_channels summary) w \<longrightarrow>
        (\<exists>ts. file_topics d' f = Some ts \<and> topics_written summary ts))"
    by blast
qed

lemma write_file_row_outcome:
  assumes s: "in_sync w" and ids: "lookup_ids (working w) ds = Some ids" and ds: "wf_dims ds"
  obtains
    (stored) f d where "acceptable st summary (ticks w (reads w))"
      and "write_file_row ds key ids st summary w = (Inr cataloged, commit (ticked (with_db d w)))"
      and "in_sync (commit (ticked (with_db d w)))" and "extends (working w) d"
      and "catalog_of d = put_file ds f (file_topics d f) key (catalog_of (working w))"
      and "row_written st summary (ticks w (reads w)) (file_at (working w) ds) f"
      and "collision_free (fsum_channels summary) w \<longrightarrow>
        (\<exists>ts. file_topics d f = Some ts \<and> topics_written summary ts)"
  | (rejected) e w' now where "\<not> acceptable st summary (ticks w (reads w))"
      and "write_file_row ds key ids st summary w = (Inr (failed (exn_msg e)), w')"
      and "in_sync w'" and "names (working w') = names (working w)"
      and "catalog_of (working w') =
        note_failure key (now, exn_text e) (drop_files {ds} (catalog_of (working w)))"
proof -
  have wf: "db_wf (working w)" "sets_wf (working w)" and coh: "coherent w" using s by auto
  let ?now = "ticks w (reads w)"
  obtain d bt set_id where g: "grows (working w) d" and sets: "sets_wf d"
    and ct: "channel_table d (fsum_channels summary) bt"
    and free: "collision_free (fsum_channels summary) w \<longrightarrow> members_of d set_id = members_from bt"
    and mismatch: "channel_total summary \<noteq> fsum_message_count summary \<Longrightarrow>
      file_txn ds key ids st summary w =
        (Inl (count_mismatch (channel_total summary) (fsum_message_count summary)), with_db d w)"
    and negative: "\<And>e. channel_total summary = fsum_message_count summary \<Longrightarrow>
      encode_counts_blob (counts_from bt (members_from bt)) = Inl e \<Longrightarrow>
      file_txn ds key ids st summary w = (Inl e, with_db d w)"
    and large: "\<And>blob. channel_total summary = fsum_message_count summary \<Longrightarrow>
      encode_counts_blob (counts_from bt (members_from bt)) = Inr blob \<Longrightarrow>
      \<not> facts_fit (row_facts st summary ?now set_id blob) \<Longrightarrow>
      file_txn ds key ids st summary w = (Inl integer_too_large, ticked (with_db d w))"
    and ok: "\<And>blob. channel_total summary = fsum_message_count summary \<Longrightarrow>
      encode_counts_blob (counts_from bt (members_from bt)) = Inr blob \<Longrightarrow>
      facts_fit (row_facts st summary ?now set_id blob) \<Longrightarrow>
      \<exists>d'. file_txn ds key ids st summary w = (Inr (), ticked (with_db d' w)) \<and>
        stored (ident_for ids ds) (row_facts st summary ?now set_id blob) key d d'"
    by (rule file_txn_reference [OF coh wf ids ds, where st = st and summary = summary and key = key]) blast
  have wf': "lookups_wf d" by (rule grows_lookups_wf [OF g db_wf_lookups [OF wf(1)]])
  note nonneg = counts_nonneg [OF ct wf']
  have fit: "facts_fit (row_facts st summary ?now set_id blob) \<longleftrightarrow>
      list_all fits_sqlite [st_size st, st_mtime_ns st, ?now, fsum_start_time_ns summary,
        fsum_end_time_ns summary, fsum_chunk_count summary]" for blob
    by (simp add: facts_fit_def row_facts_def)
  have rejects: thesis if "\<not> acceptable st summary ?now"
    and "file_txn ds key ids st summary w = (Inl e, w1)"
    and "w1 = with_db d w \<or> w1 = ticked (with_db d w)" for e w1
    using rejected [OF that(1)] by (rule write_rolled_back [OF s ids that(2,3)])
  show thesis
  proof (cases "channel_total summary = fsum_message_count summary")
    case False
    then show ?thesis using rejects mismatch by (simp add: acceptable_def)
  next
    case total: True
    show ?thesis
    proof (cases "encode_counts_blob (counts_from bt (members_from bt))")
      case (Inl e)
      then have "\<not> (\<forall>n \<in> set (counts_from bt (members_from bt)). 0 \<le> n)"
        using encode_counts_blob_nonneg by force
      then have "\<not> acceptable st summary ?now" by (simp add: acceptable_def nonneg)
      then show ?thesis using rejects negative [OF total Inl] by simp
    next
      case (Inr blob)
      show ?thesis
      proof (cases "facts_fit (row_facts st summary ?now set_id blob)")
        case False
        then have "\<not> acceptable st summary ?now" by (simp add: acceptable_def fit)
        then show ?thesis using rejects large [OF total Inr False] by simp
      next
        case True
        obtain d' where txn: "file_txn ds key ids st summary w = (Inr (), ticked (with_db d' w))"
          and st: "stored (ident_for ids ds) (row_facts st summary ?now set_id blob) key d d'"
          using ok [OF total Inr True] by blast
        have "acceptable st summary ?now"
          using total True encode_counts_blob_InrD [OF Inr] by (simp add: acceptable_def fit nonneg)
        moreover have "write_file_row ds key ids st summary w = (Inr cataloged, commit (ticked (with_db d' w)))"
          by (simp add: write_file_row_def with_conn_def txn)
        ultimately show ?thesis
          using write_committed [OF s ids g sets ct free Inr st] stored by blast
      qed
    qed
  qed
qed

section \<open>A catalog with one file\<close>

text \<open>Used to instantiate the theorems.\<close>

definition sample_stat :: stat where
  "sample_stat = \<lparr>st_size = 4096, st_etag = ''etag-1'', st_mtime_ns = 1000\<rparr>"

definition sample_row :: file_row where
  "sample_row =
     \<lparr>f_id = 1, f_ident = ((1, 1, 1, 1), dim_date sample_dims, dim_filename sample_dims),
      f_facts = row_facts sample_stat sample_summary 5 1 [7, 0]\<rparr>"

definition sample_db :: db where
  "sample_db =
     \<lparr>customers = [(dim_customer sample_dims, 1)], sites = [((1, dim_site sample_dims), 1)],
      robots = [((1, dim_robot sample_dims), 1)], sources = [(dim_source sample_dims, 1)],
      topic_names = [(''/odom'', 1), (''/tf'', 2)],
      schemas = [((''Odometry'', ''ros2msg''), 1), (([], []), 2)],
      topic_sets = [(compute_set_fingerprint [(1, 1), (2, 2)], 1)],
      topic_set_members = [(1, 1, 1), (1, 2, 2)], files = [sample_row],
      tags_embedded = [((1, ''robot_mode''), ''auto'')], tags_override = [((1, ''note''), (Some ''keep'', 3))],
      catalog_failures = [(''bad.mcap'', (2, ''unparseable key''))], build_metadata = None,
      db_tables = schema_tables, schema_version = Some 3\<rparr>"

definition sample_writer :: writer where
  "sample_writer = connect sample_db (\<lambda>n. 100 + int n)"

lemma sample_lookup: "lookup_ids sample_db sample_dims = Some (1, 1, 1, 1)"
  by (simp add: lookup_ids_def sample_db_def)

lemma sample_file_at: "file_at sample_db sample_dims = Some sample_row"
  by (simp add: file_at_def ident_of_def sample_lookup select_file_def) (simp add: sample_db_def sample_row_def)

lemma sample_tables_wf: "tables_wf sample_db"
  by (simp add: tables_wf_def unique_table_def site_fk_def robot_fk_def sample_db_def)

lemma sample_db_wf: "db_wf sample_db"
proof -
  have "ident_of sample_db sample_dims = Some (f_ident sample_row)"
    by (simp add: ident_of_def sample_lookup sample_row_def)
  then have "dims_of sample_db (f_ident sample_row) = Some sample_dims"
    by (simp add: dims_of_iff [OF sample_tables_wf])
  then have "file_ok sample_db sample_row"
    by (simp add: file_ok_def) (simp add: sample_row_def row_facts_def sample_db_def)
  moreover have "members_wf sample_db" by (simp add: members_wf_def sample_db_def)
  moreover have "tags_wf sample_db" by (simp add: tags_wf_def sample_db_def sample_row_def)
  moreover have "files sample_db = [sample_row]" "catalog_failures sample_db = [(''bad.mcap'', (2, ''unparseable key''))]"
    by (simp_all add: sample_db_def)
  ultimately show ?thesis by (simp add: db_wf_def files_wf_def sample_tables_wf)
qed

lemma sample_members: "members_of sample_db 1 = [(1, 1), (2, 2)]"
  by (simp add: members_of_def sample_db_def sort_key_def)

lemma sample_writer_in_sync: "in_sync sample_writer"
proof -
  have "sets_wf sample_db"
    using sample_members by (simp add: sets_wf_def) (simp add: sample_db_def)
  then show ?thesis by (simp add: sample_writer_def in_sync_connect sample_db_wf)
qed

lemma sample_writer_working [simp]: "working sample_writer = sample_db"
  by (simp add: sample_writer_def connect_def)

definition sample_source :: "unit source" where
  "sample_source =
     \<lparr>src_stat = (\<lambda>key. Inr (if key = rebuild_hive_key sample_dims then Some sample_stat else None)),
      src_open = (\<lambda>key sz. Inr ()),
      src_list = Inr [\<lparr>lst_key = rebuild_hive_key sample_dims, lst_stat = sample_stat\<rparr>],
      src_event_key = Inr, src_intended_key = (\<lambda>key. None), src_wait_for_stable = (\<lambda>key. True)\<rparr>"

definition sample_reader :: "unit \<Rightarrow> exn + mcap_summary option" where
  "sample_reader = (\<lambda>_. Inr (Some sample_mcap))"

end
