(* ===== verification/Builder_Refinement.thy ===== *)
theory Builder_Refinement
  imports Builder_Correct
begin

text \<open>
  The builder against the catalog it maintains. A \<open>verdict\<close> says what is the case with an object, read
  off the source and the abstract catalog alone; \<open>catalog_step\<close> says what a verdict does to the
  catalog. The theorems say that \<open>catalog_object\<close>, \<open>apply_extract\<close> and \<open>delete_by_key\<close> take exactly
  these steps and keep the writer in sync; invariants of the catalog then follow by induction on steps.
\<close>

section \<open>Verdicts and steps\<close>

datatype verdict =
    Gone
  | Bad_key string string
  | Unchanged dims
  | Unreadable dims string string
  | Rejected dims string
  | Accepted dims string stat file_summary

fun verdict_status :: "verdict \<Rightarrow> status" where
  "verdict_status Gone = Failed"
| "verdict_status (Bad_key _ _) = Failed"
| "verdict_status (Unchanged _) = Skipped"
| "verdict_status (Unreadable _ _ _) = Failed"
| "verdict_status (Rejected _ _) = Failed"
| "verdict_status (Accepted _ _ _ _) = Cataloged"

inductive catalog_step :: "catalog \<Rightarrow> verdict \<Rightarrow> catalog \<Rightarrow> bool" where
  step_gone: "catalog_step c Gone c"
| step_bad_key: "catalog_step c (Bad_key key text) (note_failure key (now, text) c)"
| step_unchanged: "catalog_step c (Unchanged ds) c"
| step_unreadable:
    "catalog_step c (Unreadable ds key text) (note_failure key (now, text) (drop_files {ds} c))"
| step_rejected: "catalog_step c (Rejected ds key) (note_failure key info (drop_files {ds} c))"
| step_accepted:
    "row_written st summary now (cat_files c ds) f \<Longrightarrow>
     catalog_step c (Accepted ds key st summary) (put_file ds f ts key c)"

inductive_cases catalog_stepE: "catalog_step c v c'"

inductive_simps catalog_step_simps:
  "catalog_step c Gone c'" "catalog_step c (Bad_key key text) c'" "catalog_step c (Unchanged ds) c'"
  "catalog_step c (Unreadable ds key text) c'" "catalog_step c (Rejected ds key) c'"
  "catalog_step c (Accepted ds key st summary) c'"

text \<open>The verdict on an object that has been read, on one whose fingerprint is known, and on a key.\<close>

definition judge_summary :: "int \<Rightarrow> dims \<Rightarrow> string \<Rightarrow> stat \<Rightarrow> file_summary \<Rightarrow> verdict" where
  "judge_summary now ds key st summary =
     (if acceptable st summary now then Accepted ds key st summary else Rejected ds key)"

definition unchanged_in :: "catalog \<Rightarrow> dims \<Rightarrow> stat \<Rightarrow> bool" where
  "unchanged_in c ds st \<longleftrightarrow>
     (case cat_files c ds of Some f \<Rightarrow> ff_etag (f_facts f) = st_etag st | None \<Rightarrow> False)"

definition judge_known ::
  "('s \<Rightarrow> exn + mcap_summary option) \<Rightarrow> 's source \<Rightarrow> string \<Rightarrow> dims \<Rightarrow> string \<Rightarrow> stat \<Rightarrow> int \<Rightarrow> catalog \<Rightarrow> verdict"
where
  "judge_known get_summary source key ds eff st now c =
     (if unchanged_in c ds st then Unchanged ds
      else
        (case read_summary get_summary source key st of
           Inl e \<Rightarrow> Unreadable ds eff (exn_text e)
         | Inr summary \<Rightarrow> judge_summary now ds eff st summary))"

definition judge ::
  "('s \<Rightarrow> exn + mcap_summary option) \<Rightarrow> 's source \<Rightarrow> string \<Rightarrow> stat option \<Rightarrow> int \<Rightarrow> catalog \<Rightarrow> exn + verdict"
where
  "judge get_summary source key st0 now c =
     (case (case st0 of Some st \<Rightarrow> Inr (Some st) | None \<Rightarrow> src_stat source key) of
        Inl e \<Rightarrow> Inl e
      | Inr None \<Rightarrow> Inr Gone
      | Inr (Some st) \<Rightarrow>
          Inr (case resolve_key_dims source key of
             None \<Rightarrow> Bad_key key ''unparseable key''
           | Some (ds, eff) \<Rightarrow> judge_known get_summary source key ds eff st now c))"

section \<open>Lemmas for the steps\<close>

lemma catalog_of_simps [simp]:
  "cat_files (catalog_of d) = file_at d" "cat_failures (catalog_of d) = map_of (catalog_failures d)"
  "cat_topics (catalog_of d) = topics_at d" "cat_build (catalog_of d) = build_metadata d"
  "cat_override (catalog_of d) = tags_at (tags_override d) d"
  "cat_embedded (catalog_of d) = tags_at (tags_embedded d) d"
  by (simp_all add: catalog_of_def)

text \<open>Noting a failure alone, as both entry points do for a key without dimensions.\<close>

lemma note_failure_in_sync:
  assumes "in_sync w"
  obtains w' where
    "bind_op (record_failure key err) (\<lambda>_. bind_op commit_op (\<lambda>_. return_op r)) w = (Inr r, w')"
    and "in_sync w'" and "names (working w') = names (working w)"
    and "catalog_of (working w') = note_failure key (ticks w (reads w), err) (catalog_of (working w))"
proof -
  let ?d = "(working w)\<lparr>catalog_failures := upsert key (ticks w (reads w), err) (catalog_failures (working w))\<rparr>"
  let ?w = "commit ((ticked w)\<lparr>working := ?d\<rparr>)"
  have wf: "db_wf (working w)" "sets_wf (working w)" using assms by auto
  have "db_wf ?d" using wf(1) by (intro failures_wf) (simp_all add: db_wf_def)
  moreover have "sets_wf ?d" using wf(2) sets_wf_names [OF names_failures] by blast
  moreover have "coherent ((ticked w)\<lparr>working := ?d\<rparr>)"
    using assms by (simp add: in_sync_def coherent_def load_caches_def)
  ultimately have "in_sync ?w" using in_syncD(5) [OF assms] by (intro in_sync_commit) simp_all
  moreover have "bind_op (record_failure key err) (\<lambda>_. bind_op commit_op (\<lambda>_. return_op r)) w = (Inr r, ?w)"
    by (simp add: record_failure_def now_ns_def exec_def commit_op_def)
  ultimately show ?thesis
    using that by (simp add: names_failures catalog_of_failures)
qed

text \<open>The half both entry points share: from the ids on, reading apart.\<close>

lemma write_file_row_step:
  assumes "in_sync w" and "lookup_ids (working w) ds = Some ids" and "wf_dims ds"
  obtains r w' where "write_file_row ds key ids st summary w = (Inr r, w')" and "in_sync w'"
    and "extends (working w) (working w')"
    and "res_status r = verdict_status (judge_summary (ticks w (reads w)) ds key st summary)"
    and "catalog_step (catalog_of (working w)) (judge_summary (ticks w (reads w)) ds key st summary)
      (catalog_of (working w'))"
  using assms
proof (cases rule: write_file_row_outcome [where st = st and summary = summary and key = key])
  case (stored f d)
  show ?thesis
  proof (rule that [OF stored(2,3)])
    show "catalog_step (catalog_of (working w)) (judge_summary (ticks w (reads w)) ds key st summary)
      (catalog_of (working (commit (ticked (with_db d w)))))"
      using stored(1,5,6) by (auto simp: judge_summary_def intro: catalog_step.intros)
  qed (use stored in \<open>simp_all add: judge_summary_def\<close>)
next
  case (rejected e w' now)
  show ?thesis
  proof (rule that [OF rejected(2,3)])
    show "catalog_step (catalog_of (working w)) (judge_summary (ticks w (reads w)) ds key st summary)
      (catalog_of (working w'))"
      using rejected(1,5) by (auto simp: judge_summary_def intro: catalog_step.intros)
  qed (use rejected extends_names in \<open>simp_all add: judge_summary_def\<close>)
qed

lemma quarantine_step:
  assumes "in_sync w" and "lookup_ids (working w) ds = Some ids"
  obtains w' where "quarantine_existing ids ds key err w = (Inr (), w')" and "in_sync w'"
    and "extends (working w) (working w')"
    and "catalog_step (catalog_of (working w)) (Unreadable ds key err) (catalog_of (working w'))"
proof (rule quarantine_existing_in_sync [OF assms])
  fix d
  assume "quarantine_existing ids ds key err w = (Inr (), commit (ticked (with_db d w)))"
    "in_sync (commit (ticked (with_db d w)))" "names d = names (working w)"
    "catalog_of d = note_failure key (ticks w (reads w), err) (drop_files {ds} (catalog_of (working w)))"
  then show thesis
    by (intro that [of "commit (ticked (with_db d w))"])
      (auto intro: extends_names catalog_step.intros)
qed

lemma resolve_ids_step:
  assumes "in_sync w"
  obtains ids w1 where "resolve_ids ds w = (Inr ids, w1)" and "in_sync w1"
    and "extends (working w) (working w1)" and "lookup_ids (working w1) ds = Some ids"
    and "catalog_of (working w1) = catalog_of (working w)"
    and "reads w1 = reads w" and "ticks w1 = ticks w"
proof (rule resolve_ids_in_sync [OF assms, of ds])
  fix ids d
  assume "resolve_ids ds w = (Inr ids, commit (with_db d w))" "grows (working w) d"
    "lookup_ids d ds = Some ids" "in_sync (commit (with_db d w))"
    "catalog_of d = catalog_of (working w)" "(ids, d) = intern_dims ds (working w)"
  then show thesis
    by (intro that [of ids "commit (with_db d w)"]) (simp_all add: grows_def)
qed

lemma composite_row_at:
  "lookup_ids (working w) ds = Some ids \<Longrightarrow> composite_row ids ds w = (Inr (file_at (working w) ds), w)"
  by (simp add: composite_row_def query_def file_at_def ident_of_for)

section \<open>Cataloguing one object\<close>

text \<open>What one call promises: a result with the verdict's status, and the verdict's step.\<close>

definition takes_step :: "(writer, catalog_result) op \<Rightarrow> writer \<Rightarrow> verdict \<Rightarrow> bool" where
  "takes_step m w v \<longleftrightarrow>
     (\<exists>r w'. m w = (Inr r, w') \<and> in_sync w' \<and> extends (working w) (working w') \<and>
       res_status r = verdict_status v \<and> catalog_step (catalog_of (working w)) v (catalog_of (working w')))"

lemma takes_stepI:
  assumes "m w = (Inr r, w')" and "in_sync w'" and "extends (working w) (working w')"
    and "res_status r = verdict_status v" and "catalog_step (catalog_of (working w)) v (catalog_of (working w'))"
  shows "takes_step m w v"
  using assms unfolding takes_step_def by blast

lemma takes_stepE:
  assumes "takes_step m w v"
  obtains r w' where "m w = (Inr r, w')" and "in_sync w'" and "extends (working w) (working w')"
    and "res_status r = verdict_status v" and "catalog_step (catalog_of (working w)) v (catalog_of (working w'))"
  using assms unfolding takes_step_def by blast

lemma write_file_row_takes_step:
  assumes "in_sync w" and "lookup_ids (working w) ds = Some ids" and "wf_dims ds"
  shows "takes_step (write_file_row ds key ids st summary) w (judge_summary (ticks w (reads w)) ds key st summary)"
  using write_file_row_step [OF assms] takes_stepI by metis

lemma quarantine_takes_step:
  assumes "in_sync w" and "lookup_ids (working w) ds = Some ids" and "res_status r = Failed"
  shows "takes_step (bind_op (quarantine_existing ids ds key err) (\<lambda>_. return_op r)) w (Unreadable ds key err)"
proof (rule quarantine_step [OF assms(1,2), of key err])
  fix w'
  assume "quarantine_existing ids ds key err w = (Inr (), w')" "in_sync w'"
    "extends (working w) (working w')"
    "catalog_step (catalog_of (working w)) (Unreadable ds key err) (catalog_of (working w'))"
  then show ?thesis using assms(3) by (intro takes_stepI [where w' = w']) simp_all
qed

lemma note_failure_takes_step:
  assumes "in_sync w" and "res_status r = Failed"
  shows "takes_step (bind_op (record_failure key err) (\<lambda>_. bind_op commit_op (\<lambda>_. return_op r))) w (Bad_key key err)"
proof (rule note_failure_in_sync [OF assms(1), of key err r])
  fix w'
  assume "bind_op (record_failure key err) (\<lambda>_. bind_op commit_op (\<lambda>_. return_op r)) w = (Inr r, w')"
    "in_sync w'" "names (working w') = names (working w)"
    "catalog_of (working w') = note_failure key (ticks w (reads w), err) (catalog_of (working w))"
  then show ?thesis
    using assms(2) by (intro takes_stepI [where w' = w']) (auto intro: extends_names catalog_step.intros)
qed

lemma return_takes_step:
  "in_sync w \<Longrightarrow> res_status r = verdict_status v \<Longrightarrow> catalog_step (catalog_of (working w)) v (catalog_of (working w)) \<Longrightarrow>
    takes_step (return_op r) w v"
  by (rule takes_stepI) simp_all

text \<open>Steps after the ids have been resolved: the interning does not show.\<close>

lemma resolve_then_step:
  assumes "in_sync w"
    and "\<And>ids w1. in_sync w1 \<Longrightarrow> lookup_ids (working w1) ds = Some ids \<Longrightarrow>
      catalog_of (working w1) = catalog_of (working w) \<Longrightarrow> reads w1 = reads w \<Longrightarrow> ticks w1 = ticks w \<Longrightarrow>
      takes_step (f ids) w1 v"
  shows "takes_step (bind_op (resolve_ids ds) f) w v"
proof (rule resolve_ids_step [OF assms(1), of ds])
  fix ids w1
  assume r: "resolve_ids ds w = (Inr ids, w1)" "in_sync w1" "extends (working w) (working w1)"
    "lookup_ids (working w1) ds = Some ids" "catalog_of (working w1) = catalog_of (working w)"
    "reads w1 = reads w" "ticks w1 = ticks w"
  from assms(2) [OF r(2,4-7)] show ?thesis
  proof (rule takes_stepE)
    fix x w'
    assume "f ids w1 = (Inr x, w')" "in_sync w'" "extends (working w1) (working w')"
      "res_status x = verdict_status v" "catalog_step (catalog_of (working w1)) v (catalog_of (working w'))"
    then show ?thesis
      using r extends_trans by (intro takes_stepI [where w' = w']) auto
  qed
qed

lemma known_key_takes_step:
  assumes s: "in_sync w" and ids: "lookup_ids (working w) ds = Some ids" and wf: "wf_dims ds"
  shows "takes_step
    (bind_op (composite_row ids ds) (\<lambda>existing.
       if (case existing of Some r \<Rightarrow> ff_etag (f_facts r) = st_etag st | None \<Rightarrow> False)
       then return_op skipped
       else (case read_summary get_summary source key st of
               Inl e \<Rightarrow> bind_op (quarantine_existing ids ds eff (exn_text e)) (\<lambda>_. return_op (failed (exn_msg e)))
             | Inr summary \<Rightarrow> write_file_row ds eff ids st summary)))
    w (judge_known get_summary source key ds eff st (ticks w (reads w)) (catalog_of (working w)))"
    (is "takes_step ?m w ?v")
proof (cases "unchanged_in (catalog_of (working w)) ds st")
  case True
  then have run: "?m w = return_op skipped w"
    by (simp add: composite_row_at [OF ids] unchanged_in_def split: option.splits)
  have "takes_step (return_op skipped) w (Unchanged ds)"
    using s by (intro return_takes_step catalog_step.intros) simp_all
  then have "takes_step ?m w (Unchanged ds)" unfolding takes_step_def run .
  with True show ?thesis by (simp add: judge_known_def)
next
  case False
  let ?read = "case read_summary get_summary source key st of
       Inl e \<Rightarrow> bind_op (quarantine_existing ids ds eff (exn_text e)) (\<lambda>_. return_op (failed (exn_msg e)))
     | Inr summary \<Rightarrow> write_file_row ds eff ids st summary"
  have run: "?m w = ?read w"
    using False by (simp add: composite_row_at [OF ids] unchanged_in_def split: option.splits)
  have "takes_step ?read w ?v"
    using False quarantine_takes_step [OF s ids] write_file_row_takes_step [OF s ids wf]
    by (simp add: judge_known_def split: sum.splits)
  then show ?thesis unfolding takes_step_def run .
qed

lemma catalog_object_takes_step:
  assumes "in_sync w"
  shows "case judge get_summary source key st0 (ticks w (reads w)) (catalog_of (working w)) of
      Inl e \<Rightarrow> catalog_object get_summary key source st0 w = (Inl e, w)
    | Inr v \<Rightarrow> takes_step (catalog_object get_summary key source st0) w v"
proof (cases "case st0 of Some st \<Rightarrow> Inr (Some st) | None \<Rightarrow> src_stat source key")
  case (Inl e)
  then show ?thesis by (simp add: judge_def catalog_object_def lift_result_def)
next
  case stat: (Inr st1)
  let ?m = "catalog_object get_summary key source st0"
  consider (gone) "st1 = None" | (bad) st where "st1 = Some st" "resolve_key_dims source key = None"
    | (known) st ds eff where "st1 = Some st" "resolve_key_dims source key = Some (ds, eff)"
    by (cases st1; cases "resolve_key_dims source key") auto
  then show ?thesis
  proof cases
    case gone
    then have run: "?m w = return_op (failed ''vanished'') w"
      by (simp add: catalog_object_def lift_result_def stat)
    have "takes_step (return_op (failed ''vanished'')) w Gone"
      using assms by (intro return_takes_step catalog_step.intros) simp_all
    then have "takes_step ?m w Gone" unfolding takes_step_def run .
    then show ?thesis by (simp add: judge_def stat gone)
  next
    case bad
    then have run: "?m w = bind_op (record_failure key ''unparseable key'')
        (\<lambda>_. bind_op commit_op (\<lambda>_. return_op (failed ''unparseable key''))) w"
      by (simp add: catalog_object_def lift_result_def stat)
    have "takes_step ?m w (Bad_key key ''unparseable key'')"
      using note_failure_takes_step [OF assms] unfolding takes_step_def run by simp
    then show ?thesis by (simp add: judge_def stat bad)
  next
    case known
    let ?rest = "\<lambda>ids. bind_op (composite_row ids ds) (\<lambda>existing.
        if (case existing of Some r \<Rightarrow> ff_etag (f_facts r) = st_etag st | None \<Rightarrow> False)
        then return_op skipped
        else (case read_summary get_summary source key st of
             Inl e \<Rightarrow> bind_op (quarantine_existing ids ds eff (exn_text e)) (\<lambda>_. return_op (failed (exn_msg e)))
           | Inr summary \<Rightarrow> write_file_row ds eff ids st summary))"
    let ?v = "judge_known get_summary source key ds eff st (ticks w (reads w)) (catalog_of (working w))"
    have run: "?m w = bind_op (resolve_ids ds) ?rest w"
      by (simp add: catalog_object_def lift_result_def stat known)
    have "takes_step (bind_op (resolve_ids ds) ?rest) w ?v"
    proof (rule resolve_then_step [OF assms])
      fix ids w1
      assume w1: "in_sync w1" "lookup_ids (working w1) ds = Some ids"
        "catalog_of (working w1) = catalog_of (working w)" "reads w1 = reads w" "ticks w1 = ticks w"
      show "takes_step (?rest ids) w1 ?v"
        using known_key_takes_step [OF w1(1,2) resolve_key_dims_wf [OF known(2)], where st = st and
            get_summary = get_summary and source = source and key = key and eff = eff] w1(3-5)
        by (simp only:)
    qed
    then have "takes_step ?m w ?v" unfolding takes_step_def run .
    then show ?thesis by (simp add: judge_def stat known)
  qed
qed

text \<open>C1. Cataloguing one object does exactly what its verdict says: the only exception is a failed
  \<open>stat\<close>, which leaves everything as it was; every other outcome is a result with the verdict's
  status, one abstract step of the catalog, and a writer in sync whose names all keep their ids.\<close>

theorem catalog_object_refines:
  assumes "in_sync w"
  shows "case judge get_summary source key st0 (ticks w (reads w)) (catalog_of (working w)) of
      Inl e \<Rightarrow> catalog_object get_summary key source st0 w = (Inl e, w)
    | Inr v \<Rightarrow>
        \<exists>r w'. catalog_object get_summary key source st0 w = (Inr r, w') \<and> in_sync w' \<and>
          res_status r = verdict_status v \<and> extends (working w) (working w') \<and>
          catalog_step (catalog_of (working w)) v (catalog_of (working w'))"
  using catalog_object_takes_step [OF assms, where get_summary = get_summary and source = source and key = key and ?st0.0 = st0]
  by (auto simp: takes_step_def split: sum.splits)

lemma sample_key_resolves:
  "resolve_key_dims sample_source (rebuild_hive_key sample_dims) = Some (sample_dims, rebuild_hive_key sample_dims)"
  by (simp add: resolve_key_dims_Some sample_source_def)

lemma sample_reads: "read_summary sample_reader sample_source key st = Inr sample_summary"
  using sample_summary_from_stream by (simp add: read_summary_def sample_source_def summary_from_stream_def sample_reader_def)

lemma sample_acceptable: "acceptable sample_stat sample_summary 0"
  by (simp add: acceptable_def sample_summary_def sample_stat_def topic_count_def fits_sqlite_def)

lemma empty_in_sync: "in_sync (connect empty_db (\<lambda>_. 0))"
  by (simp add: in_sync_connect)

lemma sample_judged:
  "judge sample_reader sample_source (rebuild_hive_key sample_dims) None 0 (catalog_of empty_db) =
    Inr (Accepted sample_dims (rebuild_hive_key sample_dims) sample_stat sample_summary)"
proof -
  have stat: "src_stat sample_source (rebuild_hive_key sample_dims) = Inr (Some sample_stat)"
    by (simp add: sample_source_def)
  have "file_at empty_db sample_dims = None"
    by (simp add: file_at_def ident_of_def lookup_ids_def empty_db_def)
  then show ?thesis
    by (simp add: judge_def stat sample_key_resolves judge_known_def unchanged_in_def catalog_of_def
        sample_reads judge_summary_def sample_acceptable)
qed

theorem catalog_object_refines_witness:
  "\<exists>r w'. catalog_object sample_reader (rebuild_hive_key sample_dims) sample_source None
      (connect empty_db (\<lambda>_. 0)) = (Inr r, w') \<and> in_sync w' \<and> res_status r = Cataloged"
  using catalog_object_refines [OF empty_in_sync, where get_summary = sample_reader and
      source = sample_source and key = "rebuild_hive_key sample_dims" and ?st0.0 = None]
  by (auto simp: connect_def sample_judged)

section \<open>The two phases of the reconcile path\<close>

fun judge_extract :: "int \<Rightarrow> extracted \<Rightarrow> verdict" where
  "judge_extract now (Ready key ds eff st summary) = judge_summary now ds eff st summary"
| "judge_extract now (Unparseable key error) =
     Bad_key key (if error = [] then ''unparseable key'' else error)"
| "judge_extract now (Vanished key) = Gone"
| "judge_extract now (Read_error key ds eff error) = Unreadable ds eff error"

fun extract_wf :: "extracted \<Rightarrow> bool" where
  "extract_wf (Ready _ ds _ _ _) = wf_dims ds"
| "extract_wf (Read_error _ ds _ _) = wf_dims ds"
| "extract_wf _ = True"

lemma extract_summary_wf: "wf_dims ds \<Longrightarrow> extract_wf (extract_summary get_summary source key st ds eff)"
  by (simp add: extract_summary_def Let_def split: sum.splits)

lemma apply_extract_takes_step:
  assumes s: "in_sync w" and wf: "extract_wf ex"
  shows "takes_step (apply_extract ex) w (judge_extract (ticks w (reads w)) ex)"
proof (cases ex)
  case (Ready key ds eff st summary)
  have "takes_step (bind_op (resolve_ids ds) (\<lambda>ids. write_file_row ds eff ids st summary)) w
      (judge_summary (ticks w (reads w)) ds eff st summary)"
  proof (rule resolve_then_step [OF s])
    fix ids w1
    assume w1: "in_sync w1" "lookup_ids (working w1) ds = Some ids" "reads w1 = reads w" "ticks w1 = ticks w"
    show "takes_step (write_file_row ds eff ids st summary) w1 (judge_summary (ticks w (reads w)) ds eff st summary)"
      using write_file_row_takes_step [OF w1(1,2)] wf Ready w1(3,4) by (metis extract_wf.simps(1))
  qed
  with Ready show ?thesis by (simp add: apply_extract_def)
next
  case (Unparseable key error)
  then show ?thesis using note_failure_takes_step [OF s] by (simp add: apply_extract_def Let_def)
next
  case (Vanished key)
  then show ?thesis using s by (simp add: apply_extract_def return_takes_step catalog_step.intros)
next
  case (Read_error key ds eff error)
  have "takes_step (bind_op (resolve_ids ds) (\<lambda>ids. bind_op (quarantine_existing ids ds eff error)
      (\<lambda>_. return_op (failed error)))) w (Unreadable ds eff error)"
    by (rule resolve_then_step [OF s]) (simp add: quarantine_takes_step)
  with Read_error show ?thesis by (simp add: apply_extract_def)
qed

text \<open>C4. The reconcile path and the event path agree: fetching an object's summary and applying it
  has the verdict that cataloguing the object as an event would have, when its fingerprint is new
  and it has not vanished meanwhile; when it has vanished nothing happens.\<close>

theorem extract_then_apply_refines:
  assumes "in_sync w" and "resolve_key_dims source key = Some (ds, eff)"
    and "\<not> unchanged_in (catalog_of (working w)) ds st"
  shows "takes_step (apply_extract (extract_summary get_summary source key st ds eff)) w
    (if (case read_summary get_summary source key st of Inl _ \<Rightarrow> src_stat source key = Inr None | Inr _ \<Rightarrow> False)
     then Gone
     else judge_known get_summary source key ds eff st (ticks w (reads w)) (catalog_of (working w)))"
proof -
  have wf: "wf_dims ds" using assms(2) by (rule resolve_key_dims_wf)
  let ?ex = "extract_summary get_summary source key st ds eff"
  have verdict: "judge_extract (ticks w (reads w)) ?ex =
    (if (case read_summary get_summary source key st of Inl _ \<Rightarrow> src_stat source key = Inr None | Inr _ \<Rightarrow> False)
     then Gone
     else judge_known get_summary source key ds eff st (ticks w (reads w)) (catalog_of (working w)))"
    using assms(3) by (simp add: extract_summary_def judge_known_def Let_def split: sum.splits option.splits)
  have "takes_step (apply_extract ?ex) w (judge_extract (ticks w (reads w)) ?ex)"
    by (rule apply_extract_takes_step [OF assms(1) extract_summary_wf [OF wf]])
  then show ?thesis by (simp only: verdict)
qed

theorem extract_then_apply_refines_witness:
  "takes_step
    (apply_extract (extract_summary sample_reader sample_source (rebuild_hive_key sample_dims) sample_stat
      sample_dims (rebuild_hive_key sample_dims)))
    (connect empty_db (\<lambda>_. 0))
    (Accepted sample_dims (rebuild_hive_key sample_dims) sample_stat sample_summary)"
proof -
  let ?w = "connect empty_db (\<lambda>_. 0 :: int)"
  have new: "\<not> unchanged_in (catalog_of (working ?w)) sample_dims sample_stat"
    by (simp add: unchanged_in_def file_at_def ident_of_def lookup_ids_def empty_db_def connect_def)
  show ?thesis
    using extract_then_apply_refines [OF empty_in_sync sample_key_resolves new, where get_summary = sample_reader] new
    by (simp add: sample_reads judge_known_def judge_summary_def sample_acceptable connect_def)
qed

section \<open>Removal\<close>

lemma cached_ids_lookup: "coherent w \<Longrightarrow> cached_ids (cache w) ds = lookup_ids (working w) ds"
  by (simp add: coherent_def load_caches_def cached_ids_def lookup_ids_def)

lemma delete_by_key_run:
  assumes "in_sync w"
  shows "\<exists>w'. delete_by_key key w =
      (Inr (case parse_hive_key key of None \<Rightarrow> False | Some ds \<Rightarrow> file_at (working w) ds \<noteq> None), w') \<and>
    in_sync w' \<and>
    catalog_of (working w') =
      (case parse_hive_key key of
         None \<Rightarrow> catalog_of (working w)
       | Some ds \<Rightarrow>
           if lookup_ids (working w) ds = None then catalog_of (working w)
           else clear_failure key (drop_files {ds} (catalog_of (working w))))"
proof (cases "parse_hive_key key")
  case None
  then show ?thesis using assms by (simp add: delete_by_key_def)
next
  case (Some ds)
  have wf: "db_wf (working w)" "sets_wf (working w)" and coh: "coherent w" using assms by auto
  show ?thesis
  proof (cases "lookup_ids (working w) ds")
    case None
    then show ?thesis
      using Some assms by (simp add: delete_by_key_def cached_ids_lookup [OF coh] file_at_def ident_of_def)
  next
    case ids: (Some ids)
    let ?i = "ident_for ids ds" and ?d = "delete_files (\<lambda>r. f_ident r = ident_for ids ds) (working w)"
    let ?d' = "?d\<lparr>catalog_failures := delete_key key (catalog_failures ?d)\<rparr>"
    let ?w' = "commit (w\<lparr>working := ?d'\<rparr>)"
    have ident: "ident_of (working w) ds = Some ?i" by (rule ident_of_for [OF ids])
    have names: "names ?d' = names (working w)" using names_failures by (metis delete_files_frame(1))
    have found: "filter (\<lambda>r. f_ident r = ?i) (files (working w)) \<noteq> [] \<longleftrightarrow> file_at (working w) ds \<noteq> None"
      using ident by (simp add: file_at_def select_file_def find_key_None filter_empty_conv image_iff) metis
    have "catalog_failures_update (delete_key key) ?d = ?d'" by (cases ?d) simp
    then have run: "delete_by_key key w = (Inr (file_at (working w) ds \<noteq> None), ?w')"
      using found
      by (simp add: delete_by_key_def Some ids cached_ids_lookup [OF coh] query_def exec_def commit_op_def del: delete_files_frame)
    have "db_wf ?d'"
    proof (rule failures_wf)
      show "db_wf ?d" by (rule delete_files_db_wf [OF wf(1)])
      show "distinct (map fst (delete_key key (catalog_failures ?d)))" using wf(1) by (simp add: db_wf_def)
    qed
    moreover have "sets_wf ?d'" using wf(2) sets_wf_names [OF names] by simp
    moreover have "coherent (w\<lparr>working := ?d'\<rparr>)"
      using coh names_frame(6) [OF names] by (simp add: coherent_def)
    ultimately have "in_sync ?w'" using in_syncD(5) [OF assms] by (intro in_sync_commit) simp_all
    moreover have "catalog_of ?d = drop_files {ds} (catalog_of (working w))"
      by (rule catalog_of_delete_ident [OF wf(1) ident])
    then have "catalog_of ?d' = clear_failure key (drop_files {ds} (catalog_of (working w)))"
      using catalog_of_failures(2) [where d = ?d and key = key] by simp
    ultimately show ?thesis using run by (simp add: Some ids)
  qed
qed



end
