(* ===== verification/Catalog_Tags.thy ===== *)
theory Catalog_Tags
  imports Builder_Correct
begin

text \<open>
  \<open>db.update_tags\<close> and the view \<open>tags_effective\<close>: what a reader sees of a file's tags, and what an edit
  does to it. The override layer is only ever written here; masking an embedded tag is a row of the
  override layer without a value.
\<close>

section \<open>The view\<close>

definition effective_value :: "db \<Rightarrow> rowid \<Rightarrow> string \<Rightarrow> (string \<times> bool) option" where
  "effective_value d i k =
     (case map_of (tags_override d) (i, k) of
        Some (Some v, _) \<Rightarrow> Some (v, True)
      | Some (None, _) \<Rightarrow> None
      | None \<Rightarrow> map_option (\<lambda>v. (v, False)) (map_of (tags_embedded d) (i, k)))"

lemma set_map_filter: "set (List.map_filter f xs) = {y. \<exists>x \<in> set xs. f x = Some y}"
  by (force simp: List.map_filter_def)

lemma override_view_Some: "override_view x = Some y \<longleftrightarrow> (\<exists>i k v t. x = ((i, k), (Some v, t)) \<and> y = (i, k, v, True))"
  by (cases x rule: override_view.cases) auto

lemma embedded_view_Some:
  "embedded_view X x = Some y \<longleftrightarrow> (\<exists>i k v. x = ((i, k), v) \<and> (i, k) \<notin> X \<and> y = (i, k, v, False))"
  by (cases x; cases "fst x") auto

lemma tags_effective_iff:
  assumes "tags_wf d"
  shows "(i, k, e) \<in> set (tags_effective d) \<longleftrightarrow> effective_value d i k = Some e"
proof -
  have ov: "((i, k), x) \<in> set (tags_override d) \<longleftrightarrow> map_of (tags_override d) (i, k) = Some x" for x
    using assms by (simp add: tags_wf_def)
  have em: "((i, k), x) \<in> set (tags_embedded d) \<longleftrightarrow> map_of (tags_embedded d) (i, k) = Some x" for x
    using assms by (simp add: tags_wf_def)
  have none: "(i, k) \<in> fst ` set (tags_override d) \<longleftrightarrow> map_of (tags_override d) (i, k) \<noteq> None"
    by (simp add: map_of_eq_None_iff)
  have "(i, k, e) \<in> set (List.map_filter override_view (tags_override d)) \<longleftrightarrow>
      (\<exists>v t. ((i, k), (Some v, t)) \<in> set (tags_override d) \<and> e = (v, True))"
    by (force simp: set_map_filter override_view_Some)
  moreover have "(i, k, e) \<in> set (List.map_filter (embedded_view X) (tags_embedded d)) \<longleftrightarrow>
      (\<exists>v. ((i, k), v) \<in> set (tags_embedded d) \<and> (i, k) \<notin> X \<and> e = (v, False))" for X
    by (force simp: set_map_filter embedded_view_Some)
  ultimately have "(i, k, e) \<in> set (tags_effective d) \<longleftrightarrow>
      (\<exists>v t. ((i, k), (Some v, t)) \<in> set (tags_override d) \<and> e = (v, True)) \<or>
      (\<exists>v. ((i, k), v) \<in> set (tags_embedded d) \<and> (i, k) \<notin> fst ` set (tags_override d) \<and> e = (v, False))"
    by (simp add: tags_effective_def)
  then show ?thesis
    unfolding ov em none effective_value_def
    by (cases "map_of (tags_override d) (i, k)") (auto split: option.splits)
qed

abbreviation tag_key :: "rowid \<times> string \<times> string \<times> bool \<Rightarrow> rowid \<times> string" where
  "tag_key \<equiv> \<lambda>(i, k, _). (i, k)"

lemma view_layer_keys:
  assumes "\<And>x y. f x = Some y \<Longrightarrow> tag_key y = fst x"
  shows "map tag_key (List.map_filter f t) = map fst (filter (\<lambda>x. f x \<noteq> None) t)"
proof (induction t)
  case (Cons x t)
  show ?case
  proof (cases "f x")
    case (Some y)
    with Cons assms [OF Some] show ?thesis by (cases y) (simp add: map_filter_simps)
  qed (use Cons in \<open>simp add: map_filter_simps\<close>)
qed (simp add: map_filter_simps)

lemma tags_effective_distinct:
  assumes "tags_wf d"
  shows "distinct (map tag_key (tags_effective d))"
proof -
  let ?X = "fst ` set (tags_override d)"
  have dist: "distinct (map fst (tags_override d))" "distinct (map fst (tags_embedded d))"
    using assms by (simp_all add: tags_wf_def)
  have A: "map tag_key (List.map_filter override_view (tags_override d)) =
      map fst (filter (\<lambda>x. override_view x \<noteq> None) (tags_override d))"
    by (rule view_layer_keys) (auto simp: override_view_Some)
  have B: "map tag_key (List.map_filter (embedded_view ?X) (tags_embedded d)) =
      map fst (filter (\<lambda>x. embedded_view ?X x \<noteq> None) (tags_embedded d))"
    by (rule view_layer_keys) (auto simp: embedded_view_Some)
  have "fst x \<notin> ?X" if "embedded_view ?X x \<noteq> None" for x
  proof -
    obtain i k v where "x = ((i, k), v)" by (metis prod.exhaust)
    with that show ?thesis by (simp split: if_splits)
  qed
  then have visible: "\<forall>x. embedded_view ?X x \<noteq> None \<longrightarrow> fst x \<notin> ?X" by blast
  have "set (map fst (filter (\<lambda>x. override_view x \<noteq> None) (tags_override d))) \<inter>
      set (map fst (filter (\<lambda>x. embedded_view ?X x \<noteq> None) (tags_embedded d))) = {}"
  proof (rule equals0I, elim IntE)
    fix q
    assume "q \<in> set (map fst (filter (\<lambda>x. override_view x \<noteq> None) (tags_override d)))"
    then have "q \<in> ?X" by (simp only: set_map set_filter) blast
    moreover assume "q \<in> set (map fst (filter (\<lambda>x. embedded_view ?X x \<noteq> None) (tags_embedded d)))"
    then have "q \<in> fst ` {x. embedded_view ?X x \<noteq> None}" by (simp only: set_map set_filter) blast
    then obtain y where "q = fst y" and "embedded_view ?X y \<noteq> None" by (rule imageE) (simp del: not_None_eq)
    ultimately show False using visible by metis
  qed
  then show ?thesis
    unfolding tags_effective_def map_append distinct_append A B
    using dist by (intro conjI distinct_map_filter_fst)
qed

lemma effective_tags_of_iff:
  assumes "tags_wf d"
  shows "(k, e) \<in> set (effective_tags_of d i) \<longleftrightarrow> effective_value d i k = Some e"
  using tags_effective_iff [OF assms, of i k e]
  by (force simp: effective_tags_of_def)

lemma effective_tags_of_sorted: "sorted (map fst (effective_tags_of d i))"
  by (simp add: effective_tags_of_def)

lemma effective_tags_of_distinct:
  assumes "tags_wf d"
  shows "distinct (map fst (effective_tags_of d i))"
proof -
  let ?l = "filter (\<lambda>(j, _). j = i) (tags_effective d)"
  have "distinct (map tag_key ?l)"
    by (rule distinct_map_filter_fst [OF tags_effective_distinct [OF assms]])
  moreover have "map tag_key ?l = map (Pair i) (map fst (map snd ?l))"
    by (induction "tags_effective d") auto
  ultimately have "distinct (map fst (map snd ?l))" by (metis distinct_map)
  moreover have "mset (map fst (effective_tags_of d i)) = mset (map fst (map snd ?l))"
    by (simp add: effective_tags_of_def multiset.map_comp)
  ultimately show ?thesis by (metis mset_eq_imp_distinct_iff)
qed

text \<open>C22. A reader of a file's tags gets every key once, in order, with the override's value where there is
  one, nothing where an override without a value masks the key, and the embedded value otherwise.\<close>

theorem effective_tags_correct:
  assumes "db_wf d"
  shows "sorted (map fst (effective_tags_of d i)) \<and> distinct (map fst (effective_tags_of d i)) \<and>
    map_of (effective_tags_of d i) = effective_value d i"
proof -
  have tags: "tags_wf d" using assms by (simp add: db_wf_def)
  note dist = effective_tags_of_distinct [OF tags, of i]
  have "map_of (effective_tags_of d i) k = effective_value d i k" for k
  proof (cases "effective_value d i k")
    case None
    then have "k \<notin> fst ` set (effective_tags_of d i)" using effective_tags_of_iff [OF tags] by force
    with None show ?thesis by (simp add: map_of_eq_None_iff)
  next
    case (Some e)
    then show ?thesis using effective_tags_of_iff [OF tags, of k e i] dist by simp
  qed
  then show ?thesis using dist effective_tags_of_sorted by blast
qed

theorem effective_tags_correct_witness:
  "map_of (effective_tags_of sample_db 1) = effective_value sample_db 1 \<and>
    effective_value sample_db 1 ''robot_mode'' = Some (''auto'', False)"
  using effective_tags_correct [OF sample_db_wf, of 1]
  by (simp add: effective_value_def sample_db_def)

section \<open>Editing\<close>

text \<open>The override layer of one file after an edit: all sets in order, then all unsets.\<close>

definition set_override :: "int \<Rightarrow> (string \<rightharpoonup> string option \<times> int) \<Rightarrow> string \<times> string \<Rightarrow> (string \<rightharpoonup> string option \<times> int)" where
  "set_override now ov kv = ov(fst kv \<mapsto> (Some (snd kv), now))"

definition unset_override ::
  "int \<Rightarrow> (string \<rightharpoonup> string) \<Rightarrow> (string \<rightharpoonup> string option \<times> int) \<Rightarrow> string \<Rightarrow> (string \<rightharpoonup> string option \<times> int)"
where
  "unset_override now em ov k = ov(k := (if em k = None then None else Some (None, now)))"

definition edit_overrides ::
  "int \<Rightarrow> (string \<rightharpoonup> string) \<Rightarrow> (string \<times> string) list \<Rightarrow> string list \<Rightarrow>
   (string \<rightharpoonup> string option \<times> int) \<Rightarrow> (string \<rightharpoonup> string option \<times> int)"
where
  "edit_overrides now em set_kv unset_keys ov =
     foldl (unset_override now em) (foldl (set_override now) ov set_kv) unset_keys"

text \<open>The statements of an edit on the table.\<close>

definition set_row :: "rowid \<Rightarrow> int \<Rightarrow> ((rowid \<times> string) \<times> (string option \<times> int)) list \<Rightarrow> string \<times> string \<Rightarrow>
  ((rowid \<times> string) \<times> (string option \<times> int)) list" where
  "set_row i now t kv = upsert (i, fst kv) (Some (snd kv), now) t"

definition unset_row :: "rowid \<Rightarrow> int \<Rightarrow> (rowid \<times> string) set \<Rightarrow> ((rowid \<times> string) \<times> (string option \<times> int)) list \<Rightarrow>
  string \<Rightarrow> ((rowid \<times> string) \<times> (string option \<times> int)) list" where
  "unset_row i now em t k = (if (i, k) \<in> em then upsert (i, k) (None, now) t else delete_key (i, k) t)"

abbreviation with_override :: "((rowid \<times> string) \<times> (string option \<times> int)) list \<Rightarrow> writer \<Rightarrow> writer" where
  "with_override t w \<equiv> w\<lparr>working := (working w)\<lparr>tags_override := t\<rparr>\<rparr>"

lemma set_tags_run:
  assumes "i \<in> f_id ` set (files (working w))"
  shows "fold_op (\<lambda>(k, v) _. exec_check (upsert_override i k (Some v) now)) kvs () w =
    (Inr (), with_override (foldl (set_row i now) (tags_override (working w)) kvs) w)"
  using assms
proof (induction kvs arbitrary: w)
  case (Cons kv kvs)
  let ?w = "with_override (set_row i now (tags_override (working w)) kv) w"
  have "exec_check (upsert_override i (fst kv) (Some (snd kv)) now) w = (Inr (), ?w)"
    using Cons.prems by (simp add: exec_check_def upsert_override_def set_row_def)
  moreover have "i \<in> f_id ` set (files (working ?w))" using Cons.prems by simp
  note Cons.IH [OF this]
  ultimately show ?case by (simp add: case_prod_beta)
qed simp

lemma unset_tags_run:
  assumes "i \<in> f_id ` set (files (working w))"
  shows "fold_op (\<lambda>k _. exec_check (unset_tag i k now)) ks () w =
    (Inr (), with_override (foldl (unset_row i now (fst ` set (tags_embedded (working w)))) (tags_override (working w)) ks) w)"
  using assms
proof (induction ks arbitrary: w)
  case (Cons k ks)
  let ?w = "with_override (unset_row i now (fst ` set (tags_embedded (working w))) (tags_override (working w)) k) w"
  have "exec_check (unset_tag i k now) w = (Inr (), ?w)"
    using Cons.prems by (simp add: exec_check_def unset_tag_def upsert_override_def unset_row_def)
  moreover have "i \<in> f_id ` set (files (working ?w))" using Cons.prems by simp
  note Cons.IH [OF this]
  ultimately show ?case by simp
qed simp

definition edited_rows :: "rowid \<Rightarrow> int \<Rightarrow> (string \<times> string) list \<Rightarrow> string list \<Rightarrow> db \<Rightarrow>
  ((rowid \<times> string) \<times> (string option \<times> int)) list" where
  "edited_rows i now kvs ks d =
     foldl (unset_row i now (fst ` set (tags_embedded d))) (foldl (set_row i now) (tags_override d) kvs) ks"

lemma update_tags_run:
  assumes "i \<in> f_id ` set (files (working w))"
  shows "update_tags i set_kv unset_keys w =
    (Inr (), commit (with_override
      (edited_rows i (ticks w (reads w)) (case set_kv of None \<Rightarrow> [] | Some kv \<Rightarrow> kv)
        (case unset_keys of None \<Rightarrow> [] | Some ks \<Rightarrow> ks) (working w)) (ticked w)))"
  using assms
  by (simp add: update_tags_def now_ns_def with_conn_def set_tags_run unset_tags_run edited_rows_def)

lemma map_of_set_rows:
  "(\<lambda>k. map_of (foldl (set_row i now) t kvs) (j, k)) =
    (if j = i then foldl (set_override now) (\<lambda>k. map_of t (i, k)) kvs else (\<lambda>k. map_of t (j, k)))"
proof (induction kvs arbitrary: t)
  case (Cons kv kvs)
  have "(\<lambda>k. map_of (set_row i now t kv) (i, k)) = set_override now (\<lambda>k. map_of t (i, k)) kv"
    "j \<noteq> i \<Longrightarrow> (\<lambda>k. map_of (set_row i now t kv) (j, k)) = (\<lambda>k. map_of t (j, k))"
    by (auto simp: set_row_def set_override_def)
  with Cons.IH [of "set_row i now t kv"] show ?case by simp
qed simp

lemma map_of_unset_rows:
  assumes "\<And>k. (i, k) \<in> X \<longleftrightarrow> em k \<noteq> None"
  shows "(\<lambda>k. map_of (foldl (unset_row i now X) t ks) (j, k)) =
    (if j = i then foldl (unset_override now em) (\<lambda>k. map_of t (i, k)) ks else (\<lambda>k. map_of t (j, k)))"
proof (induction ks arbitrary: t)
  case (Cons k ks)
  have "(\<lambda>q. map_of (unset_row i now X t k) (i, q)) = unset_override now em (\<lambda>q. map_of t (i, q)) k"
    "j \<noteq> i \<Longrightarrow> (\<lambda>q. map_of (unset_row i now X t k) (j, q)) = (\<lambda>q. map_of t (j, q))"
    using assms [of k] by (auto simp: unset_row_def unset_override_def)
  with Cons.IH [of "unset_row i now X t k"] show ?case by simp
qed simp

lemma map_of_edited_rows:
  "(\<lambda>k. map_of (edited_rows i now kvs ks d) (j, k)) =
    (if j = i
     then edit_overrides now (\<lambda>k. map_of (tags_embedded d) (i, k)) kvs ks (\<lambda>k. map_of (tags_override d) (i, k))
     else (\<lambda>k. map_of (tags_override d) (j, k)))"
  unfolding edited_rows_def edit_overrides_def
  by (subst map_of_unset_rows [where em = "\<lambda>k. map_of (tags_embedded d) (i, k)"])
    (simp_all add: map_of_eq_None_iff map_of_set_rows)

lemma edited_rows_wf:
  assumes "tags_wf d" and "i \<in> f_id ` set (files d)"
  shows "tags_wf (d\<lparr>tags_override := edited_rows i now kvs ks d\<rparr>)"
proof -
  define ok where "ok t \<longleftrightarrow> distinct (map fst t) \<and> fst ` fst ` set t \<subseteq> f_id ` set (files d)"
    for t :: "((rowid \<times> string) \<times> (string option \<times> int)) list"
  have up: "ok (upsert (i, k) v t)" if "ok t" for k v t
  proof -
    have "fst ` fst ` set (upsert (i, k) v t) = insert i (fst ` fst ` set t)" by (simp only: fst_upsert) simp
    with that assms(2) show ?thesis by (simp add: ok_def)
  qed
  have del: "ok (delete_key (i, k) t)" if "ok t" for k t
    using that by (auto simp: ok_def delete_key_def distinct_map_filter_fst)
  have sets: "ok (foldl (set_row i now) t kvs)" if "ok t" for t
    using that by (induction kvs arbitrary: t) (simp_all add: set_row_def up)
  have unsets: "ok (foldl (unset_row i now X) t ks)" if "ok t" for t X
    using that by (induction ks arbitrary: t) (simp_all add: unset_row_def up del)
  have "ok (tags_override d)" using assms(1) by (simp add: ok_def tags_wf_def)
  then have "ok (edited_rows i now kvs ks d)" unfolding edited_rows_def by (intro unsets sets)
  then show ?thesis using assms(1) by (simp add: tags_wf_def ok_def)
qed

subsection \<open>What an edit does\<close>

lemma edit_overrides_iff:
  "edit_overrides now em kvs ks ov k =
    (if k \<in> set ks then (if em k = None then None else Some (None, now))
     else (case map_of (rev kvs) k of Some v \<Rightarrow> Some (Some v, now) | None \<Rightarrow> ov k))"
proof -
  have sets: "foldl (set_override now) ov kvs k = (case map_of (rev kvs) k of Some v \<Rightarrow> Some (Some v, now) | None \<Rightarrow> ov k)"
    by (induction kvs rule: rev_induct) (auto simp: set_override_def)
  have "foldl (unset_override now em) ov' ks k =
      (if k \<in> set ks then (if em k = None then None else Some (None, now)) else ov' k)" for ov'
    by (induction ks rule: rev_induct) (auto simp: unset_override_def)
  then show ?thesis by (simp add: edit_overrides_def sets)
qed

lemma update_tags_in_sync:
  assumes s: "in_sync w" and f: "file_at (working w) ds = Some f"
  obtains w' where "update_tags (f_id f) set_kv unset_keys w = (Inr (), w')" and "in_sync w'"
    and "catalog_of (working w') = (catalog_of (working w))\<lparr>cat_override :=
      (cat_override (catalog_of (working w)))(ds :=
        edit_overrides (ticks w (reads w)) (tags_at (tags_embedded (working w)) (working w) ds)
          (case set_kv of None \<Rightarrow> [] | Some kv \<Rightarrow> kv) (case unset_keys of None \<Rightarrow> [] | Some ks \<Rightarrow> ks)
          (tags_at (tags_override (working w)) (working w) ds))\<rparr>"
    and "tags_embedded (working w') = tags_embedded (working w)"
    and "tags_override (working w') = edited_rows (f_id f) (ticks w (reads w))
      (case set_kv of None \<Rightarrow> [] | Some kv \<Rightarrow> kv) (case unset_keys of None \<Rightarrow> [] | Some ks \<Rightarrow> ks) (working w)"
proof -
  let ?kvs = "case set_kv of None \<Rightarrow> [] | Some kv \<Rightarrow> kv" and ?ks = "case unset_keys of None \<Rightarrow> [] | Some ks \<Rightarrow> ks"
  let ?t = "edited_rows (f_id f) (ticks w (reads w)) ?kvs ?ks (working w)"
  let ?d = "(working w)\<lparr>tags_override := ?t\<rparr>"
  let ?w' = "commit (with_override ?t (ticked w))"
  have wf: "db_wf (working w)" "sets_wf (working w)" and coh: "coherent w" using s by auto
  have f_in: "f_id f \<in> f_id ` set (files (working w))" using f wf(1) by (simp add: file_at_iff db_wf_def)
  have names: "names ?d = names (working w)" by (simp add: names_def)
  note frame = names_frame [OF names]
  have "tags_wf ?d" using wf(1) f_in by (intro edited_rows_wf) (simp_all add: db_wf_def)
  then have "db_wf ?d" using wf(1) by (simp add: db_wf_def files_wf_def frame)
  moreover have "sets_wf ?d" using wf(2) sets_wf_names [OF names] by simp
  moreover have "coherent (with_override ?t (ticked w))"
    using coh frame(6) by (simp add: coherent_def)
  ultimately have "in_sync ?w'" using in_syncD(5) [OF assms(1)] by (intro in_sync_commit) simp_all
  moreover note at = file_at_same [of ?d "working w", OF names]
  have "tags_at ?t ?d ds' = ((tags_at (tags_override (working w)) (working w))(ds :=
      edit_overrides (ticks w (reads w)) (tags_at (tags_embedded (working w)) (working w) ds) ?kvs ?ks
        (tags_at (tags_override (working w)) (working w) ds))) ds'" for ds'
  proof (cases "file_at (working w) ds'")
    case None
    with f show ?thesis by (auto simp: tags_at_def at)
  next
    case (Some g)
    have "f_id g = f_id f \<longleftrightarrow> ds' = ds"
      using file_at_distinct_ids [OF wf(1) Some f] Some f by auto
    with Some f show ?thesis
      using map_of_edited_rows [of "f_id f" _ ?kvs ?ks "working w" "f_id g"] by (auto simp: tags_at_def at)
  qed
  moreover have "tags_at t ?d = tags_at t (working w)" for t :: "((rowid \<times> string) \<times> string) list"
    by (simp add: tags_at_def at fun_eq_iff)
  ultimately show ?thesis
    using that [of ?w'] update_tags_run [OF f_in, of set_kv unset_keys]
    by (simp add: catalog_of_def at fun_eq_iff)
qed

lemma effective_after_edit:
  assumes "map_of (tags_override d') (i, k) =
      edit_overrides now (\<lambda>k. map_of (tags_embedded d) (i, k)) kvs ks (\<lambda>k. map_of (tags_override d) (i, k)) k"
    and "tags_embedded d' = tags_embedded d"
  shows "effective_value d' i k =
    (if k \<in> set ks then None
     else (case map_of (rev kvs) k of Some v \<Rightarrow> Some (v, True) | None \<Rightarrow> effective_value d i k))"
  using assms by (simp add: effective_value_def edit_overrides_iff split: option.splits)

abbreviation given :: "'a list option \<Rightarrow> 'a list" where
  "given x \<equiv> case x of None \<Rightarrow> [] | Some xs \<Rightarrow> xs"

text \<open>C21. An edit of an existing file always commits, and a reader then sees: an unset key is gone,
  embedded or not; a set key has the value last given for it, whatever is embedded; every other tag
  of this file and every tag of every other file is as before.\<close>

theorem update_tags_correct:
  assumes "in_sync w" and "file_at (working w) ds = Some f"
  shows "\<exists>w'. update_tags (f_id f) set_kv unset_keys w = (Inr (), w') \<and> in_sync w' \<and>
    (\<forall>k. effective_value (working w') (f_id f) k =
      (if k \<in> set (given unset_keys) then None
       else (case map_of (rev (given set_kv)) k of
               Some v \<Rightarrow> Some (v, True)
             | None \<Rightarrow> effective_value (working w) (f_id f) k))) \<and>
    (\<forall>j. j \<noteq> f_id f \<longrightarrow> effective_value (working w') j = effective_value (working w) j)"
proof -
  let ?d = "working w"
  obtain w' where w': "update_tags (f_id f) set_kv unset_keys w = (Inr (), w')" "in_sync w'"
    and em: "tags_embedded (working w') = tags_embedded ?d"
    and ov: "tags_override (working w') =
      edited_rows (f_id f) (ticks w (reads w)) (given set_kv) (given unset_keys) ?d"
    by (rule update_tags_in_sync [OF assms, of set_kv unset_keys])
  have row: "map_of (tags_override (working w')) (j, k) =
      (if j = f_id f
       then edit_overrides (ticks w (reads w)) (\<lambda>k. map_of (tags_embedded ?d) (f_id f, k)) (given set_kv)
         (given unset_keys) (\<lambda>k. map_of (tags_override ?d) (f_id f, k)) k
       else map_of (tags_override ?d) (j, k))" for j k
    unfolding ov
    using fun_cong [OF map_of_edited_rows [of "f_id f" "ticks w (reads w)" "given set_kv" "given unset_keys" ?d j], of k]
    by simp
  have "effective_value (working w') (f_id f) k =
      (if k \<in> set (given unset_keys) then None
       else (case map_of (rev (given set_kv)) k of
               Some v \<Rightarrow> Some (v, True)
             | None \<Rightarrow> effective_value ?d (f_id f) k))" for k
    using row [of "f_id f" k] em by (intro effective_after_edit) simp_all
  moreover have "effective_value (working w') j = effective_value ?d j" if "j \<noteq> f_id f" for j
    using that by (simp add: effective_value_def row em fun_eq_iff split: option.splits)
  ultimately show ?thesis using w' by blast
qed

theorem update_tags_correct_witness:
  "\<exists>w'. update_tags 1 (Some [(''note'', ''new'')]) (Some [''robot_mode'']) sample_writer = (Inr (), w') \<and>
    in_sync w' \<and> effective_value (working w') 1 ''note'' = Some (''new'', True) \<and>
    effective_value (working w') 1 ''robot_mode'' = None"
proof -
  have f: "file_at (working sample_writer) sample_dims = Some sample_row" "f_id sample_row = 1"
    by (simp_all add: sample_file_at) (simp add: sample_row_def)
  show ?thesis
    using update_tags_correct [OF sample_writer_in_sync f(1), of "Some [(''note'', ''new'')]" "Some [''robot_mode'']"]
    by (auto simp: f(2))
qed

text \<open>Setting a tag of a file that does not exist violates the foreign key: the edit raises, and nothing
  of it, unsets included, reaches the database.\<close>

theorem update_tags_unknown_file:
  assumes "in_sync w" and "i \<notin> f_id ` set (files (working w))" and "given set_kv \<noteq> []"
  shows "\<exists>w'. update_tags i set_kv unset_keys w = (Inl foreign_key_failed, w') \<and> in_sync w' \<and>
    working w' = working w \<and> committed w' = committed w"
proof -
  obtain kv kvs where kvs: "given set_kv = kv # kvs" using assms(3) by (cases "given set_kv") auto
  have "tags_wf (working w)" using assms(1) by (auto simp: db_wf_def)
  then have "(i, fst kv) \<notin> fst ` set (tags_override (working w))"
    using assms(2) by (force simp: tags_wf_def)
  then have "exec_check (upsert_override i (fst kv) (Some (snd kv)) now) (ticked w) = (Inl foreign_key_failed, ticked w)" for now
    using assms(2) by (simp add: exec_check_def upsert_override_def)
  then have "update_tags i set_kv unset_keys w = (Inl foreign_key_failed, rollback (ticked w))"
    by (simp add: update_tags_def now_ns_def kvs with_conn_def case_prod_beta)
  then show ?thesis using assms(1) by (simp add: rollback_def in_sync_def coherent_def)
qed

theorem update_tags_unknown_file_witness:
  "\<exists>w'. update_tags 9 (Some [(''k'', ''v'')]) None sample_writer = (Inl foreign_key_failed, w') \<and> in_sync w' \<and>
    working w' = working sample_writer \<and> committed w' = committed sample_writer"
  by (rule update_tags_unknown_file [OF sample_writer_in_sync])
    (simp_all, simp add: sample_db_def sample_row_def)

end
