(* ===== verification/Builder_Properties.thy ===== *)
theory Builder_Properties
  imports Builder_Refinement Catalog_Tags
begin

text \<open>
  What follows from the refinement for whoever reads the catalog or owns the files: a catalogued file's
  channels and counts are the file's own, edits by users survive, a broken file is never servable,
  and no file is both catalogued and failed.
\<close>

section \<open>A catalogued file\<close>

lemma sum_over_topics:
  "(\<Sum>t \<in> ci_topic ` set chs. topic_count chs t) = sum_list (map ci_message_count chs)"
proof -
  have "(\<Sum>t \<in> A. topic_count chs t) = sum_list (map ci_message_count chs)"
    if "finite A" and "ci_topic ` set chs \<subseteq> A" for A
    using that
  proof (induction chs)
    case (Cons c chs)
    have "topic_count (c # chs) t = (if t = ci_topic c then ci_message_count c else 0) + topic_count chs t" for t
      by (auto simp: topic_count_def)
    then show ?case using Cons by (simp add: sum.distrib)
  qed (simp add: topic_count_def)
  then show ?thesis by simp
qed

lemma topics_written_sum:
  assumes "topics_written summary ts"
  shows "sum_list (map (\<lambda>(_, _, n). n) ts) = channel_total summary"
proof -
  let ?chs = "fsum_channels summary"
  have mem: "(t, sch, n) \<in> set ts \<longleftrightarrow> topic_schema ?chs t = Some sch \<and> n = topic_count ?chs t" for t sch n
    using assms unfolding topics_written_def by blast
  have dist: "distinct (map fst ts)" using assms by (simp add: topics_written_def)
  have "fst ` set ts = ci_topic ` set ?chs"
  proof (intro set_eqI iffI)
    fix t
    assume "t \<in> fst ` set ts"
    then obtain x where "(t, x) \<in> set ts" by force
    then obtain sch where "topic_schema ?chs t = Some sch" using mem by (cases x) auto
    then show "t \<in> ci_topic ` set ?chs" by (metis option.distinct(1) topic_schema_None)
  next
    fix t
    assume "t \<in> ci_topic ` set ?chs"
    then obtain sch where "topic_schema ?chs t = Some sch" using topic_schema_None [of ?chs t] by auto
    then have "(t, sch, topic_count ?chs t) \<in> set ts" by (simp add: mem)
    then show "t \<in> fst ` set ts" by force
  qed
  then have "channel_total summary = (\<Sum>t \<in> fst ` set ts. topic_count ?chs t)" by (simp add: sum_over_topics)
  also have "\<dots> = sum_list (map (topic_count ?chs) (map fst ts))"
    unfolding set_map [symmetric] by (rule sum_list_distinct_conv_sum_set [OF dist, symmetric])
  also have "map (topic_count ?chs) (map fst ts) = map (\<lambda>(_, _, n). n) ts"
    using mem by auto
  finally show ?thesis by simp
qed

text \<open>C2. A file whose counts add up and whose numbers fit is catalogued, and a reader who decodes the
  counts blob against the members of the topic set gets each topic of the file exactly once, with
  the schema of its first channel and the messages of all its channels; their sum is the file's
  message count. The only hypothesis about SHA-256 is that the file's own topic set does not collide
  with a stored one.\<close>

theorem catalogued_channels:
  assumes "in_sync w" and "lookup_ids (working w) ds = Some ids" and "wf_dims ds"
    and "acceptable st summary (ticks w (reads w))" and "collision_free (fsum_channels summary) w"
  shows "\<exists>w' f ts. write_file_row ds key ids st summary w = (Inr cataloged, w') \<and>
    file_at (working w') ds = Some f \<and> file_topics (working w') f = Some ts \<and>
    distinct (map fst ts) \<and>
    (\<forall>t sch n. (t, sch, n) \<in> set ts \<longleftrightarrow>
      topic_schema (fsum_channels summary) t = Some sch \<and> n = topic_count (fsum_channels summary) t) \<and>
    sum_list (map (\<lambda>(_, _, n). n) ts) = fsum_message_count summary"
  using assms(1-3)
proof (cases rule: write_file_row_outcome [where st = st and summary = summary and key = key])
  case (stored f d)
  obtain ts where ts: "file_topics d f = Some ts" "topics_written summary ts" using stored(7) assms(5) by blast
  have "file_at d ds = Some f" using stored(5) by (simp add: catalog_of_def put_file_def)
  moreover have "sum_list (map (\<lambda>(_, _, n). n) ts) = fsum_message_count summary"
    using topics_written_sum [OF ts(2)] assms(4) by (simp add: acceptable_def)
  ultimately show ?thesis
    using stored(2) ts unfolding topics_written_def
    by (intro exI [of _ "commit (ticked (with_db d w))"] exI [of _ f] exI [of _ ts]) simp
next
  case rejected
  with assms(4) show ?thesis by simp
qed

lemma sample_acceptable_later: "acceptable sample_stat sample_summary 100"
  by (simp add: acceptable_def sample_summary_def sample_stat_def topic_count_def fits_sqlite_def)

lemma sample_collision_free: "collision_free (fsum_channels sample_summary) sample_writer"
proof -
  have "channel_members (fsum_channels sample_summary) sample_writer = [(1, 1), (2, 2)]"
    by (simp add: channel_members_def sample_summary_def add_channel_def resolve_topic_def resolve_schema_def
        resolve_row_def sample_writer_def connect_def load_caches_def sample_db_def members_from_def
        sort_key_def)
  then show ?thesis
    using sample_members by (simp add: collision_free_def split: option.splits) (simp add: sample_db_def)
qed

theorem catalogued_channels_witness:
  "\<exists>w' f ts. write_file_row sample_dims ''k'' (1, 1, 1, 1) sample_stat sample_summary sample_writer =
      (Inr cataloged, w') \<and>
    file_at (working w') sample_dims = Some f \<and> file_topics (working w') f = Some ts \<and>
    (''/odom'', (''Odometry'', ''ros2msg''), 7) \<in> set ts \<and> sum_list (map (\<lambda>(_, _, n). n) ts) = 7"
proof -
  have ids: "lookup_ids (working sample_writer) sample_dims = Some (1, 1, 1, 1)" by (simp add: sample_lookup)
  have acc: "acceptable sample_stat sample_summary (ticks sample_writer (reads sample_writer))"
    using sample_acceptable_later by (simp add: sample_writer_def connect_def)
  have odom: "topic_schema (fsum_channels sample_summary) ''/odom'' = Some (''Odometry'', ''ros2msg'')"
    "topic_count (fsum_channels sample_summary) ''/odom'' = 7" "fsum_message_count sample_summary = 7"
    by (simp_all add: topic_schema_def topic_count_def sample_summary_def)
  show ?thesis
    using catalogued_channels [OF sample_writer_in_sync ids wf_sample_dims acc sample_collision_free, of "''k''"]
    by (metis odom)
qed

section \<open>User edits survive\<close>

lemma step_keeps_files:
  assumes "catalog_step c v c'" and "verdict_status v \<noteq> Failed"
  shows "cat_override c' = cat_override c"
    and "cat_files c ds = Some f \<Longrightarrow> \<exists>f'. cat_files c' ds = Some f' \<and> f_id f' = f_id f"
  using assms by (auto elim!: catalog_stepE simp: put_file_def row_written_def)


lemma sample_unchanged:
  "catalog_object sample_reader (rebuild_hive_key sample_dims) sample_source None sample_writer =
    (Inr skipped, sample_writer\<lparr>versions := [sample_db]\<rparr>)"
proof -
  have stat: "src_stat sample_source (rebuild_hive_key sample_dims) = Inr (Some sample_stat)"
    by (simp add: sample_source_def)
  obtain ids where lk: "lookup_ids (working sample_writer) sample_dims = Some ids" by (simp add: sample_lookup)
  have "resolve_ids sample_dims sample_writer = (Inr ids, commit (with_db sample_db sample_writer))"
    using resolve_ids_reference [of sample_writer sample_dims] sample_writer_in_sync
      intern_dims_present [OF lk] by (auto simp: in_syncD)
  also have "commit (with_db sample_db sample_writer) = sample_writer\<lparr>versions := [sample_db]\<rparr>"
    using in_sync_with_db [OF sample_writer_in_sync] by (simp add: sample_writer_def commit_def connect_def)
  finally have ids: "resolve_ids sample_dims sample_writer = (Inr ids, sample_writer\<lparr>versions := [sample_db]\<rparr>)" .
  let ?w = "sample_writer\<lparr>versions := [sample_db]\<rparr>"
  have row: "composite_row ids sample_dims ?w = (Inr (file_at (working sample_writer) sample_dims), ?w)"
    using composite_row_at [of ?w sample_dims ids] lk by simp
  have "ff_etag (f_facts sample_row) = st_etag sample_stat" by (simp add: sample_row_def row_facts_def)
  then show ?thesis
    by (simp add: catalog_object_def lift_result_def stat sample_key_resolves ids row sample_file_at)
qed


section \<open>Broken files\<close>

lemma failed_drops:
  assumes "in_sync w" and "src_stat source key = Inr (Some st)"
    and "resolve_key_dims source key = Some (ds, eff)"
    and "catalog_object get_summary key source None w = (Inr r, w')" and "res_status r = Failed"
  obtains now err where
    "catalog_of (working w') = note_failure eff (now, err) (drop_files {ds} (catalog_of (working w)))"
proof -
  let ?v = "judge_known get_summary source key ds eff st (ticks w (reads w)) (catalog_of (working w))"
  have "takes_step (catalog_object get_summary key source None) w ?v"
    using catalog_object_takes_step [OF assms(1), where get_summary = get_summary and source = source
        and key = key and ?st0.0 = None] assms(2,3)
    by (simp add: judge_def)
  then have "catalog_step (catalog_of (working w)) ?v (catalog_of (working w'))" "verdict_status ?v = Failed"
    using assms(4,5) by (auto elim!: takes_stepE)
  then show thesis
    using that by (auto simp: judge_known_def judge_summary_def catalog_step_simps split: if_splits sum.splits)
qed

text \<open>C3. Quarantine: an object with a good key that fails, for whatever reason, is not in the catalog
  afterwards under any circumstances, its failure is recorded under its key, and no other file is
  touched.\<close>

theorem failed_is_quarantined:
  assumes "in_sync w" and "src_stat source key = Inr (Some st)"
    and "resolve_key_dims source key = Some (ds, eff)"
    and "catalog_object get_summary key source None w = (Inr r, w')" and "res_status r = Failed"
  shows "file_at (working w') = (file_at (working w))(ds := None) \<and>
    (\<exists>now err. map_of (catalog_failures (working w')) =
      (map_of (catalog_failures (working w)))(eff \<mapsto> (now, err)))"
  by (rule failed_drops [OF assms]) (auto simp: catalog_of_def note_failure_def drop_files_def fun_eq_iff)

text \<open>The price of a quarantine: the user's edits go with the row, and cataloguing the file again, also after
  a failure that was only transient, does not bring them back.\<close>

lemma step_no_new_edits:
  assumes "catalog_step c v c'" and "cat_override c ds = Map.empty"
  shows "cat_override c' ds = Map.empty"
  using assms by (auto elim!: catalog_stepE simp: put_file_def note_failure_def drop_files_def)

lemma failure_forgets_edits:
  assumes "in_sync w" and "src_stat source key = Inr (Some st)"
    and "resolve_key_dims source key = Some (ds, eff)"
    and "catalog_object get_summary key source None w = (Inr r1, w1)" and "res_status r1 = Failed"
    and "catalog_object get_summary' key' source' st' w1 = (Inr r2, w2)"
  shows "cat_override (catalog_of (working w2)) ds = Map.empty"
proof -
  obtain now err where w1: "catalog_of (working w1) = note_failure eff (now, err) (drop_files {ds} (catalog_of (working w)))"
    by (rule failed_drops [OF assms(1-5)])
  then have none: "cat_override (catalog_of (working w1)) ds = Map.empty" by (simp add: note_failure_def drop_files_def)
  have "in_sync w1"
    using catalog_object_takes_step [OF assms(1), where get_summary = get_summary and source = source
        and key = key and ?st0.0 = None] assms(2-4) by (auto simp: judge_def elim!: takes_stepE)
  then obtain v where "catalog_step (catalog_of (working w1)) v (catalog_of (working w2))"
    using catalog_object_takes_step [OF \<open>in_sync w1\<close>, where get_summary = get_summary' and source = source'
        and key = key' and ?st0.0 = st'] assms(6)
    by (auto split: sum.splits elim!: takes_stepE)
  then show ?thesis by (rule step_no_new_edits [OF _ none])
qed

text \<open>A source whose only object cannot be opened.\<close>

definition broken_source :: "unit source" where
  "broken_source = sample_source
     \<lparr>src_stat := (\<lambda>key. Inr (Some \<lparr>st_size = 5, st_etag = ''etag-2'', st_mtime_ns = 9\<rparr>)),
      src_open := (\<lambda>key sz. Inl (Exn ''OSError'' ''gone''))\<rparr>"

theorem failed_is_quarantined_witness:
  "\<exists>r w'. catalog_object sample_reader (rebuild_hive_key sample_dims) broken_source None sample_writer = (Inr r, w') \<and>
    file_at (working w') sample_dims = None"
proof -
  let ?st = "\<lparr>st_size = 5, st_etag = ''etag-2'', st_mtime_ns = 9\<rparr>" and ?k = "rebuild_hive_key sample_dims"
  have stat: "src_stat broken_source ?k = Inr (Some ?st)" by (simp add: broken_source_def)
  have key: "resolve_key_dims broken_source ?k = Some (sample_dims, ?k)"
    by (simp add: resolve_key_dims_Some broken_source_def sample_source_def)
  have "ff_etag (f_facts sample_row) = ''etag-1''" by (simp add: sample_row_def row_facts_def sample_stat_def)
  then have "judge sample_reader broken_source ?k None (ticks sample_writer (reads sample_writer)) (catalog_of sample_db) =
      Inr (Unreadable sample_dims ?k ''OSError: gone'')"
    by (simp add: judge_def stat key judge_known_def unchanged_in_def sample_file_at)
      (simp add: read_summary_def broken_source_def exn_text_def)
  then obtain r w' where run: "catalog_object sample_reader ?k broken_source None sample_writer = (Inr r, w')"
    "res_status r = Failed"
    using catalog_object_takes_step [OF sample_writer_in_sync, where get_summary = sample_reader
        and source = broken_source and key = ?k and ?st0.0 = None]
    by (auto elim!: takes_stepE)
  then show ?thesis
    using failed_is_quarantined [OF sample_writer_in_sync stat key run] by auto
qed

end
