(* ===== verification/Retry.thy ===== *)
theory Retry
  imports Catalog_Prelude
begin

text \<open>
  \<open>retry.py\<close>: bounded retry with exponential backoff. The wrapped call \<open>fn\<close> talks to the network, so
  its outcomes are a parameter: \<open>fn i\<close> is what the \<open>i\<close>-th call gives. The cancel hook is likewise
  indexed by the attempt after which it is asked. Delays are in milliseconds.
\<close>

definition BASE_DELAY :: int where "BASE_DELAY = 50"
definition MAX_DELAY :: int where "MAX_DELAY = 800"
definition ATTEMPTS :: int where "ATTEMPTS = 6"

text \<open>
  How a call of \<open>retry_with\<close> ends. \<open>Assertion_failed\<close> is the assertion behind the loop, which is
  reached when the loop made no attempt at all.
\<close>

datatype ('e, 'a) retry_result = Returned 'a | Raised 'e | Assertion_failed

record ('e, 'a) retry_run =
  outcome :: "('e, 'a) retry_result"
  calls :: nat
  slept :: "int list"

definition classified_permanent :: "('e \<Rightarrow> bool) option \<Rightarrow> 'e \<Rightarrow> bool" where
  "classified_permanent is_permanent e = (case is_permanent of None \<Rightarrow> False | Some p \<Rightarrow> p e)"

definition told_to_stop :: "(nat \<Rightarrow> bool) option \<Rightarrow> nat \<Rightarrow> bool" where
  "told_to_stop should_stop i = (case should_stop of None \<Rightarrow> False | Some q \<Rightarrow> q i)"

text \<open>The loop over the indices still to come, with the current delay and the last exception.\<close>

fun retry_loop ::
  "(nat \<Rightarrow> 'e + 'a) \<Rightarrow> int \<Rightarrow> int \<Rightarrow> ('e \<Rightarrow> bool) option \<Rightarrow> (nat \<Rightarrow> bool) option \<Rightarrow>
   nat list \<Rightarrow> int \<Rightarrow> 'e option \<Rightarrow> int list \<Rightarrow> ('e, 'a) retry_run"
where
  "retry_loop fn attempts max_delay is_permanent should_stop [] delay last_exc sl =
     \<lparr>outcome = (case last_exc of None \<Rightarrow> Assertion_failed | Some e \<Rightarrow> Raised e),
      calls = length sl, slept = sl\<rparr>"
| "retry_loop fn attempts max_delay is_permanent should_stop (i # is) delay last_exc sl =
     (case fn i of
        Inr x \<Rightarrow> \<lparr>outcome = Returned x, calls = Suc (length sl), slept = sl\<rparr>
      | Inl e \<Rightarrow>
          if classified_permanent is_permanent e \<or> int i = attempts - 1 \<or> told_to_stop should_stop i
          then \<lparr>outcome = Raised e, calls = Suc (length sl), slept = sl\<rparr>
          else retry_loop fn attempts max_delay is_permanent should_stop is
                 (min (delay * 2) max_delay) (Some e) (sl @ [min delay max_delay]))"

definition retry_with ::
  "(nat \<Rightarrow> 'e + 'a) \<Rightarrow> int \<Rightarrow> int \<Rightarrow> int \<Rightarrow> ('e \<Rightarrow> bool) option \<Rightarrow> (nat \<Rightarrow> bool) option \<Rightarrow>
   ('e, 'a) retry_run"
where
  "retry_with fn attempts base_delay max_delay is_permanent should_stop =
     retry_loop fn attempts max_delay is_permanent should_stop [0..<nat attempts] base_delay None []"

text \<open>The call as the object-store sources make it: default bounds, a classifier, no cancel hook.\<close>

definition retry_default :: "(nat \<Rightarrow> 'e + 'a) \<Rightarrow> ('e \<Rightarrow> bool) \<Rightarrow> ('e, 'a) retry_run" where
  "retry_default fn p = retry_with fn ATTEMPTS BASE_DELAY MAX_DELAY (Some p) None"

section \<open>Which attempt settles a call\<close>

text \<open>An outcome the loop carries on after: a transient error, not the last attempt, not cancelled.\<close>

definition retried ::
  "(nat \<Rightarrow> 'e + 'a) \<Rightarrow> ('e \<Rightarrow> bool) option \<Rightarrow> (nat \<Rightarrow> bool) option \<Rightarrow> nat \<Rightarrow> bool"
where
  "retried fn is_permanent should_stop i \<longleftrightarrow>
     (case fn i of Inr _ \<Rightarrow> False
      | Inl e \<Rightarrow> \<not> classified_permanent is_permanent e \<and> \<not> told_to_stop should_stop i)"

definition settled :: "'e + 'a \<Rightarrow> ('e, 'a) retry_result" where
  "settled r = (case r of Inl e \<Rightarrow> Raised e | Inr x \<Rightarrow> Returned x)"

definition backoff :: "int \<Rightarrow> int \<Rightarrow> nat \<Rightarrow> int" where
  "backoff base_delay max_delay j = min (base_delay * 2 ^ j) max_delay"

lemma backoff_Suc: "0 \<le> m \<Longrightarrow> 0 \<le> b \<Longrightarrow> min (backoff b m j * 2) m = backoff b m (Suc j)"
  by (auto simp: backoff_def min_def)

lemma retry_loop_settles:
  assumes "0 \<le> b" and "0 \<le> m" and "k < nat attempts"
    and "sl = map (backoff b m) [0..<k]" and "min delay m = backoff b m k"
    and "min (delay * 2) m = backoff b m (Suc k)"
  shows "\<exists>i. k \<le> i \<and> i < nat attempts \<and>
      (\<forall>j. k \<le> j \<and> j < i \<longrightarrow> retried fn p q j) \<and>
      (i = nat attempts - 1 \<or> \<not> retried fn p q i) \<and>
      retry_loop fn attempts m p q [k..<nat attempts] delay l sl =
        \<lparr>outcome = settled (fn i), calls = Suc i, slept = map (backoff b m) [0..<i]\<rparr>"
  using assms
proof (induction "nat attempts - k" arbitrary: k delay l sl)
  case 0
  then show ?case by simp
next
  case (Suc n)
  have upt: "[k..<nat attempts] = k # [Suc k..<nat attempts]"
    using Suc.prems(3) by (rule upt_conv_Cons)
  show ?case
  proof (cases "retried fn p q k \<and> int k \<noteq> attempts - 1")
    case False
    then have "k = nat attempts - 1 \<or> \<not> retried fn p q k" by auto
    moreover have "retry_loop fn attempts m p q [k..<nat attempts] delay l sl =
        \<lparr>outcome = settled (fn k), calls = Suc k, slept = map (backoff b m) [0..<k]\<rparr>"
      using False Suc.prems(4) upt by (auto simp: retried_def settled_def split: sum.splits)
    ultimately show ?thesis using Suc.prems(3) by (intro exI [of _ k]) auto
  next
    case True
    then obtain e where e: "fn k = Inl e" "\<not> classified_permanent p e" "\<not> told_to_stop q k"
      by (auto simp: retried_def split: sum.splits)
    let ?d = "min (delay * 2) m"
    let ?sl = "sl @ [min delay m]"
    have k: "Suc k < nat attempts" using True Suc.prems(3) by linarith
    have d: "?d = backoff b m (Suc k)" by (rule Suc.prems(6))
    then have "min ?d m = backoff b m (Suc k)" by (simp add: backoff_def)
    moreover have "min (?d * 2) m = backoff b m (Suc (Suc k))"
      unfolding d by (rule backoff_Suc) (use Suc.prems in auto)
    moreover have "?sl = map (backoff b m) [0..<Suc k]" using Suc.prems(4,5) by simp
    moreover have "n = nat attempts - Suc k" using Suc.hyps(2) by simp
    ultimately obtain i where i: "Suc k \<le> i" "i < nat attempts"
      "\<forall>j. Suc k \<le> j \<and> j < i \<longrightarrow> retried fn p q j" "i = nat attempts - 1 \<or> \<not> retried fn p q i"
      "retry_loop fn attempts m p q [Suc k..<nat attempts] ?d (Some e) ?sl =
        \<lparr>outcome = settled (fn i), calls = Suc i, slept = map (backoff b m) [0..<i]\<rparr>"
      using Suc.hyps(1) [of "Suc k" ?sl ?d "Some e"] k Suc.prems(1,2) by auto
    have "retried fn p q j" if "k \<le> j" "j < i" for j
      using that i(3) True by (cases "j = k") auto
    then show ?thesis
      using i e True upt by (intro exI [of _ i]) auto
  qed
qed

lemma retry_with_run:
  assumes "0 < attempts" and "0 \<le> b" and "0 \<le> m"
  obtains i where "i < nat attempts" and "\<forall>j < i. retried fn p q j"
    and "i = nat attempts - 1 \<or> \<not> retried fn p q i"
    and "retry_with fn attempts b m p q =
      \<lparr>outcome = settled (fn i), calls = Suc i, slept = map (backoff b m) [0..<i]\<rparr>"
proof -
  have "min b m = backoff b m 0" by (simp add: backoff_def)
  moreover have "min (b * 2) m = backoff b m (Suc 0)" by (simp add: backoff_def)
  ultimately show ?thesis
    using that retry_loop_settles [of b m 0 attempts "[]" b fn p q None] assms
    by (auto simp: retry_with_def)
qed

text \<open>A call settles at some attempt \<open>i\<close> within the bound: every earlier attempt failed with a
  transient error and was not cancelled, and \<open>i\<close> either succeeded, failed permanently, was cancelled or
  was the last one. The result is that attempt's, after \<open>i + 1\<close> calls and the doubled, capped delays.\<close>

theorem retry_with_settles:
  assumes "0 < attempts" and "0 \<le> base_delay" and "0 \<le> max_delay"
  shows "\<exists>i < nat attempts.
      (\<forall>j < i. retried fn is_permanent should_stop j) \<and>
      (i = nat attempts - 1 \<or> \<not> retried fn is_permanent should_stop i) \<and>
      retry_with fn attempts base_delay max_delay is_permanent should_stop =
        \<lparr>outcome = settled (fn i), calls = Suc i,
         slept = map (backoff base_delay max_delay) [0..<i]\<rparr>"
  using retry_with_run [OF assms, of fn is_permanent should_stop] by metis

theorem retry_with_settles_witness:
  "\<exists>i < nat 3.
      (\<forall>j < i. retried (\<lambda>i. if i = 1 then Inr ''ok'' else Inl (503::int)) (Some (\<lambda>c. c = 404)) None j) \<and>
      (i = nat 3 - 1 \<or>
        \<not> retried (\<lambda>i. if i = 1 then Inr ''ok'' else Inl (503::int)) (Some (\<lambda>c. c = 404)) None i) \<and>
      retry_with (\<lambda>i. if i = 1 then Inr ''ok'' else Inl (503::int)) 3 50 800 (Some (\<lambda>c. c = 404)) None =
        \<lparr>outcome = settled (if i = 1 then Inr ''ok'' else Inl (503::int)), calls = Suc i,
         slept = map (backoff 50 800) [0..<i]\<rparr>"
  by (rule retry_with_settles) simp_all

section \<open>Consequences\<close>

lemma retry_default_run:
  obtains i where "i < 6" and "\<forall>j < i. retried fn (Some p) None j"
    and "i = 5 \<or> \<not> retried fn (Some p) None i"
    and "retry_default fn p =
      \<lparr>outcome = settled (fn i), calls = Suc i, slept = map (backoff 50 800) [0..<i]\<rparr>"
proof (rule retry_with_run [of 6 50 800 fn "Some p" None])
  fix i
  assume "i < nat 6" and "\<forall>j < i. retried fn (Some p) None j"
    and "i = nat 6 - 1 \<or> \<not> retried fn (Some p) None i"
    and "retry_with fn 6 50 800 (Some p) None =
      \<lparr>outcome = settled (fn i), calls = Suc i, slept = map (backoff 50 800) [0..<i]\<rparr>"
  then show thesis
    by (intro that [of i]) (simp_all add: retry_default_def ATTEMPTS_def BASE_DELAY_def MAX_DELAY_def)
qed simp_all

lemma backoff_sum:
  assumes "i < 6"
  shows "sum_list (map (backoff 50 800) [0..<i]) \<le> 1550"
proof -
  have "i = 0 \<or> i = 1 \<or> i = 2 \<or> i = 3 \<or> i = 4 \<or> i = 5" using assms by linarith
  then show ?thesis by (elim disjE) (simp_all add: backoff_def upt_rec numeral_eq_Suc)
qed

text \<open>With the default bounds an object is tried at most six times and never holds the reconcile
  up for more than 1.55 s of backoff; a success is returned as soon as it comes, and a permanent
  error is raised at once.\<close>

theorem retry_default_bounds:
  "calls (retry_default fn p) \<le> 6 \<and> sum_list (slept (retry_default fn p)) \<le> 1550 \<and>
   (case outcome (retry_default fn p) of
      Returned x \<Rightarrow> fn (calls (retry_default fn p) - 1) = Inr x
    | Raised e \<Rightarrow> fn (calls (retry_default fn p) - 1) = Inl e \<and> (p e \<or> calls (retry_default fn p) = 6)
    | Assertion_failed \<Rightarrow> False)"
proof -
  obtain i where i: "i < 6" "i = 5 \<or> \<not> retried fn (Some p) None i"
    "retry_default fn p =
      \<lparr>outcome = settled (fn i), calls = Suc i, slept = map (backoff 50 800) [0..<i]\<rparr>"
    using retry_default_run [of fn p] by blast
  then show ?thesis
    using backoff_sum [OF i(1)]
    by (auto simp: settled_def retried_def classified_permanent_def told_to_stop_def split: sum.splits)
qed

text \<open>The assertion behind the loop is reached exactly when no attempt is allowed.\<close>

lemma retry_with_no_attempts:
  "attempts \<le> 0 \<Longrightarrow>
    retry_with fn attempts b m p q = \<lparr>outcome = Assertion_failed, calls = 0, slept = []\<rparr>"
  by (simp add: retry_with_def)

text \<open>
  What a caller of \<open>retry_default\<close> sees: the value of the settling attempt, or its exception.
\<close>

definition retry_value :: "(nat \<Rightarrow> 'e + 'a) \<Rightarrow> ('e \<Rightarrow> bool) \<Rightarrow> 'e + 'a" where
  "retry_value fn p = (fn (calls (retry_default fn p) - 1))"

lemma retry_value_cases:
  obtains i where "i < 6" and "\<forall>j < i. retried fn (Some p) None j"
    and "i = 5 \<or> \<not> retried fn (Some p) None i" and "retry_value fn p = fn i"
    and "outcome (retry_default fn p) = settled (fn i)"
proof (rule retry_default_run [of fn p])
  fix i
  assume "i < 6" and "\<forall>j < i. retried fn (Some p) None j" and "i = 5 \<or> \<not> retried fn (Some p) None i"
    and "retry_default fn p =
      \<lparr>outcome = settled (fn i), calls = Suc i, slept = map (backoff 50 800) [0..<i]\<rparr>"
  then show thesis by (intro that [of i]) (simp_all add: retry_value_def)
qed

lemma retry_value_outcome: "outcome (retry_default fn p) = settled (retry_value fn p)"
  using retry_value_cases [of fn p] by metis

lemma retry_value_first:
  assumes x: "fn 0 = Inr x"
  shows "retry_value fn p = Inr x"
proof (rule retry_value_cases [of fn p])
  fix i
  assume before: "\<forall>j < i. retried fn (Some p) None j"
    and v: "retry_value fn p = fn i"
  have "i = 0" using x before by (cases i) (auto simp: retried_def)
  with v x show ?thesis by simp
qed

end
