(* ===== verification/Reconcile.thy ===== *)
theory Reconcile
  imports Builder_Properties
begin

text \<open>
  \<open>reconcile.py\<close>: one pass over everything a source lists. Unchanged objects are recognised by their
  fingerprint and skipped without reading, the others are read (on a thread pool, so in any order)
  and applied one by one, then the rows of objects that are not listed are deleted and the build is
  stamped.
\<close>

section \<open>The pass\<close>

record tally =
  t_cataloged :: nat
  t_skipped :: nat
  t_failed :: nat
  t_deleted :: nat

definition empty_tally :: tally where
  "empty_tally = \<lparr>t_cataloged = 0, t_skipped = 0, t_failed = 0, t_deleted = 0\<rparr>"

text \<open>\<open>tally[status] += 1\<close>.\<close>

fun count_status :: "status \<Rightarrow> tally \<Rightarrow> tally" where
  "count_status Cataloged t = t\<lparr>t_cataloged := t_cataloged t + 1\<rparr>"
| "count_status Skipped t = t\<lparr>t_skipped := t_skipped t + 1\<rparr>"
| "count_status Failed t = t\<lparr>t_failed := t_failed t + 1\<rparr>"

definition composite_ids :: "caches \<Rightarrow> dims \<Rightarrow> ident option" where
  "composite_ids c ds = do {
     cid \<leftarrow> c_customer c (dim_customer ds);
     sid \<leftarrow> c_site c (cid, dim_site ds);
     rid \<leftarrow> c_robot c (sid, dim_robot ds);
     srcid \<leftarrow> c_source c (dim_source ds);
     Some ((cid, sid, rid, srcid), dim_date ds, dim_filename ds)
   }"

definition stored_etags :: "db \<Rightarrow> ident \<rightharpoonup> string" where
  "stored_etags d = fold (\<lambda>r m. m(f_ident r \<mapsto> ff_etag (f_facts r))) (files d) Map.empty"

text \<open>What the classification of the listings leaves: the tally, \<open>dims_by_key\<close> and \<open>to_extract\<close>.\<close>

type_synonym job = "string \<times> stat \<times> dims \<times> string"

record classified =
  cl_tally :: tally
  cl_dims :: "string \<rightharpoonup> dims"
  cl_jobs :: "job list"

definition nothing_classified :: classified where
  "nothing_classified = \<lparr>cl_tally = empty_tally, cl_dims = Map.empty, cl_jobs = []\<rparr>"

definition classify ::
  "'s source \<Rightarrow> (ident \<rightharpoonup> string) \<Rightarrow> listing \<Rightarrow> classified \<Rightarrow> (writer, classified) op"
where
  "classify source etags lst cl =
     (case resolve_key_dims source (lst_key lst) of
        None \<Rightarrow>
          bind_op (record_failure (lst_key lst) ''unparseable key'') (\<lambda>_.
          bind_op commit_op (\<lambda>_.
          return_op (cl\<lparr>cl_tally := count_status Failed (cl_tally cl)\<rparr>)))
      | Some (dims, eff_key) \<Rightarrow> (\<lambda>w.
          let cl = cl\<lparr>cl_dims := (cl_dims cl)(lst_key lst \<mapsto> dims)\<rparr> in
          if (case composite_ids (cache w) dims of
                None \<Rightarrow> False | Some ident \<Rightarrow> etags ident = Some (st_etag (lst_stat lst)))
          then (Inr (cl\<lparr>cl_tally := count_status Skipped (cl_tally cl)\<rparr>), w)
          else (Inr (cl\<lparr>cl_jobs := cl_jobs cl @ [(lst_key lst, lst_stat lst, dims, eff_key)]\<rparr>), w)))"

text \<open>The jobs, in the order in which they are applied. \<open>as_completed\<close> yields the futures in the order in
  which they finish: \<open>completion\<close> is that order, some permutation of the jobs. A read touches neither
  database nor caches, so reading is a pure function of the job.\<close>

definition extract_job :: "('s \<Rightarrow> exn + mcap_summary option) \<Rightarrow> 's source \<Rightarrow> job \<Rightarrow> extracted" where
  "extract_job get_summary source = (\<lambda>(key, st, dims, eff_key).
     extract_summary get_summary source key st dims eff_key)"

definition apply_job :: "('s \<Rightarrow> exn + mcap_summary option) \<Rightarrow> 's source \<Rightarrow> job \<Rightarrow> tally \<Rightarrow> (writer, tally) op" where
  "apply_job get_summary source job t =
     bind_op (apply_extract (extract_job get_summary source job)) (\<lambda>r.
     return_op (count_status (res_status r) t))"

definition run_jobs ::
  "('s \<Rightarrow> exn + mcap_summary option) \<Rightarrow> (job list \<Rightarrow> job list) \<Rightarrow> 's source \<Rightarrow> int \<Rightarrow> job list \<Rightarrow> tally \<Rightarrow> (writer, tally) op"
where
  "run_jobs get_summary completion source workers jobs =
     fold_op (apply_job get_summary source)
       (if workers > 1 \<and> length jobs > 1 then completion jobs else jobs)"

definition present_idents :: "caches \<Rightarrow> (string \<rightharpoonup> dims) \<Rightarrow> listing list \<Rightarrow> ident set" where
  "present_idents c dims_by_key listings =
     set (List.map_filter
       (\<lambda>lst. case dims_by_key (lst_key lst) of None \<Rightarrow> None | Some dims \<Rightarrow> composite_ids c dims) listings)"

definition sweep_row :: "ident set \<Rightarrow> file_row \<Rightarrow> tally \<Rightarrow> (writer, tally) op" where
  "sweep_row present r t =
     (if f_ident r \<notin> present
      then bind_op (exec (delete_files (\<lambda>r'. f_id r' = f_id r))) (\<lambda>_.
        return_op (t\<lparr>t_deleted := t_deleted t + 1\<rparr>))
      else return_op t)"

definition full_reconcile ::
  "('s \<Rightarrow> exn + mcap_summary option) \<Rightarrow> (job list \<Rightarrow> job list) \<Rightarrow> 's source \<Rightarrow> int \<Rightarrow> (writer, tally) op"
where
  "full_reconcile get_summary completion source workers =
     bind_op (lift_result (src_list source)) (\<lambda>listings.
     bind_op (query stored_etags) (\<lambda>etags.
     bind_op (fold_op (classify source etags) listings nothing_classified) (\<lambda>cl.
     bind_op (run_jobs get_summary completion source workers (cl_jobs cl) (cl_tally cl)) (\<lambda>t w.
     let present = present_idents (cache w) (cl_dims cl) listings in
     bind_op (query files) (\<lambda>rows.
     bind_op (fold_op (sweep_row present) rows t) (\<lambda>t.
     bind_op commit_op (\<lambda>_.
     bind_op (record_build (int (t_cataloged t + t_skipped t)) (int (t_failed t))
         (if t_failed t \<noteq> 0 then ''partial'' else ''ok'')) (\<lambda>_.
     return_op t)))) w))))"

section \<open>Statements, transactions and the clock\<close>

text \<open>A sequence of statements changes the working database and the caches: it commits nothing and, like every
  operation, reads the clock without setting it.\<close>

definition statements :: "(writer, 'a) op \<Rightarrow> bool" where
  "statements m \<longleftrightarrow> (\<forall>w. ticks (snd (m w)) = ticks w \<and> committed (snd (m w)) = committed w \<and>
     versions (snd (m w)) = versions w)"

definition keeps_clock :: "(writer, 'a) op \<Rightarrow> bool" where
  "keeps_clock m \<longleftrightarrow> (\<forall>w. ticks (snd (m w)) = ticks w)"

named_theorems txn_rules \<open>operations that are sequences of statements\<close>
named_theorems clock_rules \<open>operations that keep the clock\<close>

lemma statementsD:
  assumes "statements m" and "m w = (r, w')"
  shows "committed w' = committed w" "versions w' = versions w" "ticks w' = ticks w"
  using assms unfolding statements_def by (metis snd_conv)+

lemma keeps_clockD: "keeps_clock m \<Longrightarrow> m w = (r, w') \<Longrightarrow> ticks w' = ticks w"
  unfolding keeps_clock_def by (metis snd_conv)

lemma statements_clock: "statements m \<Longrightarrow> keeps_clock m"
  by (simp add: statements_def keeps_clock_def)

lemma statements_basic [txn_rules]:
  "statements (return_op x)" "statements (raise_op e)" "statements (exec f)" "statements (query q)"
  "statements (exec_check g)" "statements now_ns" "statements reload_caches" "statements (lift_result r)"
  by (auto simp: statements_def exec_def query_def exec_check_def now_ns_def reload_caches_def
      lift_result_def split: sum.splits)

lemma statements_bind [txn_rules]:
  assumes "statements m" and "\<And>x. statements (f x)"
  shows "statements (bind_op m f)"
  unfolding statements_def
proof
  fix w
  obtain r w1 where m: "m w = (r, w1)" by fastforce
  show "ticks (snd (bind_op m f w)) = ticks w \<and> committed (snd (bind_op m f w)) = committed w \<and>
      versions (snd (bind_op m f w)) = versions w"
    using statementsD [OF assms(1) m] assms(2) by (cases r) (simp_all add: bind_op_def m statements_def)
qed

lemma statements_fold [txn_rules]:
  assumes "\<And>x a. statements (f x a)"
  shows "statements (fold_op f xs a)"
  by (induction xs arbitrary: a) (auto intro!: txn_rules assms)

lemma statements_resolve_row: "statements (resolve_row fk t tu c cu k)"
  by (auto simp: statements_def resolve_row_def Let_def split: option.splits)

lemma statements_resolvers [txn_rules]:
  "statements (resolve_customer a)" "statements (resolve_source a)" "statements (resolve_topic a)"
  "statements (resolve_site i a)" "statements (resolve_robot i a)" "statements (resolve_schema a b)"
  by (simp_all add: resolver_defs statements_resolve_row)

lemma statements_resolve_topic_set [txn_rules]: "statements (resolve_topic_set fp ms)"
proof -
  have "statements (bind_op (exec f) (\<lambda>_. bind_op (query q) (\<lambda>row. case row of
      None \<Rightarrow> raise_op row_is_none
    | Some i \<Rightarrow> bind_op (fold_op (\<lambda>m _. exec_check (insert_member i m)) ms ())
        (\<lambda>_ w. (Inr i, w\<lparr>cache := (cache w)\<lparr>c_topic_set := (c_topic_set (cache w))(fp \<mapsto> i)\<rparr>\<rparr>)))))" for f q
    by (auto intro!: txn_rules split: option.splits simp: statements_def [of "\<lambda>w. (_, w\<lparr>cache := _ w\<rparr>)"])
  then show ?thesis
    unfolding statements_def by (auto simp: resolve_topic_set_def split: option.splits)
qed

lemma statements_builder [txn_rules]:
  "statements (record_failure key err)" "statements (composite_row ids ds)" "statements (add_channel ch bt)"
  by (auto intro!: txn_rules simp: record_failure_def composite_row_def add_channel_def)

lemma statements_file_txn [txn_rules]: "statements (file_txn ds key ids st summary)"
  by (auto intro!: txn_rules simp: file_txn_def Let_def split: option.splits)

lemma keeps_clock_basic [clock_rules]:
  "keeps_clock (return_op x)" "keeps_clock (raise_op e)" "keeps_clock (exec f)" "keeps_clock (query q)"
  "keeps_clock (exec_check g)" "keeps_clock commit_op" "keeps_clock now_ns" "keeps_clock reload_caches"
  "keeps_clock (lift_result r)"
  by (rule statements_clock, rule statements_basic | simp add: keeps_clock_def commit_op_def)+

lemma keeps_clock_bind [clock_rules]:
  assumes "keeps_clock m" and "\<And>x. keeps_clock (f x)"
  shows "keeps_clock (bind_op m f)"
  using assms by (auto simp: keeps_clock_def bind_op_def split: prod.splits sum.splits) (metis snd_conv)+

lemma keeps_clock_fold [clock_rules]:
  assumes "\<And>x a. keeps_clock (f x a)"
  shows "keeps_clock (fold_op f xs a)"
  by (induction xs arbitrary: a) (auto intro!: clock_rules assms)

lemma keeps_clock_with_conn [clock_rules]: "keeps_clock m \<Longrightarrow> keeps_clock (with_conn m)"
  by (auto simp: keeps_clock_def with_conn_def rollback_def split: prod.splits sum.splits) (metis snd_conv)+

lemma keeps_clock_builder [clock_rules]:
  "keeps_clock (resolve_ids ds)" "keeps_clock (record_failure key err)" "keeps_clock (composite_row ids ds)"
  "keeps_clock (quarantine_existing ids ds key err)" "keeps_clock (file_txn ds key ids st summary)"
proof -
  show "keeps_clock (resolve_ids ds)"
    unfolding resolve_ids_def by (intro clock_rules statements_clock [OF statements_resolvers(1)]
        statements_clock [OF statements_resolvers(2)] statements_clock [OF statements_resolvers(4)]
        statements_clock [OF statements_resolvers(5)])
  show noted: "keeps_clock (record_failure key err)" "keeps_clock (composite_row ids ds)" for key err ids ds
    by (rule statements_clock, rule txn_rules)+
  then show "keeps_clock (quarantine_existing ids ds key err)"
    unfolding quarantine_existing_def by (intro clock_rules)
  show "keeps_clock (file_txn ds key ids st summary)" by (rule statements_clock [OF statements_file_txn])
qed

lemma keeps_clock_write_file_row [clock_rules]: "keeps_clock (write_file_row ds key ids st summary)"
proof -
  have txn: "keeps_clock (with_conn (file_txn ds key ids st summary))"
    and rest: "keeps_clock (bind_op reload_caches (\<lambda>_. bind_op (quarantine_existing ids ds key (exn_text e))
      (\<lambda>_. return_op (failed (exn_msg e)))))" for e
    by (intro clock_rules)+
  show ?thesis
    unfolding keeps_clock_def write_file_row_def
    using keeps_clockD [OF txn] rest [unfolded keeps_clock_def]
    by (auto split: prod.splits sum.splits)
qed

lemma keeps_clock_apply_extract [clock_rules]: "keeps_clock (apply_extract ex)"
  by (cases ex) (auto intro!: clock_rules simp: apply_extract_def Let_def)

section \<open>What a verdict does to the file it is about\<close>

text \<open>Everything the catalog holds about one file and one failure key.\<close>

definition same_at :: "dims \<Rightarrow> string \<Rightarrow> catalog \<Rightarrow> catalog \<Rightarrow> bool" where
  "same_at ds eff c c' \<longleftrightarrow>
     cat_files c' ds = cat_files c ds \<and> cat_topics c' ds = cat_topics c ds \<and>
     cat_embedded c' ds = cat_embedded c ds \<and> cat_override c' ds = cat_override c ds \<and>
     cat_failures c' eff = cat_failures c eff"

text \<open>What the catalog says afterwards about a file with a given verdict: catalogued with the row of the
  summary, its id and overrides kept; or quarantined; or as it was.\<close>

fun verdict_effect :: "verdict \<Rightarrow> dims \<Rightarrow> string \<Rightarrow> catalog \<Rightarrow> catalog \<Rightarrow> bool" where
  "verdict_effect (Accepted _ _ st summary) ds eff c c' \<longleftrightarrow>
     (\<exists>f now. cat_files c' ds = Some f \<and> row_written st summary now (cat_files c ds) f) \<and>
     cat_override c' ds = cat_override c ds \<and> cat_failures c' eff = None"
| "verdict_effect (Unreadable _ _ _) ds eff c c' \<longleftrightarrow> cat_files c' ds = None \<and> cat_failures c' eff \<noteq> None"
| "verdict_effect (Rejected _ _) ds eff c c' \<longleftrightarrow> cat_files c' ds = None \<and> cat_failures c' eff \<noteq> None"
| "verdict_effect _ ds eff c c' \<longleftrightarrow> same_at ds eff c c'"

text \<open>The file and the failure key a verdict is about.\<close>

fun verdict_on :: "verdict \<Rightarrow> dims \<Rightarrow> string \<Rightarrow> bool" where
  "verdict_on (Accepted ds eff _ _) ds' eff' \<longleftrightarrow> ds' = ds \<and> eff' = eff"
| "verdict_on (Unreadable ds eff _) ds' eff' \<longleftrightarrow> ds' = ds \<and> eff' = eff"
| "verdict_on (Rejected ds eff) ds' eff' \<longleftrightarrow> ds' = ds \<and> eff' = eff"
| "verdict_on Gone _ _ \<longleftrightarrow> True"
| "verdict_on _ _ _ \<longleftrightarrow> False"

lemma same_at_trans: "same_at ds eff c c' \<Longrightarrow> same_at ds eff c' c'' \<Longrightarrow> same_at ds eff c c''"
  by (simp add: same_at_def)

lemma step_effect: "catalog_step c v c' \<Longrightarrow> verdict_on v ds eff \<Longrightarrow> verdict_effect v ds eff c c'"
  by (cases rule: catalog_step.cases, assumption)
    (auto simp: put_file_def drop_files_def note_failure_def same_at_def)

lemma step_elsewhere:
  "catalog_step c v c' \<Longrightarrow> verdict_on v ds eff \<Longrightarrow> ds' \<noteq> ds \<Longrightarrow> eff' \<noteq> eff \<Longrightarrow> same_at ds' eff' c c'"
  by (cases rule: catalog_step.cases, assumption)
    (auto simp: put_file_def drop_files_def note_failure_def same_at_def)

lemma step_build: "catalog_step c v c' \<Longrightarrow> cat_build c' = cat_build c"
  by (cases rule: catalog_step.cases, assumption) (auto simp: put_file_def drop_files_def note_failure_def)

lemma effect_after_same: "same_at ds eff c c1 \<Longrightarrow> verdict_effect v ds eff c1 c' \<Longrightarrow> verdict_effect v ds eff c c'"
  by (cases v) (auto simp: same_at_def)

lemma effect_before_same: "verdict_effect v ds eff c c1 \<Longrightarrow> same_at ds eff c1 c' \<Longrightarrow> verdict_effect v ds eff c c'"
  by (cases v) (auto simp: same_at_def)

section \<open>Applying the jobs\<close>

fun job_dims :: "job \<Rightarrow> dims" where
  "job_dims (key, st, ds, eff) = ds"

fun job_eff :: "job \<Rightarrow> string" where
  "job_eff (key, st, ds, eff) = eff"

fun good_job :: "'s source \<Rightarrow> job \<Rightarrow> bool" where
  "good_job source (key, st, ds, eff) \<longleftrightarrow> resolve_key_dims source key = Some (ds, eff)"

definition sane_clock :: "writer \<Rightarrow> bool" where
  "sane_clock w \<longleftrightarrow> (\<forall>n. fits_sqlite (ticks w n) \<and> ticks w n \<noteq> 0)"

text \<open>With a clock that is past the epoch and whose readings SQLite can store, the verdict on a job does not depend on the time.\<close>

definition job_verdict :: "('s \<Rightarrow> exn + mcap_summary option) \<Rightarrow> 's source \<Rightarrow> job \<Rightarrow> verdict" where
  "job_verdict get_summary source job = judge_extract 0 (extract_job get_summary source job)"

lemma fits_zero [simp]: "fits_sqlite 0"
  by (simp add: fits_sqlite_def)

lemma judge_summary_now: "fits_sqlite now \<Longrightarrow> judge_summary now ds key st summary = judge_summary 0 ds key st summary"
  by (simp add: judge_summary_def acceptable_def)

lemma judge_extract_now: "sane_clock w \<Longrightarrow> judge_extract (ticks w n) ex = judge_extract 0 ex"
  by (cases ex) (simp_all add: sane_clock_def judge_summary_now [of "ticks w n"])

lemma judge_summary_on: "verdict_on (judge_summary now ds eff st summary) ds eff"
  by (simp add: judge_summary_def)

lemma job_verdict_on: "verdict_on (job_verdict get_summary source job) (job_dims job) (job_eff job)"
proof (cases job)
  case (fields key st ds eff)
  then show ?thesis
    by (cases "read_summary get_summary source key st")
      (simp_all add: job_verdict_def extract_job_def extract_summary_def Let_def judge_summary_on)
qed

lemma good_job_inject:
  assumes "good_job source j" and "good_job source j'" and "job_eff j = job_eff j'"
  shows "job_dims j = job_dims j'"
  using assms by (cases j; cases j') (auto simp: resolve_key_dims_Some simp del: trusted_dims_Some)

lemma jobs_apart:
  assumes "\<forall>j' \<in> set (j # js). good_job source j'" and "distinct (map job_dims (j # js))"
  shows "job_dims j \<notin> job_dims ` set js" and "job_eff j \<notin> job_eff ` set js"
    and "j' \<in> set js \<Longrightarrow> job_dims j' \<noteq> job_dims j \<and> job_eff j' \<noteq> job_eff j"
proof -
  show new: "job_dims j \<notin> job_dims ` set js" using assms(2) by simp
  have eff: "job_dims j' \<noteq> job_dims j \<and> job_eff j' \<noteq> job_eff j" if "j' \<in> set js" for j'
    using that new good_job_inject [of source j' j] assms(1) by (metis image_eqI list.set_intros)
  then show "job_eff j \<notin> job_eff ` set js" by (metis imageE)
  show "j' \<in> set js \<Longrightarrow> job_dims j' \<noteq> job_dims j \<and> job_eff j' \<noteq> job_eff j" by (rule eff)
qed

lemma apply_job_step:
  assumes s: "in_sync w" and "sane_clock w" and good: "good_job source job"
  obtains w' where
    "apply_job get_summary source job t w = (Inr (count_status (verdict_status (job_verdict get_summary source job)) t), w')"
    and "in_sync w'" and "sane_clock w'" and "extends (working w) (working w')"
    and "catalog_step (catalog_of (working w)) (job_verdict get_summary source job) (catalog_of (working w'))"
proof -
  let ?ex = "extract_job get_summary source job"
  have "extract_wf ?ex"
    using good by (cases job) (auto simp: extract_job_def intro: extract_summary_wf dest: resolve_key_dims_wf)
  then have "takes_step (apply_extract ?ex) w (job_verdict get_summary source job)"
    using apply_extract_takes_step [OF s] judge_extract_now [OF assms(2)] by (simp add: job_verdict_def)
  then obtain r w' where "apply_extract ?ex w = (Inr r, w')" "in_sync w'" "extends (working w) (working w')"
    "res_status r = verdict_status (job_verdict get_summary source job)"
    "catalog_step (catalog_of (working w)) (job_verdict get_summary source job) (catalog_of (working w'))"
    by (rule takes_stepE)
  moreover from this(1) have "ticks w' = ticks w" by (rule keeps_clockD [OF keeps_clock_apply_extract])
  then have "sane_clock w'" using assms(2) by (simp add: sane_clock_def)
  ultimately show ?thesis using that [of w'] by (simp add: apply_job_def)
qed

text \<open>A run of jobs on different files, in whatever order: each file ends as its job's verdict says.\<close>

lemma jobs_run:
  assumes "in_sync w" and "sane_clock w" and "\<And>j. j \<in> set jobs \<Longrightarrow> good_job source j"
    and "distinct (map job_dims jobs)"
  shows "\<exists>w'. fold_op (apply_job get_summary source) jobs t w =
      (Inr (fold (\<lambda>j. count_status (verdict_status (job_verdict get_summary source j))) jobs t), w') \<and>
    in_sync w' \<and> sane_clock w' \<and> extends (working w) (working w') \<and>
    build_metadata (working w') = build_metadata (working w) \<and>
    (\<forall>j \<in> set jobs. verdict_effect (job_verdict get_summary source j) (job_dims j) (job_eff j)
      (catalog_of (working w)) (catalog_of (working w'))) \<and>
    (\<forall>ds eff. ds \<notin> job_dims ` set jobs \<longrightarrow> eff \<notin> job_eff ` set jobs \<longrightarrow>
      same_at ds eff (catalog_of (working w)) (catalog_of (working w')))"
  using assms
proof (induction jobs arbitrary: w t)
  case Nil
  then show ?case by (simp add: same_at_def)
next
  case (Cons j js)
  let ?v = "job_verdict get_summary source"
  obtain w1 where w1: "apply_job get_summary source j t w = (Inr (count_status (verdict_status (?v j)) t), w1)"
    "in_sync w1" "sane_clock w1" "extends (working w) (working w1)"
    "catalog_step (catalog_of (working w)) (?v j) (catalog_of (working w1))"
    using apply_job_step [OF Cons.prems(1,2), where source = source and job = j and t = t] Cons.prems(3)
    by (metis list.set_intros(1))
  obtain w' where w': "fold_op (apply_job get_summary source) js (count_status (verdict_status (?v j)) t) w1 =
      (Inr (fold (\<lambda>j. count_status (verdict_status (?v j))) js (count_status (verdict_status (?v j)) t)), w')"
    "in_sync w'" "sane_clock w'" "extends (working w1) (working w')"
    "build_metadata (working w') = build_metadata (working w1)"
    and each: "\<forall>j \<in> set js. verdict_effect (?v j) (job_dims j) (job_eff j)
      (catalog_of (working w1)) (catalog_of (working w'))"
    and elsewhere: "\<forall>ds eff. ds \<notin> job_dims ` set js \<longrightarrow> eff \<notin> job_eff ` set js \<longrightarrow>
      same_at ds eff (catalog_of (working w1)) (catalog_of (working w'))"
    using Cons.IH [OF w1(2,3), where t = "count_status (verdict_status (?v j)) t"] Cons.prems(3,4) by auto
  have good: "\<forall>j' \<in> set (j # js). good_job source j'" using Cons.prems(3) by blast
  note apart = jobs_apart [OF good Cons.prems(4)]
  have step: "verdict_effect (?v j) (job_dims j) (job_eff j) (catalog_of (working w)) (catalog_of (working w1))"
    by (rule step_effect [OF w1(5) job_verdict_on])
  have other: "same_at ds e (catalog_of (working w)) (catalog_of (working w1))"
    if "ds \<noteq> job_dims j" "e \<noteq> job_eff j" for ds e
    by (rule step_elsewhere [OF w1(5) job_verdict_on that])
  have "verdict_effect (?v j') (job_dims j') (job_eff j') (catalog_of (working w)) (catalog_of (working w'))"
    if "j' \<in> set (j # js)" for j'
  proof (cases "j' = j")
    case True
    then show ?thesis
      using effect_before_same [OF step elsewhere [rule_format, OF apart(1,2)]] by simp
  next
    case False
    then have j': "j' \<in> set js" using that by simp
    then have "same_at (job_dims j') (job_eff j') (catalog_of (working w)) (catalog_of (working w1))"
      using apart(3) [OF j'] by (intro other) simp_all
    then show ?thesis using effect_after_same each j' by blast
  qed
  moreover have "same_at ds e (catalog_of (working w)) (catalog_of (working w'))"
    if "ds \<notin> job_dims ` set (j # js)" "e \<notin> job_eff ` set (j # js)" for ds e
    by (rule same_at_trans [OF other]) (use that elsewhere in auto)
  moreover have "build_metadata (working w1) = build_metadata (working w)"
    using step_build [OF w1(5)] by simp
  ultimately show ?case
    using w1 w' extends_trans by (intro exI [of _ w']) (auto simp: bind_op_def)
qed

section \<open>Classifying the listings\<close>

lemma composite_ids_ident:
  "coherent w \<Longrightarrow> composite_ids (cache w) ds = ident_of (working w) ds"
  by (simp add: coherent_def load_caches_def composite_ids_def ident_of_def lookup_ids_def ident_for_def
      map_option_case split: bind_splits option.splits)

lemma stored_etags_at:
  assumes "distinct (map f_ident (files d))"
  shows "stored_etags d i = map_option (\<lambda>r. ff_etag (f_facts r)) (select_file i d)"
proof -
  have run: "fold (\<lambda>r m. m(f_ident r \<mapsto> ff_etag (f_facts r))) rs m i =
      (case find (\<lambda>r. f_ident r = i) rs of None \<Rightarrow> m i | Some r \<Rightarrow> Some (ff_etag (f_facts r)))"
    if "distinct (map f_ident rs)" for rs m
    using that
  proof (induction rs arbitrary: m)
    case (Cons r rs)
    then have "f_ident r = i \<Longrightarrow> find (\<lambda>r. f_ident r = i) rs = None" by (auto simp: find_key_None)
    with Cons show ?case by (auto split: option.splits)
  qed simp
  show ?thesis
    unfolding stored_etags_def select_file_def run [OF assms] by (simp split: option.splits)
qed

lemma stored_test:
  assumes wf: "db_wf d" and "coherent w" and "names (working w) = names d"
  shows "(case composite_ids (cache w) ds of None \<Rightarrow> False | Some i \<Rightarrow> stored_etags d i = Some (st_etag st)) \<longleftrightarrow>
    unchanged_in (catalog_of d) ds st"
proof -
  have "composite_ids (cache w) ds = ident_of d ds"
    using composite_ids_ident [OF assms(2)] names_frame(1) [OF assms(3)] by simp
  moreover have "distinct (map f_ident (files d))" using wf by (simp add: db_wf_def files_wf_def)
  ultimately show ?thesis
    by (auto simp: unchanged_in_def file_at_def stored_etags_at split: option.splits)
qed

text \<open>What becomes of a listing, given the catalog before the pass.\<close>

definition listing_job :: "'s source \<Rightarrow> catalog \<Rightarrow> listing \<Rightarrow> job option" where
  "listing_job source c lst =
     (case resolve_key_dims source (lst_key lst) of
        None \<Rightarrow> None
      | Some (ds, eff) \<Rightarrow>
          if unchanged_in c ds (lst_stat lst) then None else Some (lst_key lst, lst_stat lst, ds, eff))"

definition unparseable :: "'s source \<Rightarrow> listing \<Rightarrow> bool" where
  "unparseable source lst \<longleftrightarrow> resolve_key_dims source (lst_key lst) = None"

definition known_listing :: "'s source \<Rightarrow> catalog \<Rightarrow> listing \<Rightarrow> bool" where
  "known_listing source c lst \<longleftrightarrow>
     (case resolve_key_dims source (lst_key lst) of
        None \<Rightarrow> False | Some (ds, eff) \<Rightarrow> unchanged_in c ds (lst_stat lst))"

definition dims_in :: "'s source \<Rightarrow> listing list \<Rightarrow> string \<rightharpoonup> dims" where
  "dims_in source listings key =
     (if key \<in> lst_key ` set listings then map_option fst (resolve_key_dims source key) else None)"

definition classified_as :: "'s source \<Rightarrow> catalog \<Rightarrow> listing list \<Rightarrow> classified" where
  "classified_as source c ls =
     \<lparr>cl_tally = \<lparr>t_cataloged = 0, t_skipped = length (filter (known_listing source c) ls),
        t_failed = length (filter (unparseable source) ls), t_deleted = 0\<rparr>,
      cl_dims = dims_in source ls,
      cl_jobs = List.map_filter (listing_job source c) ls\<rparr>"

text \<open>Only failures have been noted so far.\<close>

definition noted_only :: "string set \<Rightarrow> catalog \<Rightarrow> catalog \<Rightarrow> bool" where
  "noted_only bad c c' \<longleftrightarrow>
     c'\<lparr>cat_failures := Map.empty\<rparr> = c\<lparr>cat_failures := Map.empty\<rparr> \<and>
     (\<forall>k. (k \<in> bad \<longrightarrow> cat_failures c' k \<noteq> None) \<and> (k \<notin> bad \<longrightarrow> cat_failures c' k = cat_failures c k))"

lemma noted_only_same:
  assumes "noted_only bad c c'"
  shows "cat_files c' = cat_files c" and "cat_topics c' = cat_topics c" and "cat_embedded c' = cat_embedded c"
    and "cat_override c' = cat_override c" and "cat_build c' = cat_build c"
  using assms unfolding noted_only_def by (cases c; cases c'; simp)+

lemma noted_only_same_at: "noted_only bad c c' \<Longrightarrow> eff \<notin> bad \<Longrightarrow> same_at ds eff c c'"
  using noted_only_same [of bad c c'] by (simp add: same_at_def) (simp add: noted_only_def)

lemma noted_only_refl: "noted_only {} c c"
  by (simp add: noted_only_def)

lemma noted_only_note:
  "noted_only bad c c' \<Longrightarrow> noted_only (insert k bad) c (note_failure k info c')"
  by (auto simp: noted_only_def note_failure_def)

lemma fold_op_append: "fold_op f (xs @ ys) a = bind_op (fold_op f xs a) (fold_op f ys)"
proof (induction xs arbitrary: a)
  case (Cons x xs)
  show ?case
    by (rule ext) (simp add: Cons.IH bind_op_def split: prod.splits sum.splits)
qed (simp add: bind_op_def)

lemma classify_step:
  assumes s: "in_sync w" and "sane_clock w" and wf: "db_wf d" and names: "names (working w) = names d"
  shows "\<exists>w'. classify source (stored_etags d) l (classified_as source (catalog_of d) ls) w =
      (Inr (classified_as source (catalog_of d) (ls @ [l])), w') \<and>
    in_sync w' \<and> sane_clock w' \<and> names (working w') = names d \<and>
    (\<forall>bad. noted_only bad c (catalog_of (working w)) \<longrightarrow>
      noted_only (bad \<union> lst_key ` set (filter (unparseable source) [l])) c (catalog_of (working w')))"
proof (cases "resolve_key_dims source (lst_key l)")
  case None
  let ?cl = "classified_as source (catalog_of d)"
  have cl: "?cl (ls @ [l]) = (?cl ls)\<lparr>cl_tally := count_status Failed (cl_tally (?cl ls))\<rparr>"
    using None
    by (auto simp: classified_as_def unparseable_def known_listing_def listing_job_def dims_in_def map_filter_def fun_eq_iff)
  obtain w' where w': "bind_op (record_failure (lst_key l) ''unparseable key'') (\<lambda>_. bind_op commit_op
      (\<lambda>_. return_op (?cl (ls @ [l])))) w = (Inr (?cl (ls @ [l])), w')"
    "in_sync w'" "names (working w') = names (working w)"
    "catalog_of (working w') = note_failure (lst_key l) (ticks w (reads w), ''unparseable key'') (catalog_of (working w))"
    by (rule note_failure_in_sync [OF s])
  have "ticks w' = ticks w"
    using w'(1) by (rule keeps_clockD [rotated]) (intro clock_rules)
  then show ?thesis
    using None w' cl assms(2) names
    by (intro exI [of _ w']) (auto simp: classify_def sane_clock_def unparseable_def noted_only_note)
next
  case (Some r)
  then obtain ds eff where r: "resolve_key_dims source (lst_key l) = Some (ds, eff)" by (cases r) auto
  have dims: "dims_in source (ls @ [l]) = (dims_in source ls)(lst_key l \<mapsto> ds)"
    using r by (auto simp: dims_in_def fun_eq_iff)
  note test = stored_test [OF wf in_syncD(1) [OF s] names, where ds = ds and st = "lst_stat l"]
  show ?thesis
    using r dims test s assms(2) names
    by (cases "unchanged_in (catalog_of d) ds (lst_stat l)")
      (auto simp: classify_def classified_as_def Let_def unparseable_def known_listing_def listing_job_def map_filter_def)
qed

lemma classify_all:
  assumes s: "in_sync w" and "sane_clock w"
  shows "\<exists>w'. fold_op (classify source (stored_etags (working w))) ls nothing_classified w =
      (Inr (classified_as source (catalog_of (working w)) ls), w') \<and>
    in_sync w' \<and> sane_clock w' \<and> names (working w') = names (working w) \<and>
    noted_only (lst_key ` set (filter (unparseable source) ls)) (catalog_of (working w)) (catalog_of (working w'))"
proof (induction ls rule: rev_induct)
  case Nil
  then show ?case
    using assms by (simp add: nothing_classified_def classified_as_def empty_tally_def dims_in_def
        map_filter_def noted_only_refl fun_eq_iff)
next
  case (snoc l ls)
  then obtain w1 where w1: "fold_op (classify source (stored_etags (working w))) ls nothing_classified w =
      (Inr (classified_as source (catalog_of (working w)) ls), w1)"
    "in_sync w1" "sane_clock w1" "names (working w1) = names (working w)"
    "noted_only (lst_key ` set (filter (unparseable source) ls)) (catalog_of (working w)) (catalog_of (working w1))"
    by blast
  have wf: "db_wf (working w)" using s by auto
  obtain w' where w': "classify source (stored_etags (working w)) l
      (classified_as source (catalog_of (working w)) ls) w1 =
      (Inr (classified_as source (catalog_of (working w)) (ls @ [l])), w')"
    "in_sync w'" "sane_clock w'" "names (working w') = names (working w)"
    "noted_only (lst_key ` set (filter (unparseable source) ls) \<union> lst_key ` set (filter (unparseable source) [l]))
      (catalog_of (working w)) (catalog_of (working w'))"
    using classify_step [OF w1(2,3) wf w1(4), where c = "catalog_of (working w)"] w1(5) by metis
  then show ?case
    using w1(1) by (intro exI [of _ w']) (simp add: fold_op_append image_Un)
qed

section \<open>The deletion sweep\<close>

lemma delete_files_none [simp]: "delete_files (\<lambda>r. False) d = d"
  by (simp add: delete_files_def case_prod_unfold)

lemma delete_files_build: "build_metadata (delete_files P d) = build_metadata d"
  by (simp add: delete_files_def Let_def)

lemma delete_files_twice:
  "delete_files P (delete_files Q d) = delete_files (\<lambda>r. Q r \<or> P r) d"
proof -
  have ids: "set (map f_id (filter (\<lambda>r. Q r \<or> P r) rs)) =
      set (map f_id (filter Q rs)) \<union> set (map f_id (filter P (filter (\<lambda>r. \<not> Q r) rs)))" for rs
    by auto
  have kept: "filter (\<lambda>r. \<not> (Q r \<or> P r)) rs = filter (\<lambda>r. \<not> P r) (filter (\<lambda>r. \<not> Q r) rs)" for rs
    by (induction rs) auto
  have rows: "filter (\<lambda>((i, _), _). i \<notin> A) (filter (\<lambda>((i, _), _). i \<notin> B) t) = filter (\<lambda>((i, _), _). i \<notin> B \<union> A) t"
    for A B and t :: "((rowid \<times> string) \<times> 'v) list"
    by (induction t) auto
  show ?thesis
    unfolding delete_files_def Let_def ids rows [symmetric] kept by simp
qed

lemma delete_files_cong:
  "(\<And>r. r \<in> set (files d) \<Longrightarrow> P r = Q r) \<Longrightarrow> delete_files P d = delete_files Q d"
  by (simp add: delete_files_def Let_def cong: filter_cong)

lemma sweep_rows:
  "fold_op (sweep_row present) rows t w =
    (Inr (t\<lparr>t_deleted := t_deleted t + length (filter (\<lambda>r. f_ident r \<notin> present) rows)\<rparr>),
     w\<lparr>working := delete_files (\<lambda>r. f_id r \<in> f_id ` set (filter (\<lambda>r. f_ident r \<notin> present) rows)) (working w)\<rparr>)"
proof (induction rows arbitrary: t w)
  case (Cons r rows)
  have "sweep_row present r t w =
      (if f_ident r \<in> present then (Inr t, w)
       else (Inr (t\<lparr>t_deleted := t_deleted t + 1\<rparr>), w\<lparr>working := delete_files (\<lambda>r'. f_id r' = f_id r) (working w)\<rparr>))"
    by (simp add: sweep_row_def exec_def)
  then show ?case by (simp add: bind_op_def Cons.IH delete_files_twice)
qed simp

lemma sweep_all:
  assumes wf: "db_wf (working w)"
  shows "fold_op (sweep_row present) (files (working w)) t w =
    (Inr (t\<lparr>t_deleted := t_deleted t + length (filter (\<lambda>r. f_ident r \<notin> present) (files (working w)))\<rparr>),
     w\<lparr>working := delete_files (\<lambda>r. f_ident r \<notin> present) (working w)\<rparr>)"
proof -
  have "distinct (map f_id (files (working w)))" using wf by (simp add: db_wf_def files_wf_def)
  then have "f_id r \<in> f_id ` set (filter (\<lambda>r. f_ident r \<notin> present) (files (working w))) \<longleftrightarrow> f_ident r \<notin> present"
    if "r \<in> set (files (working w))" for r
    using that by (auto simp: distinct_map dest: inj_onD)
  then have "delete_files (\<lambda>r. f_id r \<in> f_id ` set (filter (\<lambda>r. f_ident r \<notin> present) (files (working w)))) (working w) =
      delete_files (\<lambda>r. f_ident r \<notin> present) (working w)"
    by (rule delete_files_cong)
  then show ?thesis by (simp only: sweep_rows)
qed

text \<open>The objects of the listing, as the catalog identifies them.\<close>

definition listed_dims :: "'s source \<Rightarrow> listing list \<Rightarrow> dims set" where
  "listed_dims source ls = {ds. \<exists>l \<in> set ls. \<exists>eff. resolve_key_dims source (lst_key l) = Some (ds, eff)}"

lemma in_map_filter: "y \<in> set (List.map_filter g xs) \<longleftrightarrow> (\<exists>x \<in> set xs. g x = Some y)"
  by (induction xs) (auto simp: map_filter_def split: option.splits)

lemma present_idents_listed:
  assumes "coherent w"
  shows "i \<in> present_idents (cache w) (dims_in source ls) ls \<longleftrightarrow>
    (\<exists>ds \<in> listed_dims source ls. ident_of (working w) ds = Some i)"
proof -
  have comp: "composite_ids (cache w) = ident_of (working w)"
    using composite_ids_ident [OF assms] by blast
  have "(case dims_in source ls (lst_key l) of None \<Rightarrow> None | Some ds \<Rightarrow> ident_of (working w) ds) = Some i \<longleftrightarrow>
      (\<exists>ds eff. resolve_key_dims source (lst_key l) = Some (ds, eff) \<and> ident_of (working w) ds = Some i)"
    if "l \<in> set ls" for l
    using that by (cases "resolve_key_dims source (lst_key l)") (auto simp: dims_in_def)
  then show ?thesis
    unfolding present_idents_def comp in_map_filter listed_dims_def by blast
qed

lemma catalog_of_sweep:
  assumes wf: "db_wf (working w)" and coh: "coherent w"
  shows "catalog_of (delete_files (\<lambda>r. f_ident r \<notin> present_idents (cache w) (dims_in source ls) ls) (working w)) =
    drop_files (- listed_dims source ls) (catalog_of (working w))"
proof (rule catalog_of_delete_files [OF wf])
  fix ds f
  assume "file_at (working w) ds = Some f"
  then have "ident_of (working w) ds = Some (f_ident f)"
    using wf by (simp add: file_at_iff db_wf_def)
  then have "ident_of (working w) ds' = Some (f_ident f) \<longleftrightarrow> ds' = ds" for ds'
    using wf ident_of_inject unfolding db_wf_def by metis
  then show "f_ident f \<notin> present_idents (cache w) (dims_in source ls) ls \<longleftrightarrow> ds \<in> - listed_dims source ls"
    by (simp add: present_idents_listed [OF coh])
qed

section \<open>The whole pass\<close>

text \<open>Different listings are different files, and no bad key is the key of a good object.\<close>

definition distinct_objects :: "'s source \<Rightarrow> listing list \<Rightarrow> bool" where
  "distinct_objects source ls \<longleftrightarrow>
     distinct (List.map_filter (\<lambda>l. map_option fst (resolve_key_dims source (lst_key l))) ls) \<and>
     (\<forall>l \<in> set ls. \<forall>l' \<in> set ls. unparseable source l \<longrightarrow>
       (case resolve_key_dims source (lst_key l') of None \<Rightarrow> True | Some (ds, eff) \<Rightarrow> eff \<noteq> lst_key l))"

definition listing_verdict ::
  "('s \<Rightarrow> exn + mcap_summary option) \<Rightarrow> 's source \<Rightarrow> catalog \<Rightarrow> listing \<Rightarrow> dims \<Rightarrow> string \<Rightarrow> verdict"
where
  "listing_verdict get_summary source c l ds eff =
     (if unchanged_in c ds (lst_stat l) then Unchanged ds
      else job_verdict get_summary source (lst_key l, lst_stat l, ds, eff))"

lemma map_filter_distinct_inject:
  "distinct (List.map_filter g xs) \<Longrightarrow> x \<in> set xs \<Longrightarrow> y \<in> set xs \<Longrightarrow> g x = Some v \<Longrightarrow> g y = Some v \<Longrightarrow> x = y"
proof (induction xs)
  case (Cons z zs)
  have notin: "v \<notin> set (List.map_filter g zs)" if "g z = Some v"
    using Cons.prems(1) that by (simp add: map_filter_def)
  have "distinct (List.map_filter g zs)"
    using Cons.prems(1) by (simp add: map_filter_def split: option.splits if_splits)
  with Cons notin show ?case by (auto simp: in_map_filter)
qed simp

lemma distinct_map_filterI:
  "distinct xs \<Longrightarrow> (\<And>x y v. x \<in> set xs \<Longrightarrow> y \<in> set xs \<Longrightarrow> g x = Some v \<Longrightarrow> g y = Some v \<Longrightarrow> x = y) \<Longrightarrow>
    distinct (List.map_filter g xs)"
proof (induction xs)
  case (Cons z zs)
  have "distinct (List.map_filter g zs)"
    using Cons.prems by (intro Cons.IH) auto
  moreover have "v \<notin> set (List.map_filter g zs)" if "g z = Some v" for v
    using that Cons.prems by (auto simp: in_map_filter)
  ultimately show ?case by (cases "g z") (simp_all add: map_filter_def)
qed (simp add: map_filter_def)

lemma distinct_map_filter_sub:
  "distinct (List.map_filter g xs) \<Longrightarrow> (\<And>x v. f x = Some v \<Longrightarrow> g x = Some v) \<Longrightarrow>
    distinct (List.map_filter f xs)"
proof (induction xs)
  case (Cons z zs)
  have "distinct (List.map_filter g zs)" "g z = Some v \<Longrightarrow> v \<notin> set (List.map_filter g zs)" for v
    using Cons.prems(1) by (auto simp: List.map_filter_simps split: option.splits)
  moreover have "v \<in> set (List.map_filter f zs) \<Longrightarrow> v \<in> set (List.map_filter g zs)" for v
    using Cons.prems(2) by (auto simp: in_map_filter)
  ultimately show ?case
    using Cons.IH Cons.prems(2) by (auto simp: List.map_filter_simps split: option.splits)
qed simp

lemma listed_once:
  assumes "distinct_objects source ls" and "l \<in> set ls" and "l' \<in> set ls"
    and "resolve_key_dims source (lst_key l) = Some (ds, eff)"
    and "resolve_key_dims source (lst_key l') = Some (ds, eff')"
  shows "l' = l"
  using assms map_filter_distinct_inject [of "\<lambda>l. map_option fst (resolve_key_dims source (lst_key l))" ls l' l ds]
  by (simp add: distinct_objects_def)

lemma resolve_key_dims_eff:
  "resolve_key_dims source k = Some (ds, eff) \<Longrightarrow> resolve_key_dims source k' = Some (ds', eff) \<Longrightarrow> ds = ds'"
  by (metis option.inject resolve_key_dims_Some)

definition jobs_of :: "'s source \<Rightarrow> catalog \<Rightarrow> listing list \<Rightarrow> job list" where
  "jobs_of source c ls = List.map_filter (listing_job source c) ls"

lemma in_jobs_of:
  "j \<in> set (jobs_of source c ls) \<longleftrightarrow>
    (\<exists>l \<in> set ls. \<exists>ds eff. resolve_key_dims source (lst_key l) = Some (ds, eff) \<and>
      \<not> unchanged_in c ds (lst_stat l) \<and> j = (lst_key l, lst_stat l, ds, eff))"
proof -
  have "listing_job source c l = Some j \<longleftrightarrow> (\<exists>ds eff. resolve_key_dims source (lst_key l) = Some (ds, eff) \<and>
      \<not> unchanged_in c ds (lst_stat l) \<and> j = (lst_key l, lst_stat l, ds, eff))" for l
    by (cases "resolve_key_dims source (lst_key l)") (auto simp: listing_job_def split: if_splits)
  then show ?thesis by (simp only: jobs_of_def in_map_filter)
qed

lemma jobs_of_good: "j \<in> set (jobs_of source c ls) \<Longrightarrow> good_job source j"
  by (auto simp: in_jobs_of)

lemma jobs_of_distinct:
  assumes "distinct_objects source ls"
  shows "distinct (map job_dims (jobs_of source c ls))"
proof -
  let ?f = "\<lambda>l. map_option job_dims (listing_job source c l)"
  have "?f l = Some ds \<Longrightarrow> map_option fst (resolve_key_dims source (lst_key l)) = Some ds" for l ds
    by (cases "resolve_key_dims source (lst_key l)") (auto simp: listing_job_def split: if_splits)
  then have "distinct (List.map_filter ?f ls)"
    using distinct_map_filter_sub [OF conjunct1 [OF assms [unfolded distinct_objects_def]], of ?f] by blast
  moreover have "map job_dims (jobs_of source c ls) = List.map_filter ?f ls"
    by (induction ls) (auto simp: jobs_of_def List.map_filter_simps split: option.splits)
  ultimately show ?thesis by simp
qed

lemma lstrip_slash_id: "\<not> prefix ''/'' k \<Longrightarrow> lstrip_slash k = k"
  by (cases k) (auto simp: lstrip_slash_def)

lemma distinct_objectsI:
  assumes "distinct (map lst_key ls)" and "\<forall>l \<in> set ls. \<not> prefix ''/'' (lst_key l)"
    and "\<And>key. src_intended_key source key = None"
  shows "distinct_objects source ls"
proof -
  have res: "resolve_key_dims source k = Some (ds, eff) \<longleftrightarrow> eff = k \<and> trusted_dims k = Some ds" for k ds eff
    by (auto simp: resolve_key_dims_Some assms(3) simp del: trusted_dims_Some)
  have "distinct (List.map_filter (\<lambda>l. map_option fst (resolve_key_dims source (lst_key l))) ls)"
  proof (rule distinct_map_filterI)
    show "distinct ls" using assms(1) by (simp add: distinct_map)
    fix l l' ds
    assume l: "l \<in> set ls" "l' \<in> set ls"
      "map_option fst (resolve_key_dims source (lst_key l)) = Some ds"
      "map_option fst (resolve_key_dims source (lst_key l')) = Some ds"
    then have "lstrip_slash (lst_key l) = lstrip_slash (lst_key l')" by (auto simp: res)
    then have "lst_key l = lst_key l'" using l(1,2) assms(2) by (simp add: lstrip_slash_id)
    then show "l = l'" using l(1,2) assms(1) by (auto simp: distinct_map dest: inj_onD)
  qed
  moreover have "unparseable source l \<Longrightarrow> resolve_key_dims source (lst_key l') = Some (ds, eff) \<Longrightarrow> eff \<noteq> lst_key l"
    for l l' ds eff
    using res by (metis option.distinct(1) unparseable_def)
  ultimately show ?thesis by (auto simp: distinct_objects_def split: option.splits)
qed

subsection \<open>The build stamp\<close>

definition build_stamp :: "int \<Rightarrow> int \<Rightarrow> string \<Rightarrow> int \<Rightarrow> build_row option \<Rightarrow> build_row" where
  "build_stamp scanned bad outcome now old =
     \<lparr>b_build_id = (case old of None \<Rightarrow> 1 | Some b \<Rightarrow> b_build_id b + 1), b_last_build_ns = now,
      b_files_scanned = scanned, b_files_failed = bad, b_outcome = outcome, b_version = BUILDER_VERSION\<rparr>"

lemma record_build_in_sync:
  assumes "in_sync w"
  obtains w' now where "record_build scanned bad outcome w = (Inr (), w')" and "in_sync w'"
    and "catalog_of (working w') = (catalog_of (working w))
      \<lparr>cat_build := Some (build_stamp scanned bad outcome now (build_metadata (working w)))\<rparr>"
    and "now = ticks w (reads w)" and "versions w' = versions w @ [working w']"
proof -
  let ?now = "ticks w (reads w)"
  let ?d = "(working w)\<lparr>build_metadata := Some (build_stamp scanned bad outcome ?now (build_metadata (working w)))\<rparr>"
  let ?w = "commit ((ticked w)\<lparr>working := ?d\<rparr>)"
  have names: "names ?d = names (working w)" by (simp add: names_def)
  have "db_wf ?d"
    using in_syncD(2) [OF assms] names_frame [OF names] by (simp add: db_wf_def files_wf_def tags_wf_def)
  moreover have "sets_wf ?d" using in_syncD(3) [OF assms] sets_wf_names [OF names] by simp
  moreover have "coherent ((ticked w)\<lparr>working := ?d\<rparr>)"
    using in_syncD(1) [OF assms] by (simp add: coherent_def load_caches_def)
  ultimately have "in_sync ?w" using in_syncD(5) [OF assms] by (intro in_sync_commit) simp_all
  moreover have "record_build scanned bad outcome w = (Inr (), ?w)"
    by (simp add: record_build_def now_ns_def exec_def commit_op_def build_stamp_def)
  moreover have "catalog_of ?d = (catalog_of (working w))\<lparr>cat_build := build_metadata ?d\<rparr>"
    using file_at_same [OF names] by (simp add: catalog_of_def tags_at_def fun_eq_iff)
  ultimately show ?thesis using that [of ?w ?now] by simp
qed

subsection \<open>The tally\<close>

definition counted :: "tally \<Rightarrow> nat" where
  "counted t = t_cataloged t + t_skipped t + t_failed t"

lemma counted_jobs:
  "counted (fold (\<lambda>j. count_status (verdict_status (f j))) jobs t) = counted t + length jobs"
proof (induction jobs arbitrary: t)
  case (Cons j jobs)
  have "counted (count_status s t) = Suc (counted t)" for s
    by (cases s) (simp_all add: counted_def)
  with Cons show ?case by simp
qed simp

lemma deleted_jobs: "t_deleted (fold (\<lambda>j. count_status (verdict_status (f j))) jobs t) = t_deleted t"
proof (induction jobs arbitrary: t)
  case (Cons j jobs)
  have "t_deleted (count_status s t) = t_deleted t" for s by (cases s) simp_all
  with Cons show ?case by simp
qed simp

lemma skipped_jobs:
  assumes "\<And>j. verdict_status (f j) \<noteq> Skipped"
  shows "t_skipped (fold (\<lambda>j. count_status (verdict_status (f j))) jobs t) = t_skipped t"
proof (induction jobs arbitrary: t)
  case (Cons j jobs)
  have "t_skipped (count_status s t) = t_skipped t" if "s \<noteq> Skipped" for s using that by (cases s) simp_all
  with Cons assms show ?case by simp
qed simp

lemma failed_jobs:
  "t_failed (fold (\<lambda>j. count_status (verdict_status (f j))) jobs t) =
    t_failed t + length (filter (\<lambda>j. verdict_status (f j) = Failed) jobs)"
proof (induction jobs arbitrary: t)
  case (Cons j jobs)
  have "t_failed (count_status s t) = (if s = Failed then Suc (t_failed t) else t_failed t)" for s
    by (cases s) simp_all
  with Cons show ?case by simp
qed simp

lemma job_never_skipped: "verdict_status (job_verdict get_summary source j) \<noteq> Skipped"
proof (cases j)
  case (fields key st ds eff)
  then show ?thesis
    by (cases "read_summary get_summary source key st")
      (simp_all add: job_verdict_def extract_job_def extract_summary_def Let_def judge_summary_def)
qed

lemma counted_classified:
  "counted (cl_tally (classified_as source c ls)) + length (jobs_of source c ls) = length ls"
  by (induction ls)
    (auto simp: counted_def classified_as_def jobs_of_def known_listing_def unparseable_def listing_job_def
      List.map_filter_simps split: option.splits)

text \<open>The rows whose object is not listed.\<close>

definition unlisted :: "'s source \<Rightarrow> listing list \<Rightarrow> catalog \<Rightarrow> dims set" where
  "unlisted source ls c = {ds. cat_files c ds \<noteq> None \<and> ds \<notin> listed_dims source ls}"

lemma swept_rows:
  assumes wf: "db_wf (working w)" and coh: "coherent w"
  shows "length (filter (\<lambda>r. f_ident r \<notin> present_idents (cache w) (dims_in source ls) ls) (files (working w))) =
    card (unlisted source ls (catalog_of (working w)))"
proof -
  let ?d = "working w" and ?present = "present_idents (cache w) (dims_in source ls) ls"
  let ?rows = "{r \<in> set (files ?d). f_ident r \<notin> ?present}"
  have fw: "files_wf ?d" and tw: "tables_wf ?d" using wf by (simp_all add: db_wf_def)
  have "distinct (files ?d)" using fw by (simp add: files_wf_def distinct_map)
  then have len: "length (filter (\<lambda>r. f_ident r \<notin> ?present) (files ?d)) = card ?rows"
    using distinct_card [of "filter (\<lambda>r. f_ident r \<notin> ?present) (files ?d)"] by simp
  have row: "f_ident f \<in> ?present \<longleftrightarrow> ds \<in> listed_dims source ls" if "file_at ?d ds = Some f" for ds f
    using that fw ident_of_inject [OF tw, of ds "f_ident f"]
    by (auto simp: file_at_iff present_idents_listed [OF coh])
  have "bij_betw (\<lambda>ds. the (file_at ?d ds)) (unlisted source ls (catalog_of ?d)) ?rows"
    unfolding bij_betw_def
  proof
    show "inj_on (\<lambda>ds. the (file_at ?d ds)) (unlisted source ls (catalog_of ?d))"
      using file_at_distinct_ids [OF wf] by (auto simp: unlisted_def inj_on_def)
    show "(\<lambda>ds. the (file_at ?d ds)) ` unlisted source ls (catalog_of ?d) = ?rows"
    proof (intro set_eqI iffI)
      fix r
      assume "r \<in> (\<lambda>ds. the (file_at ?d ds)) ` unlisted source ls (catalog_of ?d)"
      then obtain ds where "file_at ?d ds = Some r" "ds \<notin> listed_dims source ls" by (auto simp: unlisted_def)
      then show "r \<in> ?rows" using row [of ds r] by (simp add: file_at_iff [OF fw])
    next
      fix r
      assume r: "r \<in> ?rows"
      then obtain ds where "file_at ?d ds = Some r" using file_dims [OF wf, of r] by auto
      with r row show "r \<in> (\<lambda>ds. the (file_at ?d ds)) ` unlisted source ls (catalog_of ?d)"
        by (intro image_eqI [of _ _ ds]) (auto simp: unlisted_def)
    qed
  qed
  then show ?thesis using len by (simp add: bij_betw_same_card)
qed

subsection \<open>Correctness\<close>

text \<open>The three stages: classification notes failures, the jobs run, the sweep drops what is not listed
  and the build is stamped.\<close>

lemma reconcile_stages:
  assumes s: "in_sync w" and clock: "sane_clock w" and ls: "src_list source = Inr ls"
    and perm: "\<And>js. mset (completion js) = mset js" and once: "distinct_objects source ls"
  obtains w1 w2 w' :: writer and t now where
    "full_reconcile get_summary completion source workers w =
      (Inr (t\<lparr>t_deleted := card (unlisted source ls (catalog_of (working w2)))\<rparr>), w')"
    and "in_sync w'" and "sane_clock w'"
    and "noted_only (lst_key ` set (filter (unparseable source) ls)) (catalog_of (working w)) (catalog_of (working w1))"
    and "\<And>j. j \<in> set (jobs_of source (catalog_of (working w)) ls) \<Longrightarrow>
      verdict_effect (job_verdict get_summary source j) (job_dims j) (job_eff j)
        (catalog_of (working w1)) (catalog_of (working w2))"
    and "\<And>ds eff. ds \<notin> job_dims ` set (jobs_of source (catalog_of (working w)) ls) \<Longrightarrow>
      eff \<notin> job_eff ` set (jobs_of source (catalog_of (working w)) ls) \<Longrightarrow>
      same_at ds eff (catalog_of (working w1)) (catalog_of (working w2))"
    and "counted t = length ls" and "t_skipped t = length (filter (known_listing source (catalog_of (working w))) ls)"
    and "t_failed t = length (filter (unparseable source) ls) +
      length (filter (\<lambda>j. verdict_status (job_verdict get_summary source j) = Failed)
        (jobs_of source (catalog_of (working w)) ls))"
    and "catalog_of (working w') =
      (drop_files (- listed_dims source ls) (catalog_of (working w2)))
        \<lparr>cat_build := Some (build_stamp (int (t_cataloged t + t_skipped t)) (int (t_failed t))
          (if t_failed t \<noteq> 0 then ''partial'' else ''ok'') now (build_metadata (working w)))\<rparr>"
    and "now \<noteq> 0"
    and "fold_op (classify source (stored_etags (working w))) ls nothing_classified w =
      (Inr (classified_as source (catalog_of (working w)) ls), w1)"
    and "in_sync w1" and "sane_clock w1"
    and "\<exists>order. mset order = mset (jobs_of source (catalog_of (working w)) ls) \<and>
      fold_op (apply_job get_summary source) order (cl_tally (classified_as source (catalog_of (working w)) ls)) w1 = (Inr t, w2)"
    and "\<exists>d. versions w' = versions w2 @ [d, working w'] \<and> whole d \<and>
      catalog_of d = drop_files (- listed_dims source ls) (catalog_of (working w2))"
proof -
  let ?c = "catalog_of (working w)"
  let ?jobs = "jobs_of source ?c ls" and ?cl = "classified_as source ?c ls"
  obtain w1 where w1: "fold_op (classify source (stored_etags (working w))) ls nothing_classified w = (Inr ?cl, w1)"
    "in_sync w1" "sane_clock w1" "names (working w1) = names (working w)"
    "noted_only (lst_key ` set (filter (unparseable source) ls)) ?c (catalog_of (working w1))"
    using classify_all [OF s clock] by blast
  define order where "order = (if workers > 1 \<and> length ?jobs > 1 then completion ?jobs else ?jobs)"
  have order: "mset order = mset ?jobs" by (simp add: order_def perm)
  then have same: "set order = set ?jobs" "length order = length ?jobs"
    by (metis mset_eq_setD) (metis order mset_eq_length)
  have "distinct (map job_dims order)"
    using jobs_of_distinct [OF once, of ?c] order by (metis mset_eq_imp_distinct_iff mset_map)
  moreover have "\<And>j. j \<in> set order \<Longrightarrow> good_job source j"
    using same jobs_of_good by blast
  moreover define t where "t = fold (\<lambda>j. count_status (verdict_status (job_verdict get_summary source j))) order (cl_tally ?cl)"
  ultimately obtain w2 where w2: "fold_op (apply_job get_summary source) order (cl_tally ?cl) w1 = (Inr t, w2)"
    "in_sync w2" "sane_clock w2" "build_metadata (working w2) = build_metadata (working w1)"
    and each: "\<forall>j \<in> set order. verdict_effect (job_verdict get_summary source j) (job_dims j) (job_eff j)
      (catalog_of (working w1)) (catalog_of (working w2))"
    and elsewhere: "\<forall>ds eff. ds \<notin> job_dims ` set order \<longrightarrow> eff \<notin> job_eff ` set order \<longrightarrow>
      same_at ds eff (catalog_of (working w1)) (catalog_of (working w2))"
    using jobs_run [OF w1(2,3), of order source get_summary "cl_tally ?cl"] by blast
  have wf2: "db_wf (working w2)" "sets_wf (working w2)" "coherent w2" using w2(2) by auto
  define present where "present = present_idents (cache w2) (dims_in source ls) ls"
  define d3 where "d3 = delete_files (\<lambda>r. f_ident r \<notin> present) (working w2)"
  define w3 where "w3 = commit (w2\<lparr>working := d3\<rparr>)"
  have d3: "db_wf d3" "names d3 = names (working w2)" "build_metadata d3 = build_metadata (working w2)"
    "catalog_of d3 = drop_files (- listed_dims source ls) (catalog_of (working w2))"
    unfolding d3_def present_def
    by (simp_all add: catalog_of_sweep [OF wf2(1,3)] delete_files_db_wf [OF wf2(1)] delete_files_build)
  have "in_sync w3"
    unfolding w3_def
  proof (intro in_sync_commit)
    show "coherent (w2\<lparr>working := d3\<rparr>)" using wf2(3) names_frame(6) [OF d3(2)] by (simp add: coherent_def)
    show "sets_wf (working (w2\<lparr>working := d3\<rparr>))" using wf2(2) sets_wf_names [OF d3(2)] by simp
  qed (use in_syncD(5) [OF w2(2)] in \<open>simp_all add: d3\<close>)
  then have swept: "whole d3" using in_syncD(2,3) [of w3] by (simp add: whole_def w3_def)
  obtain w' now where w': "record_build (int (t_cataloged t + t_skipped t)) (int (t_failed t))
      (if t_failed t \<noteq> 0 then ''partial'' else ''ok'') w3 = (Inr (), w')" "in_sync w'"
    "catalog_of (working w') = (catalog_of (working w3))
      \<lparr>cat_build := Some (build_stamp (int (t_cataloged t + t_skipped t)) (int (t_failed t))
        (if t_failed t \<noteq> 0 then ''partial'' else ''ok'') now (build_metadata (working w3)))\<rparr>"
    "now = ticks w3 (reads w3)" "versions w' = versions w3 @ [working w']"
    by (rule record_build_in_sync [OF \<open>in_sync w3\<close>])
  have noted: "cat_build (catalog_of (working w1)) = cat_build ?c"
    by (rule noted_only_same [OF w1(5)])
  have "t_deleted t = 0"
    by (simp add: t_def deleted_jobs) (simp add: classified_as_def)
  then have run: "full_reconcile get_summary completion source workers w =
      (Inr (t\<lparr>t_deleted := card (unlisted source ls (catalog_of (working w2)))\<rparr>), w')"
  proof -
    have cl: "cl_jobs ?cl = ?jobs" "cl_dims ?cl = dims_in source ls" by (simp_all add: classified_as_def jobs_of_def)
    have jobs: "run_jobs get_summary completion source workers ?jobs (cl_tally ?cl) w1 = (Inr t, w2)"
      using w2(1) by (simp only: run_jobs_def order_def)
    have sweep: "fold_op (sweep_row present) (files (working w2)) t w2 =
        (Inr (t\<lparr>t_deleted := card (unlisted source ls (catalog_of (working w2)))\<rparr>), w2\<lparr>working := d3\<rparr>)"
      using sweep_all [OF wf2(1), of present t] swept_rows [OF wf2(1,3), of source ls] \<open>t_deleted t = 0\<close>
      by (simp add: present_def d3_def)
    show ?thesis
      using w'(1)
      by (simp add: full_reconcile_def lift_result_def ls query_def w1(1) cl jobs Let_def present_def [symmetric]
          sweep commit_op_def w3_def)
  qed
  show ?thesis
  proof (rule that [where w' = w' and t = t and now = now and ?w1.0 = w1 and ?w2.0 = w2])
    show "counted t = length ls"
      using counted_classified [of source ?c ls] by (simp add: t_def counted_jobs same)
    show "t_skipped t = length (filter (known_listing source ?c) ls)"
      by (simp add: t_def skipped_jobs [OF job_never_skipped]) (simp add: classified_as_def)
    have "length (filter P order) = length (filter P ?jobs)" for P
      using order by (metis mset_filter size_mset)
    then show "t_failed t = length (filter (unparseable source) ls) +
        length (filter (\<lambda>j. verdict_status (job_verdict get_summary source j) = Failed) ?jobs)"
      by (simp add: t_def failed_jobs) (simp add: classified_as_def)
    show "catalog_of (working w') =
      (drop_files (- listed_dims source ls) (catalog_of (working w2)))
        \<lparr>cat_build := Some (build_stamp (int (t_cataloged t + t_skipped t)) (int (t_failed t))
          (if t_failed t \<noteq> 0 then ''partial'' else ''ok'') now (build_metadata (working w)))\<rparr>"
      using w'(3) d3 w2(4) noted by (simp add: w3_def)
    show "noted_only (lst_key ` set (filter (unparseable source) ls)) ?c (catalog_of (working w1))" by (rule w1(5))
    show "\<exists>d. versions w' = versions w2 @ [d, working w'] \<and> whole d \<and>
        catalog_of d = drop_files (- listed_dims source ls) (catalog_of (working w2))"
      using w'(5) swept d3(4) by (intro exI [of _ d3]) (simp add: w3_def)
    show "\<exists>order. mset order = mset ?jobs \<and> fold_op (apply_job get_summary source) order (cl_tally ?cl) w1 = (Inr t, w2)"
      using order w2(1) by blast
    show "fold_op (classify source (stored_etags (working w))) ls nothing_classified w = (Inr ?cl, w1)" by (rule w1(1))
    show "now \<noteq> 0" using w'(4) w2(3) by (simp add: sane_clock_def w3_def)
    have "keeps_clock (record_build a b o1)" for a b o1 unfolding record_build_def by (intro clock_rules)
    from keeps_clockD [OF this w'(1)] show "sane_clock w'" using w2(3) by (simp add: sane_clock_def w3_def)
  qed (use each elsewhere same run w'(2) w1(2,3) in auto)
qed

lemma reconcile_outcome:
  assumes "in_sync w" and "sane_clock w" and "src_list source = Inr ls"
    and "\<And>js. mset (completion js) = mset js" and "distinct_objects source ls"
  obtains t and w' :: writer where "full_reconcile get_summary completion source workers w = (Inr t, w')"
    and "in_sync w'" and "sane_clock w'"
    and "\<And>ds. ds \<notin> listed_dims source ls \<Longrightarrow> cat_files (catalog_of (working w')) ds = None"
    and "\<And>l ds eff. l \<in> set ls \<Longrightarrow> resolve_key_dims source (lst_key l) = Some (ds, eff) \<Longrightarrow>
      verdict_effect (listing_verdict get_summary source (catalog_of (working w)) l ds eff) ds eff
        (catalog_of (working w)) (catalog_of (working w'))"
    and "t_failed t = length (filter (unparseable source) ls) +
      length (filter (\<lambda>j. verdict_status (job_verdict get_summary source j) = Failed)
        (jobs_of source (catalog_of (working w)) ls))"
proof (rule reconcile_stages [OF assms, of get_summary workers])
  fix w1 w2 w' :: writer and t now
  let ?c = "catalog_of (working w)" and ?c1 = "catalog_of (working w1)" and ?c2 = "catalog_of (working w2)"
    and ?c' = "catalog_of (working w')"
  assume run: "full_reconcile get_summary completion source workers w =
      (Inr (t\<lparr>t_deleted := card (unlisted source ls ?c2)\<rparr>), w')" and s: "in_sync w'" "sane_clock w'"
    and bad: "t_failed t = length (filter (unparseable source) ls) +
      length (filter (\<lambda>j. verdict_status (job_verdict get_summary source j) = Failed) (jobs_of source ?c ls))"
    and noted: "noted_only (lst_key ` set (filter (unparseable source) ls)) ?c ?c1"
    and each: "\<And>j. j \<in> set (jobs_of source ?c ls) \<Longrightarrow>
      verdict_effect (job_verdict get_summary source j) (job_dims j) (job_eff j) ?c1 ?c2"
    and elsewhere: "\<And>ds eff. ds \<notin> job_dims ` set (jobs_of source ?c ls) \<Longrightarrow>
      eff \<notin> job_eff ` set (jobs_of source ?c ls) \<Longrightarrow> same_at ds eff ?c1 ?c2"
    and final: "?c' = (drop_files (- listed_dims source ls) ?c2)
        \<lparr>cat_build := Some (build_stamp (int (t_cataloged t + t_skipped t)) (int (t_failed t))
          (if t_failed t \<noteq> 0 then ''partial'' else ''ok'') now (build_metadata (working w)))\<rparr>"
  have gone: "cat_files ?c' ds = None" if "ds \<notin> listed_dims source ls" for ds
    using that by (simp add: final drop_files_def)
  have "verdict_effect (listing_verdict get_summary source ?c l ds eff) ds eff ?c ?c'"
    if l: "l \<in> set ls" and r: "resolve_key_dims source (lst_key l) = Some (ds, eff)" for l ds eff
  proof -
    have "ds \<in> listed_dims source ls" using l r by (auto simp: listed_dims_def)
    then have after: "same_at ds eff ?c2 ?c'" by (simp add: same_at_def final drop_files_def)
    have "eff \<notin> lst_key ` set (filter (unparseable source) ls)"
      using assms(5) l r by (fastforce simp: distinct_objects_def)
    then have before: "same_at ds eff ?c ?c1" by (rule noted_only_same_at [OF noted])
    show ?thesis
    proof (cases "unchanged_in ?c ds (lst_stat l)")
      case False
      then have "(lst_key l, lst_stat l, ds, eff) \<in> set (jobs_of source ?c ls)"
        using l r by (auto simp: in_jobs_of)
      from each [OF this] before after False show ?thesis
        by (simp add: listing_verdict_def) (blast intro: effect_after_same effect_before_same)
    next
      case True
      have "ds \<noteq> job_dims j \<and> eff \<noteq> job_eff j" if j: "j \<in> set (jobs_of source ?c ls)" for j
        using j True listed_once [OF assms(5) l _ r] resolve_key_dims_eff [OF r]
        by (fastforce simp: in_jobs_of)
      then have "same_at ds eff ?c1 ?c2" by (intro elsewhere) auto
      with True before after show ?thesis by (simp add: listing_verdict_def same_at_def)
    qed
  qed
  then show thesis using that [OF run s] gone bad by simp
qed

text \<open>The stamp a reconcile leaves.\<close>

lemma reconcile_stamp:
  assumes "in_sync w" and "sane_clock w" and "src_list source = Inr ls"
    and "\<And>js. mset (completion js) = mset js" and "distinct_objects source ls"
    and "full_reconcile get_summary completion source workers w = (Inr t, w')"
  obtains b where "build_metadata (working w') = Some b" and "b_last_build_ns b \<noteq> 0"
    and "b_build_id b = (case build_metadata (working w) of None \<Rightarrow> 1 | Some b \<Rightarrow> b_build_id b + 1)"
proof (rule reconcile_stages [OF assms(1-5), of get_summary workers])
  fix w1 w2 w'' :: writer and t' now
  assume "full_reconcile get_summary completion source workers w =
      (Inr (t'\<lparr>t_deleted := card (unlisted source ls (catalog_of (working w2)))\<rparr>), w'')"
    and final: "catalog_of (working w'') = (drop_files (- listed_dims source ls) (catalog_of (working w2)))
        \<lparr>cat_build := Some (build_stamp (int (t_cataloged t' + t_skipped t')) (int (t_failed t'))
          (if t_failed t' \<noteq> 0 then ''partial'' else ''ok'') now (build_metadata (working w)))\<rparr>"
    and now: "now \<noteq> 0"
  then have "w'' = w'" using assms(6) by simp
  then have "build_metadata (working w') = cat_build (catalog_of (working w''))" by simp
  also have "\<dots> = Some (build_stamp (int (t_cataloged t' + t_skipped t')) (int (t_failed t'))
          (if t_failed t' \<noteq> 0 then ''partial'' else ''ok'') now (build_metadata (working w)))"
    by (simp add: final)
  finally show thesis by (rule that) (simp_all add: build_stamp_def now)
qed

text \<open>C5. A reconcile brings the catalog to what the source lists, with any number of workers and in
  whatever order they finish. A file that is not listed is gone. A listed file whose fingerprint is
  known is as it was; one that could be read and is consistent has the row of its summary, with its id
  and overrides kept and no failure; one that could not is quarantined with its failure noted. (An
  object that fails to open because it vanished after the listing keeps its old row.)\<close>

theorem reconcile_converges:
  assumes "in_sync w" and "sane_clock w" and "src_list source = Inr ls"
    and "\<And>js. mset (completion js) = mset js" and "distinct_objects source ls"
  shows "\<exists>t w'. full_reconcile get_summary completion source workers w = (Inr t, w') \<and> in_sync w' \<and>
    (\<forall>ds. ds \<notin> listed_dims source ls \<longrightarrow> file_at (working w') ds = None) \<and>
    (\<forall>l \<in> set ls. \<forall>ds eff. resolve_key_dims source (lst_key l) = Some (ds, eff) \<longrightarrow>
      verdict_effect (listing_verdict get_summary source (catalog_of (working w)) l ds eff) ds eff
        (catalog_of (working w)) (catalog_of (working w')))"
  by (rule reconcile_outcome [OF assms, of get_summary workers]) auto

lemma sane_sample_clock: "sane_clock (connect d (\<lambda>_. 1))"
  by (simp add: sane_clock_def connect_def fits_sqlite_def)

lemma fresh_in_sync: "in_sync (connect empty_db clock)"
  by (simp add: in_sync_connect)

lemma row_written_etag: "row_written st summary now old f \<Longrightarrow> ff_etag (f_facts f) = st_etag st"
  unfolding row_written_def row_facts_def by (metis file_facts.select_convs(1))

definition sample_listing :: listing where
  "sample_listing = \<lparr>lst_key = rebuild_hive_key sample_dims, lst_stat = sample_stat\<rparr>"

lemma sample_listed: "src_list sample_source = Inr [sample_listing]"
  by (simp add: sample_source_def sample_listing_def)

lemma sample_listing_resolves:
  "resolve_key_dims sample_source (lst_key sample_listing) = Some (sample_dims, rebuild_hive_key sample_dims)"
  by (simp add: sample_listing_def sample_key_resolves)

lemma sample_distinct_objects: "distinct_objects sample_source [sample_listing]"
  by (simp add: distinct_objects_def sample_listing_resolves unparseable_def List.map_filter_simps)

lemma sample_job_verdict:
  "job_verdict sample_reader sample_source (lst_key sample_listing, sample_stat, sample_dims, rebuild_hive_key sample_dims) =
    Accepted sample_dims (rebuild_hive_key sample_dims) sample_stat sample_summary"
  by (simp add: job_verdict_def extract_job_def extract_summary_def sample_reads judge_summary_def sample_acceptable)

theorem reconcile_converges_witness:
  "\<exists>t w' f. full_reconcile sample_reader rev sample_source 4 (connect empty_db (\<lambda>_. 1)) = (Inr t, w') \<and>
    file_at (working w') sample_dims = Some f \<and> ff_etag (f_facts f) = ''etag-1''"
proof -
  have none: "file_at empty_db sample_dims = None"
    by (simp add: file_at_def ident_of_def lookup_ids_def empty_db_def)
  then have "listing_verdict sample_reader sample_source (catalog_of (working (connect empty_db (\<lambda>_. 1)))) sample_listing
      sample_dims (rebuild_hive_key sample_dims) =
      Accepted sample_dims (rebuild_hive_key sample_dims) sample_stat sample_summary"
    using sample_job_verdict by (simp add: listing_verdict_def unchanged_in_def connect_def sample_listing_def)
  then obtain t w' f now where "full_reconcile sample_reader rev sample_source 4 (connect empty_db (\<lambda>_. 1)) = (Inr t, w')"
    "file_at (working w') sample_dims = Some f" "row_written sample_stat sample_summary now None f"
    using reconcile_converges [OF fresh_in_sync sane_sample_clock sample_listed _ sample_distinct_objects,
        where completion = rev and get_summary = sample_reader and workers = 4] none
    by (auto simp: sample_listing_resolves connect_def)
  moreover from this(3) have "ff_etag (f_facts f) = ''etag-1''"
    by (simp add: row_written_etag sample_stat_def)
  ultimately show ?thesis by blast
qed



subsection \<open>A second reconcile\<close>

lemma drop_files_absent:
  "(\<And>ds. ds \<in> D \<Longrightarrow> file_at d ds = None) \<Longrightarrow> drop_files D (catalog_of d) = catalog_of d"
  by (auto simp: drop_files_def catalog_of_def topics_at_def tags_at_def fun_eq_iff)

lemma steady_pass:
  assumes s: "in_sync w" "sane_clock w" "src_list source = Inr ls" "\<And>js. mset (completion js) = mset js"
    "distinct_objects source ls"
    and known: "\<And>l. l \<in> set ls \<Longrightarrow> known_listing source (catalog_of (working w)) l"
    and none: "unlisted source ls (catalog_of (working w)) = {}"
  obtains w' stamp where
    "full_reconcile get_summary completion source workers w =
      (Inr \<lparr>t_cataloged = 0, t_skipped = length ls, t_failed = 0, t_deleted = 0\<rparr>, w')"
    and "in_sync w'" and "catalog_of (working w') = (catalog_of (working w))\<lparr>cat_build := stamp\<rparr>"
proof (rule reconcile_stages [OF s, of get_summary workers])
  fix w1 w2 w' :: writer and t now
  let ?c = "catalog_of (working w)" and ?c1 = "catalog_of (working w1)" and ?c2 = "catalog_of (working w2)"
  assume run: "full_reconcile get_summary completion source workers w =
      (Inr (t\<lparr>t_deleted := card (unlisted source ls ?c2)\<rparr>), w')" and sync: "in_sync w'"
    and noted: "noted_only (lst_key ` set (filter (unparseable source) ls)) ?c ?c1"
    and elsewhere: "\<And>ds eff. ds \<notin> job_dims ` set (jobs_of source ?c ls) \<Longrightarrow>
      eff \<notin> job_eff ` set (jobs_of source ?c ls) \<Longrightarrow> same_at ds eff ?c1 ?c2"
    and counts: "counted t = length ls" "t_skipped t = length (filter (known_listing source ?c) ls)"
    and final: "catalog_of (working w') = (drop_files (- listed_dims source ls) ?c2)
        \<lparr>cat_build := Some (build_stamp (int (t_cataloged t + t_skipped t)) (int (t_failed t))
          (if t_failed t \<noteq> 0 then ''partial'' else ''ok'') now (build_metadata (working w)))\<rparr>"
  have parsed: "filter (unparseable source) ls = []"
    using known by (fastforce simp: known_listing_def unparseable_def filter_empty_conv split: option.splits)
  have jobs: "jobs_of source ?c ls = []"
  proof (rule ccontr)
    assume "jobs_of source ?c ls \<noteq> []"
    then obtain j where "j \<in> set (jobs_of source ?c ls)" using list.set_sel(1) by blast
    then show False using known by (fastforce simp: in_jobs_of known_listing_def)
  qed
  have "same_at ds eff ?c ?c2" for ds eff
    using elsewhere [of ds eff] noted_only_same_at [OF noted, of eff ds] same_at_trans by (simp add: jobs parsed)
  then have c2: "cat_files ?c2 = cat_files ?c" "cat_topics ?c2 = cat_topics ?c" "cat_embedded ?c2 = cat_embedded ?c"
    "cat_override ?c2 = cat_override ?c" "cat_failures ?c2 = cat_failures ?c"
    unfolding same_at_def fun_eq_iff by blast+
  have "unlisted source ls ?c2 = {}" using none by (simp add: unlisted_def c2(1) del: catalog_of_simps)
  moreover have all: "filter (known_listing source ?c) ls = ls" using known by (simp add: filter_id_conv)
  ultimately have tally: "t\<lparr>t_deleted := card (unlisted source ls ?c2)\<rparr> =
      \<lparr>t_cataloged = 0, t_skipped = length ls, t_failed = 0, t_deleted = 0\<rparr>"
    using counts by (cases t) (simp add: counted_def)
  have absent: "file_at (working w2) ds = None" if "ds \<in> - listed_dims source ls" for ds
  proof -
    have "cat_files ?c ds = None" using none that by (auto simp: unlisted_def)
    then show ?thesis using c2(1) by (simp only: catalog_of_simps(1))
  qed
  have "?c2\<lparr>cat_build := x\<rparr> = ?c\<lparr>cat_build := x\<rparr>" for x
    using c2 by (cases ?c; cases ?c2) simp
  then have "catalog_of (working w') = ?c\<lparr>cat_build := Some (build_stamp (int (t_cataloged t + t_skipped t))
      (int (t_failed t)) (if t_failed t \<noteq> 0 then ''partial'' else ''ok'') now (build_metadata (working w)))\<rparr>"
    using final drop_files_absent [of "- listed_dims source ls", OF absent] by metis
  then show thesis using that run sync tally by simp
qed



end
