(* ===== verification/Source_Contract.thy ===== *)
theory Source_Contract
  imports Reconcile
begin

text \<open>
  What the builder relies on in a backend: a listing carries the fingerprint that \<open>stat\<close> would give. The
  contract is a locale over the \<open>Source\<close> record; the lemmas in it say that an event for a listed object
  and the reconcile of the listing come to the same thing. The local backend fulfils the contract;
  the object stores are treated in the theory of their sources.
\<close>

locale listed_source =
  fixes source :: "'s source"
  assumes listed_stat:
    "src_list source = Inr ls \<Longrightarrow> l \<in> set ls \<Longrightarrow> src_stat source (lst_key l) = Inr (Some (lst_stat l))"
begin

lemma judge_listed:
  assumes "src_list source = Inr ls" and "l \<in> set ls"
  shows "judge get_summary source (lst_key l) None now c =
    Inr (case resolve_key_dims source (lst_key l) of
       None \<Rightarrow> Bad_key (lst_key l) ''unparseable key''
     | Some (ds, eff) \<Rightarrow> judge_known get_summary source (lst_key l) ds eff (lst_stat l) now c)"
  by (simp add: judge_def listed_stat [OF assms])

lemma event_takes_step:
  assumes "in_sync w" and "src_list source = Inr ls" and "l \<in> set ls"
    and "resolve_key_dims source (lst_key l) = Some (ds, eff)"
  shows "takes_step (catalog_object get_summary (lst_key l) source None) w
    (judge_known get_summary source (lst_key l) ds eff (lst_stat l) (ticks w (reads w)) (catalog_of (working w)))"
  using catalog_object_takes_step [OF assms(1), where get_summary = get_summary and source = source and
      key = "lst_key l" and ?st0.0 = None]
  by (simp add: judge_listed [OF assms(2,3)] assms(4))

text \<open>A listed object that a reconcile has settled: the event that follows is skipped.\<close>

lemma event_after_settled:
  assumes "in_sync w" and "src_list source = Inr ls" and "l \<in> set ls"
    and "resolve_key_dims source (lst_key l) = Some (ds, eff)"
    and "unchanged_in (catalog_of (working w)) ds (lst_stat l)"
  obtains r w' where "catalog_object get_summary (lst_key l) source None w = (Inr r, w')" and "in_sync w'"
    and "res_status r = Skipped" and "catalog_of (working w') = catalog_of (working w)"
proof -
  have "takes_step (catalog_object get_summary (lst_key l) source None) w (Unchanged ds)"
    using event_takes_step [OF assms(1-4), of get_summary] assms(5) by (simp add: judge_known_def)
  then show ?thesis
    by (rule takes_stepE) (use that in \<open>auto simp: catalog_step_simps\<close>)
qed

text \<open>After a reconcile, the catalogued objects are those that are settled.\<close>

lemma settled_by_reconcile:
  assumes "in_sync w" and "sane_clock w" and ls: "src_list source = Inr ls"
    and "\<And>js. mset (completion js) = mset js" and "distinct_objects source ls"
    and run: "full_reconcile get_summary completion source workers w = (Inr t, w1)"
    and l: "l \<in> set ls" "resolve_key_dims source (lst_key l) = Some (ds, eff)"
    and kept: "file_at (working w1) ds = Some f"
  shows "unchanged_in (catalog_of (working w1)) ds (lst_stat l)"
proof (rule reconcile_outcome [OF assms(1-5), of get_summary workers])
  fix t' and w' :: writer
  let ?c = "catalog_of (working w)" and ?c' = "catalog_of (working w')" and ?j = "(lst_key l, lst_stat l, ds, eff)"
  assume "full_reconcile get_summary completion source workers w = (Inr t', w')"
  then have same: "w' = w1" using run by simp
  assume "\<And>l ds eff. l \<in> set ls \<Longrightarrow> resolve_key_dims source (lst_key l) = Some (ds, eff) \<Longrightarrow>
      verdict_effect (listing_verdict get_summary source ?c l ds eff) ds eff ?c ?c'"
  from this [OF l] have effect: "verdict_effect (listing_verdict get_summary source ?c l ds eff) ds eff ?c ?c'" .
  show ?thesis
  proof (cases "unchanged_in ?c ds (lst_stat l)")
    case True
    then show ?thesis using effect by (simp add: listing_verdict_def same_at_def unchanged_in_def same)
  next
    case False
    show ?thesis
    proof (cases "read_summary get_summary source (lst_key l) (lst_stat l)")
      case (Inl e)
      then have "job_verdict get_summary source ?j = Unreadable ds eff (exn_text e)"
        by (simp add: job_verdict_def extract_job_def extract_summary_def listed_stat [OF ls l(1)])
      then show ?thesis using effect False kept by (simp add: listing_verdict_def same)
    next
      case (Inr summary)
      then have "job_verdict get_summary source ?j = judge_summary 0 ds eff (lst_stat l) summary"
        by (simp add: job_verdict_def extract_job_def extract_summary_def)
      then show ?thesis
        using effect False kept row_written_etag
        by (fastforce simp: listing_verdict_def unchanged_in_def same judge_summary_def split: if_splits)
    qed
  qed
qed

lemma event_after_reconcile:
  assumes "in_sync w" and "sane_clock w" and "src_list source = Inr ls"
    and "\<And>js. mset (completion js) = mset js" and "distinct_objects source ls"
    and "full_reconcile get_summary completion source workers w = (Inr t, w1)"
    and "l \<in> set ls" and "resolve_key_dims source (lst_key l) = Some (ds, eff)"
    and "file_at (working w1) ds = Some f"
  shows "\<exists>r w2. catalog_object get_summary' (lst_key l) source None w1 = (Inr r, w2) \<and>
    in_sync w2 \<and> res_status r = Skipped \<and> catalog_of (working w2) = catalog_of (working w1)"
proof -
  have "in_sync w1" using reconcile_outcome [OF assms(1-5), of get_summary workers] assms(6) by (metis prod.inject)
  from event_after_settled [OF this assms(3,7,8) settled_by_reconcile [OF assms]] show ?thesis by metis
qed

end

section \<open>The local backend\<close>

lemma local_listed_stat:
  assumes "src_list (local_source fs root) = Inr ls" and "l \<in> set ls"
  shows "src_stat (local_source fs root) (lst_key l) = Inr (Some (lst_stat l))"
  using assms
  by (auto simp: local_source_def local_list_all_def in_map_filter split: if_splits option.splits)

interpretation local_backend: listed_source "local_source fs root"
  by unfold_locales (rule local_listed_stat)

text \<open>Reconcile and events compose on the local backend: once a reconcile has catalogued a listed
  file, a file-system event for it (creation, modification or a repeated delivery) finds its
  fingerprint known and changes nothing.\<close>

theorem local_event_after_reconcile:
  assumes "in_sync w" and "sane_clock w" and "src_list (local_source fs root) = Inr ls"
    and "\<And>js. mset (completion js) = mset js" and "distinct_objects (local_source fs root) ls"
    and "full_reconcile get_summary completion (local_source fs root) workers w = (Inr t, w1)"
    and "l \<in> set ls" and "resolve_key_dims (local_source fs root) (lst_key l) = Some (ds, eff)"
    and "file_at (working w1) ds = Some f"
  shows "\<exists>r w2. catalog_object get_summary' (lst_key l) (local_source fs root) None w1 = (Inr r, w2) \<and>
    in_sync w2 \<and> res_status r = Skipped \<and> catalog_of (working w2) = catalog_of (working w1)"
  by (rule local_backend.event_after_reconcile [OF assms])

text \<open>A directory with one recording.\<close>

definition sample_fs :: "unit local_fs" where
  "sample_fs =
     \<lparr>fs_cwd = ''/'', fs_stat = (\<lambda>_. Some (4096, 1000)), fs_open = (\<lambda>_. Inr ()),
      fs_rglob_mcap = (\<lambda>_. [split_slash (rebuild_hive_key sample_dims)]),
      fs_metadata = (\<lambda>_. Inr ([], None)), fs_stable = (\<lambda>_. True)\<rparr>"

definition sample_local_listing :: listing where
  "sample_local_listing =
     \<lparr>lst_key = rebuild_hive_key sample_dims,
      lst_stat = \<lparr>st_size = 4096, st_etag = local_etag 4096 1000, st_mtime_ns = 1000\<rparr>\<rparr>"

lemma sample_key_parts:
  "split_slash (rebuild_hive_key sample_dims) =
    [''customer=acme'', ''customer_site=berlin'', ''robot=r1'', ''source=bag'', ''date=2026-05-19'', ''rosbox_0.mcap'']"
  by (simp add: rebuild_hive_key_def sample_dims_def)

lemma sample_local_listed: "src_list (local_source sample_fs root) = Inr [sample_local_listing]"
proof -
  have "local_visible (split_slash (rebuild_hive_key sample_dims))"
    unfolding sample_key_parts by (simp add: local_visible_def is_catalogable_name_iff suffix_to_prefix)
  moreover have "join_slash (split_slash (rebuild_hive_key sample_dims)) = rebuild_hive_key sample_dims"
    unfolding sample_key_parts by (simp add: rebuild_hive_key_def sample_dims_def)
  ultimately show ?thesis
    by (simp add: local_source_def local_list_all_def List.map_filter_simps sample_fs_def local_stat_def
        sample_local_listing_def)
qed

lemma sample_local_resolves:
  "resolve_key_dims (local_source sample_fs root) (lst_key sample_local_listing) =
    Some (sample_dims, rebuild_hive_key sample_dims)"
  by (simp add: resolve_key_dims_Some local_source_def sample_fs_def extract_s3_key_def sample_local_listing_def)

lemma one_listing_distinct:
  "resolve_key_dims source (lst_key l) = Some (ds, eff) \<Longrightarrow> distinct_objects source [l]"
  by (simp add: distinct_objects_def unparseable_def List.map_filter_simps)

lemma first_reconcile_catalogs:
  assumes ls: "src_list source = Inr [l]" and r: "resolve_key_dims source (lst_key l) = Some (sample_dims, eff)"
    and "read_summary get_summary source (lst_key l) (lst_stat l) = Inr summary" and "acceptable (lst_stat l) summary 0"
  obtains t w1 f where "full_reconcile get_summary rev source workers (connect empty_db (\<lambda>_. 1)) = (Inr t, w1)"
    and "file_at (working w1) sample_dims = Some f"
proof -
  let ?w = "connect empty_db (\<lambda>_. 1 :: int)"
  have perm: "\<And>js. mset (rev js) = mset js" by simp
  obtain t w1 where first: "full_reconcile get_summary rev source workers ?w = (Inr t, w1)"
    and effect: "verdict_effect (listing_verdict get_summary source (catalog_of (working ?w)) l sample_dims eff)
      sample_dims eff (catalog_of (working ?w)) (catalog_of (working w1))"
    using reconcile_outcome [OF fresh_in_sync sane_sample_clock ls perm one_listing_distinct [OF r],
        where get_summary = get_summary and workers = workers] r by (metis list.set_intros(1))
  have "file_at empty_db sample_dims = None"
    by (simp add: file_at_def ident_of_def lookup_ids_def empty_db_def)
  then have "listing_verdict get_summary source (catalog_of (working ?w)) l sample_dims eff =
      Accepted sample_dims eff (lst_stat l) summary"
    using assms(3,4)
    by (simp add: listing_verdict_def unchanged_in_def connect_def job_verdict_def extract_job_def
        extract_summary_def judge_summary_def)
  with effect obtain f where "file_at (working w1) sample_dims = Some f" by auto
  with first show ?thesis by (rule that)
qed

theorem local_event_after_reconcile_witness:
  "\<exists>t w1 r w2. full_reconcile sample_reader rev (local_source sample_fs ''/lake'') 2 (connect empty_db (\<lambda>_. 1)) = (Inr t, w1) \<and>
    catalog_object sample_reader (lst_key sample_local_listing) (local_source sample_fs ''/lake'') None w1 = (Inr r, w2) \<and>
    res_status r = Skipped"
proof -
  let ?s = "local_source sample_fs ''/lake''"
  have "read_summary sample_reader ?s key st = Inr sample_summary" for key st
    using sample_reads by (simp add: read_summary_def local_source_def sample_fs_def sample_source_def)
  moreover have "acceptable (lst_stat sample_local_listing) sample_summary 0"
    using sample_acceptable by (simp add: acceptable_def sample_local_listing_def sample_stat_def fits_sqlite_def)
  ultimately obtain t w1 f where first: "full_reconcile sample_reader rev ?s 2 (connect empty_db (\<lambda>_. 1)) = (Inr t, w1)"
    and f: "file_at (working w1) sample_dims = Some f"
    by (rule first_reconcile_catalogs [OF sample_local_listed sample_local_resolves])
  then show ?thesis
    using local_event_after_reconcile [OF fresh_in_sync sane_sample_clock sample_local_listed _
        one_listing_distinct [OF sample_local_resolves] first _ sample_local_resolves f] by fastforce
qed

end
