(* ===== verification/Object_Storage.thy ===== *)
theory Object_Storage
  imports Source_Contract Retry
begin

text \<open>
  \<open>s3_storage.py\<close> and \<open>gcs_storage.py\<close>: the object-store backends. The client libraries are parameters: what
  the \<open>i\<close>-th attempt of a request gives is a function of the request and \<open>i\<close>. The readers turn the reads
  of the MCAP library into range requests; the sources turn HEAD and LIST answers into fingerprints.
\<close>

section \<open>Errors of the clients\<close>

text \<open>
  What the classifiers look at in an exception: its class name, \<open>response["Error"]["Code"]\<close> (botocore) and
  the attribute \<open>code\<close> (google.api_core), where it has them.
\<close>

record cloud_error =
  ce_class :: string
  ce_text :: string
  ce_response_code :: "string option"
  ce_code :: "int option"

definition cloud_exn :: "cloud_error \<Rightarrow> exn" where
  "cloud_exn e = Exn (ce_class e) (ce_text e)"

definition assertion_error :: exn where
  "assertion_error = Exn ''AssertionError'' []"

definition MISSING_CODES :: "string set" where
  "MISSING_CODES = {''404'', ''NoSuchKey'', ''NotFound''}"

definition PERMANENT_CODES :: "string set" where
  "PERMANENT_CODES = MISSING_CODES \<union> {''403'', ''AccessDenied'', ''Forbidden'', ''400'', ''InvalidRequest''}"

definition is_missing :: "cloud_error \<Rightarrow> bool" where
  "is_missing e = (case ce_response_code e of None \<Rightarrow> False | Some c \<Rightarrow> c \<in> MISSING_CODES)"

definition is_permanent :: "cloud_error \<Rightarrow> bool" where
  "is_permanent e = (case ce_response_code e of None \<Rightarrow> False | Some c \<Rightarrow> c \<in> PERMANENT_CODES)"

definition GCS_PERMANENT_CODES :: "int set" where
  "GCS_PERMANENT_CODES = {400, 403, 404}"

definition gcs_is_permanent :: "cloud_error \<Rightarrow> bool" where
  "gcs_is_permanent e \<longleftrightarrow>
     (case ce_code e of None \<Rightarrow> False | Some c \<Rightarrow> c \<in> GCS_PERMANENT_CODES) \<or>
     ce_class e \<in> {''NotFound'', ''Forbidden'', ''BadRequest''}"

section \<open>Fingerprints\<close>

text \<open>A datetime as the code reads it: \<open>timegm(utctimetuple())\<close> and its microseconds.\<close>

record datetime =
  dt_utc_seconds :: int
  dt_microsecond :: int

definition last_modified_ns :: "datetime option \<Rightarrow> int" where
  "last_modified_ns t =
     (case t of None \<Rightarrow> 0 | Some t \<Rightarrow> dt_utc_seconds t * 1000000000 + dt_microsecond t * 1000)"

definition updated_ns :: "datetime option \<Rightarrow> int" where
  "updated_ns t =
     (case t of None \<Rightarrow> 0 | Some t \<Rightarrow> dt_utc_seconds t * 1000000000 + dt_microsecond t * 1000)"

definition strip_quotes :: "string \<Rightarrow> string" where
  "strip_quotes s = rev (dropWhile (\<lambda>c. c = CHR 0x22) (rev (dropWhile (\<lambda>c. c = CHR 0x22) s)))"

text \<open>What HEAD and LIST say of an S3 object, and the attributes of a GCS blob.\<close>

record s3_object =
  o_key :: string
  o_size :: int
  o_etag :: string
  o_last_modified :: "datetime option"

record gcs_blob =
  blob_name :: string
  blob_size :: int
  blob_generation :: int
  blob_updated :: "datetime option"

definition s3_object_stat :: "s3_object \<Rightarrow> stat" where
  "s3_object_stat o1 =
     \<lparr>st_size = o_size o1, st_etag = strip_quotes (o_etag o1), st_mtime_ns = last_modified_ns (o_last_modified o1)\<rparr>"

definition stat_from_blob :: "gcs_blob \<Rightarrow> stat" where
  "stat_from_blob b =
     \<lparr>st_size = blob_size b, st_etag = show_int (blob_generation b), st_mtime_ns = updated_ns (blob_updated b)\<rparr>"

section \<open>Range readers\<close>

text \<open>A reader on an object: how a range is fetched (first and last byte, both inclusive), the object's size
  and the position. The fetch stands for client, bucket and key.\<close>

type_synonym fetch = "int \<Rightarrow> int \<Rightarrow> nat \<Rightarrow> cloud_error + bytes"

record range_reader =
  rr_fetch :: fetch
  rr_size :: int
  rr_pos :: int

datatype whence = SEEK_SET | SEEK_CUR | SEEK_END

definition HEADER_WINDOW :: int where
  "HEADER_WINDOW = 65536"

definition seek :: "int \<Rightarrow> whence \<Rightarrow> range_reader \<Rightarrow> int \<times> range_reader" where
  "seek offset whence r =
     (let base = (case whence of SEEK_SET \<Rightarrow> 0 | SEEK_CUR \<Rightarrow> rr_pos r | SEEK_END \<Rightarrow> rr_size r);
          r = r\<lparr>rr_pos := base + offset\<rparr> in
      (rr_pos r, r))"

text \<open>The outcome of a retried request as a value or an exception.\<close>

definition retried_result :: "(cloud_error, 'a) retry_run \<Rightarrow> exn + 'a" where
  "retried_result run =
     (case outcome run of Returned x \<Rightarrow> Inr x | Raised e \<Rightarrow> Inl (cloud_exn e) | Assertion_failed \<Rightarrow> Inl assertion_error)"

text \<open>
  \<open>b[:n] = body\<close> on the caller's buffer of \<open>len\<close> bytes (a \<open>memoryview\<close>): a longer body does not fit.
\<close>

definition buffer_mismatch :: exn where
  "buffer_mismatch = Exn ''ValueError''
     ''memoryview assignment: lvalue and rvalue have different structures''"

definition store_body :: "nat \<Rightarrow> bytes \<Rightarrow> range_reader \<Rightarrow> (exn + bytes) \<times> range_reader" where
  "store_body len body r =
     (if length body > len then (Inl buffer_mismatch, r)
      else (Inr body, r\<lparr>rr_pos := rr_pos r + int (length body)\<rparr>))"

text \<open>The range \<open>readinto\<close> asks for, if it asks at all; then \<open>readinto\<close> itself: the bytes put into the buffer.\<close>

definition s3_range :: "nat \<Rightarrow> range_reader \<Rightarrow> (int \<times> int) option" where
  "s3_range len r =
     (if len = 0 then None
      else if rr_pos r \<ge> rr_size r then None
      else
        let end_excl = rr_pos r + int len;
            end_excl = (if rr_pos r < HEADER_WINDOW \<and> HEADER_WINDOW < end_excl then HEADER_WINDOW else end_excl) in
        Some (rr_pos r, min end_excl (rr_size r) - 1))"

definition s3_readinto :: "nat \<Rightarrow> range_reader \<Rightarrow> (exn + bytes) \<times> range_reader" where
  "s3_readinto len r =
     (case s3_range len r of
        None \<Rightarrow> (Inr [], r)
      | Some (lo, hi) \<Rightarrow>
          (case retried_result (retry_default (rr_fetch r lo hi) is_permanent) of
             Inl e \<Rightarrow> (Inl e, r)
           | Inr body \<Rightarrow> store_body len body r))"

definition gcs_range :: "nat \<Rightarrow> range_reader \<Rightarrow> (int \<times> int) option" where
  "gcs_range len r =
     (if rr_pos r \<ge> rr_size r then None
      else Some (rr_pos r, min (rr_pos r + int len) (rr_size r) - 1))"

definition gcs_readinto :: "nat \<Rightarrow> range_reader \<Rightarrow> (exn + bytes) \<times> range_reader" where
  "gcs_readinto len r =
     (case gcs_range len r of
        None \<Rightarrow> (Inr [], r)
      | Some (lo, hi) \<Rightarrow>
          (case retried_result (retry_default (rr_fetch r lo hi) gcs_is_permanent) of
             Inl e \<Rightarrow> (Inl e, r)
           | Inr body \<Rightarrow> store_body len body r))"

section \<open>The sources\<close>

text \<open>The S3 client: HEAD and ranged GET of a key, and the pages of a LIST under a prefix.\<close>

record s3_client =
  head_object :: "string \<Rightarrow> nat \<Rightarrow> cloud_error + s3_object"
  get_object :: "string \<Rightarrow> fetch"
  list_pages :: "string \<Rightarrow> cloud_error + s3_object list list"

definition s3_stat :: "s3_client \<Rightarrow> string \<Rightarrow> exn + stat option" where
  "s3_stat c key =
     (case outcome (retry_default (head_object c key) is_permanent) of
        Returned h \<Rightarrow> Inr (Some (s3_object_stat h))
      | Raised e \<Rightarrow> if is_missing e then Inr None else Inl (cloud_exn e)
      | Assertion_failed \<Rightarrow> Inl assertion_error)"

definition s3_list_all :: "s3_client \<Rightarrow> string \<Rightarrow> exn + listing list" where
  "s3_list_all c pre =
     (case list_pages c pre of
        Inl e \<Rightarrow> Inl (cloud_exn e)
      | Inr pages \<Rightarrow>
          Inr (map (\<lambda>o1. \<lparr>lst_key = o_key o1, lst_stat = s3_object_stat o1\<rparr>)
                (filter (\<lambda>o1. suffix ''.mcap'' (o_key o1)) (concat pages))))"

definition s3_open_summary :: "s3_client \<Rightarrow> string \<Rightarrow> int \<Rightarrow> exn + range_reader" where
  "s3_open_summary c key sz = Inr \<lparr>rr_fetch = get_object c key, rr_size = sz, rr_pos = 0\<rparr>"

definition s3_source :: "s3_client \<Rightarrow> string \<Rightarrow> range_reader source" where
  "s3_source c pre =
     \<lparr>src_stat = s3_stat c, src_open = s3_open_summary c, src_list = s3_list_all c pre,
      src_event_key = Inr, src_intended_key = (\<lambda>key. None), src_wait_for_stable = (\<lambda>payload. True)\<rparr>"

text \<open>The GCS client: \<open>get_blob\<close> (None for a missing object), ranged downloads, and the blobs under a prefix.\<close>

record gcs_client =
  get_blob :: "string \<Rightarrow> nat \<Rightarrow> cloud_error + gcs_blob option"
  download :: "string \<Rightarrow> fetch"
  list_blobs :: "string \<Rightarrow> nat \<Rightarrow> cloud_error + gcs_blob list"

definition gcs_stat :: "gcs_client \<Rightarrow> string \<Rightarrow> exn + stat option" where
  "gcs_stat c key =
     (case retried_result (retry_default (get_blob c key) gcs_is_permanent) of
        Inl e \<Rightarrow> Inl e
      | Inr None \<Rightarrow> Inr None
      | Inr (Some b) \<Rightarrow> Inr (Some (stat_from_blob b)))"

definition gcs_list_all :: "gcs_client \<Rightarrow> string \<Rightarrow> exn + listing list" where
  "gcs_list_all c pre =
     (case retried_result (retry_default (list_blobs c pre) gcs_is_permanent) of
        Inl e \<Rightarrow> Inl e
      | Inr blobs \<Rightarrow>
          Inr (map (\<lambda>b. \<lparr>lst_key = blob_name b, lst_stat = stat_from_blob b\<rparr>)
                (filter (\<lambda>b. suffix ''.mcap'' (blob_name b)) blobs)))"

definition gcs_open_summary :: "gcs_client \<Rightarrow> string \<Rightarrow> int \<Rightarrow> exn + range_reader" where
  "gcs_open_summary c key sz = Inr \<lparr>rr_fetch = download c key, rr_size = sz, rr_pos = 0\<rparr>"

definition gcs_source :: "gcs_client \<Rightarrow> string \<Rightarrow> range_reader source" where
  "gcs_source c pre =
     \<lparr>src_stat = gcs_stat c, src_open = gcs_open_summary c, src_list = gcs_list_all c pre,
      src_event_key = Inr, src_intended_key = (\<lambda>key. None), src_wait_for_stable = (\<lambda>payload. True)\<rparr>"

section \<open>What a retried request gives\<close>

text \<open>A request is answered by \<open>v\<close>: transient errors, fewer than six, and then \<open>v\<close>, which is a value, a
  permanent error or the sixth failure.\<close>

definition answers :: "(nat \<Rightarrow> cloud_error + 'a) \<Rightarrow> (cloud_error \<Rightarrow> bool) \<Rightarrow> cloud_error + 'a \<Rightarrow> bool" where
  "answers fn permanent v \<longleftrightarrow>
     (\<exists>i < 6. fn i = v \<and> (\<forall>j < i. \<exists>e. fn j = Inl e \<and> \<not> permanent e) \<and>
        (i = 5 \<or> (case v of Inr _ \<Rightarrow> True | Inl e \<Rightarrow> permanent e)))"

lemma answers_outcome:
  assumes "answers fn permanent v"
  shows "outcome (retry_default fn permanent) = settled v"
proof -
  obtain i where i: "i < 6" "fn i = v" "\<forall>j < i. \<exists>e. fn j = Inl e \<and> \<not> permanent e"
    "i = 5 \<or> (case v of Inr _ \<Rightarrow> True | Inl e \<Rightarrow> permanent e)"
    using assms by (auto simp: answers_def)
  have retried: "retried fn (Some permanent) None j \<longleftrightarrow> (\<exists>e. fn j = Inl e \<and> \<not> permanent e)" for j
    by (auto simp: retried_def classified_permanent_def told_to_stop_def split: sum.splits)
  show ?thesis
  proof (rule retry_value_cases [of fn permanent])
    fix k
    assume k: "k < 6" "\<forall>j < k. retried fn (Some permanent) None j" "k = 5 \<or> \<not> retried fn (Some permanent) None k"
      "outcome (retry_default fn permanent) = settled (fn k)"
    have "\<not> i < k" using i(1,2,4) k(1,2) by (auto simp: retried split: sum.splits)
    moreover have "\<not> k < i" using i(1,3) k(3) by (auto simp: retried)
    ultimately show ?thesis using k(4) i(2) by simp
  qed
qed

lemma retried_result_answers:
  "answers fn permanent (Inr x) \<Longrightarrow> retried_result (retry_default fn permanent) = Inr x"
  by (simp add: retried_result_def answers_outcome settled_def)

text \<open>One good answer is an answer.\<close>

lemma answers_first: "fn 0 = v \<Longrightarrow> (case v of Inr _ \<Rightarrow> True | Inl e \<Rightarrow> permanent e) \<Longrightarrow> answers fn permanent v"
  unfolding answers_def by (intro exI [of _ 0]) simp

section \<open>The ranges requested\<close>

text \<open>The S3 reader never asks for more than it should: each request starts at the position, lies
  within the object, is no longer than the buffer, and one that starts in the first 64 KiB stays
  there, so that reading the magic and header never pulls message data; there is no request for an
  empty buffer or at the end.\<close>

theorem s3_range_bounds:
  "case s3_range len r of
     None \<Rightarrow> len = 0 \<or> rr_pos r \<ge> rr_size r
   | Some (lo, hi) \<Rightarrow> lo = rr_pos r \<and> lo \<le> hi \<and> hi < rr_size r \<and> hi - lo < int len \<and>
       (if lo < 65536 then hi < 65536 else True) \<and>
       (hi + 1 = min (lo + int len) (rr_size r) \<or> hi + 1 = 65536)"
  by (auto simp: s3_range_def Let_def HEADER_WINDOW_def)

text \<open>The GCS reader has no header window, and it has no guard for an empty buffer: it then asks for an
  inverted range.\<close>

lemma gcs_empty_buffer_range: "rr_pos r < rr_size r \<Longrightarrow> gcs_range 0 r = Some (rr_pos r, rr_pos r - 1)"
  by (simp add: gcs_range_def)

section \<open>Reading through a range reader\<close>

text \<open>A store that serves an object: each range inside it is answered by exactly its bytes.\<close>

definition slice :: "int \<Rightarrow> int \<Rightarrow> bytes \<Rightarrow> bytes" where
  "slice lo hi obj = take (nat (hi + 1 - lo)) (drop (nat lo) obj)"

definition serves :: "(cloud_error \<Rightarrow> bool) \<Rightarrow> fetch \<Rightarrow> bytes \<Rightarrow> bool" where
  "serves permanent f obj \<longleftrightarrow>
     (\<forall>lo hi. 0 \<le> lo \<longrightarrow> lo \<le> hi \<longrightarrow> hi < int (length obj) \<longrightarrow>
       answers (f lo hi) permanent (Inr (slice lo hi obj)))"

text \<open>Reading \<open>n\<close> bytes by raw reads, as a buffered reader does: until they are there or a read is empty.\<close>

function read_fully ::
  "(nat \<Rightarrow> range_reader \<Rightarrow> (exn + bytes) \<times> range_reader) \<Rightarrow> nat \<Rightarrow> range_reader \<Rightarrow> (exn + bytes) \<times> range_reader"
where
  "read_fully readinto n r =
     (if n = 0 then (Inr [], r)
      else
        (case readinto n r of
           (Inl e, r) \<Rightarrow> (Inl e, r)
         | (Inr b, r) \<Rightarrow>
             if b = [] \<or> length b > n then (Inr b, r)
             else
               (case read_fully readinto (n - length b) r of
                  (Inl e, r) \<Rightarrow> (Inl e, r)
                | (Inr bs, r) \<Rightarrow> (Inr (b @ bs), r))))"
  by pat_completeness auto
termination
  by (relation "measure (\<lambda>(_, n, _). n)") auto

declare read_fully.simps [simp del]

text \<open>The contract of a raw reader: nothing at the end, and otherwise some of the next bytes.\<close>

locale raw_reader =
  fixes readinto :: "nat \<Rightarrow> range_reader \<Rightarrow> (exn + bytes) \<times> range_reader"
    and permanent :: "cloud_error \<Rightarrow> bool"
  assumes at_end: "rr_pos r \<ge> rr_size r \<Longrightarrow> readinto n r = (Inr [], r)"
    and progress: "0 < n \<Longrightarrow> 0 \<le> rr_pos r \<Longrightarrow> rr_pos r < rr_size r \<Longrightarrow> rr_size r = int (length obj) \<Longrightarrow>
      serves permanent (rr_fetch r) obj \<Longrightarrow>
      \<exists>k. 0 < k \<and> k \<le> n \<and> int k \<le> rr_size r - rr_pos r \<and>
        readinto n r = (Inr (take k (drop (nat (rr_pos r)) obj)), r\<lparr>rr_pos := rr_pos r + int k\<rparr>)"
begin

lemma read_fully_object:
  assumes "0 \<le> rr_pos r" and "rr_size r = int (length obj)" and "serves permanent (rr_fetch r) obj"
    and "rr_pos r \<le> rr_size r"
  shows "read_fully readinto n r =
    (Inr (take n (drop (nat (rr_pos r)) obj)), r\<lparr>rr_pos := min (rr_pos r + int n) (rr_size r)\<rparr>)"
  using assms
proof (induction n arbitrary: r rule: less_induct)
  case (less n)
  show ?case
  proof (cases "n = 0 \<or> rr_pos r = rr_size r")
    case True
    then show ?thesis using less.prems at_end by (subst read_fully.simps) auto
  next
    case False
    obtain k where k: "0 < k" "k \<le> n" "int k \<le> rr_size r - rr_pos r"
      "readinto n r = (Inr (take k (drop (nat (rr_pos r)) obj)), r\<lparr>rr_pos := rr_pos r + int k\<rparr>)"
      using progress [of n r obj] False less.prems by auto
    let ?r = "r\<lparr>rr_pos := rr_pos r + int k\<rparr>"
    have len: "length (take k (drop (nat (rr_pos r)) obj)) = k" using k(3) less.prems by auto
    have "read_fully readinto (n - k) ?r =
        (Inr (take (n - k) (drop (nat (rr_pos ?r)) obj)), ?r\<lparr>rr_pos := min (rr_pos ?r + int (n - k)) (rr_size ?r)\<rparr>)"
      using k less.prems by (intro less.IH) auto
    moreover have "take k (drop (nat (rr_pos r)) obj) \<noteq> []" using len k(1) by auto
    moreover have "take k (drop (nat (rr_pos r)) obj) @ take (n - k) (drop (nat (rr_pos r + int k)) obj) =
        take n (drop (nat (rr_pos r)) obj)"
      using k(2) less.prems(1) take_add [of k "n - k" "drop (nat (rr_pos r)) obj"]
      by (simp add: nat_add_distrib add.commute)
    ultimately show ?thesis
      using False k len by (subst read_fully.simps) (simp add: k(4) of_nat_diff)
  qed
qed

end

text \<open>Both readers are raw readers: a range that stays inside object and buffer makes progress.\<close>

lemma fetched_progress:
  assumes "0 \<le> rr_pos r" and "rr_pos r \<le> hi" and "hi < rr_size r" and "hi - rr_pos r < int n"
    and "rr_size r = int (length obj)" and "serves permanent (rr_fetch r) obj"
    and "readinto n r = (case retried_result (retry_default (rr_fetch r (rr_pos r) hi) permanent) of
      Inl e \<Rightarrow> (Inl e, r) | Inr body \<Rightarrow> store_body n body r)"
  shows "\<exists>k. 0 < k \<and> k \<le> n \<and> int k \<le> rr_size r - rr_pos r \<and>
    readinto n r = (Inr (take k (drop (nat (rr_pos r)) obj)), r\<lparr>rr_pos := rr_pos r + int k\<rparr>)"
proof (intro exI conjI)
  let ?k = "nat (hi + 1 - rr_pos r)"
  have "answers (rr_fetch r (rr_pos r) hi) permanent (Inr (slice (rr_pos r) hi obj))"
    using assms(1-3,5,6) by (simp add: serves_def)
  moreover have "length (slice (rr_pos r) hi obj) = ?k"
    using assms(1-3,5) by (simp add: slice_def)
  ultimately show "readinto n r = (Inr (take ?k (drop (nat (rr_pos r)) obj)), r\<lparr>rr_pos := rr_pos r + int ?k\<rparr>)"
    using assms(2,4,7) by (simp add: retried_result_answers store_body_def) (simp add: slice_def)
qed (use assms in auto)

lemma s3_range_within:
  assumes "0 < n" and "rr_pos r < rr_size r"
  shows "\<exists>hi. s3_range n r = Some (rr_pos r, hi) \<and> rr_pos r \<le> hi \<and> hi < rr_size r \<and> hi - rr_pos r < int n"
  using assms
  by (cases "rr_pos r < 65536 \<and> 65536 < rr_pos r + int n") (auto simp: s3_range_def HEADER_WINDOW_def)

interpretation s3_raw: raw_reader s3_readinto is_permanent
proof unfold_locales
  fix r :: range_reader and n :: nat
  assume "rr_size r \<le> rr_pos r"
  then show "s3_readinto n r = (Inr [], r)" by (simp add: s3_readinto_def s3_range_def)
next
  fix n :: nat and r :: range_reader and obj :: bytes
  assume r: "0 < n" "0 \<le> rr_pos r" "rr_pos r < rr_size r" "rr_size r = int (length obj)" "serves is_permanent (rr_fetch r) obj"
  obtain hi where hi: "s3_range n r = Some (rr_pos r, hi)" "rr_pos r \<le> hi" "hi < rr_size r" "hi - rr_pos r < int n"
    using s3_range_within [OF r(1,3)] by blast
  then show "\<exists>k. 0 < k \<and> k \<le> n \<and> int k \<le> rr_size r - rr_pos r \<and>
      s3_readinto n r = (Inr (take k (drop (nat (rr_pos r)) obj)), r\<lparr>rr_pos := rr_pos r + int k\<rparr>)"
    using r by (intro fetched_progress [where permanent = is_permanent]) (simp_all add: s3_readinto_def)
qed

interpretation gcs_raw: raw_reader gcs_readinto gcs_is_permanent
proof unfold_locales
  fix r :: range_reader and n :: nat
  assume "rr_size r \<le> rr_pos r"
  then show "gcs_readinto n r = (Inr [], r)" by (simp add: gcs_readinto_def gcs_range_def)
next
  fix n :: nat and r :: range_reader and obj :: bytes
  assume r: "0 < n" "0 \<le> rr_pos r" "rr_pos r < rr_size r" "rr_size r = int (length obj)" "serves gcs_is_permanent (rr_fetch r) obj"
  obtain hi where hi: "gcs_range n r = Some (rr_pos r, hi)" "rr_pos r \<le> hi" "hi < rr_size r" "hi - rr_pos r < int n"
    using r(1,3) by (auto simp: gcs_range_def)
  then show "\<exists>k. 0 < k \<and> k \<le> n \<and> int k \<le> rr_size r - rr_pos r \<and>
      gcs_readinto n r = (Inr (take k (drop (nat (rr_pos r)) obj)), r\<lparr>rr_pos := rr_pos r + int k\<rparr>)"
    using r by (intro fetched_progress [where permanent = gcs_is_permanent]) (simp_all add: gcs_readinto_def)
qed

text \<open>C39. Reading an object through its range reader is reading the object: from any position, as many
  bytes as there are, over however many requests, header window and transient failures included. The
  only hypothesis is on the store: every range inside the object is answered, after fewer than six
  transient errors, by its bytes.\<close>

theorem range_readers_read_the_object:
  assumes "0 \<le> rr_pos r" and "rr_pos r \<le> rr_size r" and "rr_size r = int (length obj)"
    and "serves is_permanent (rr_fetch r) obj" and "serves gcs_is_permanent (rr_fetch r) obj"
  shows "read_fully s3_readinto n r =
      (Inr (take n (drop (nat (rr_pos r)) obj)), r\<lparr>rr_pos := min (rr_pos r + int n) (rr_size r)\<rparr>) \<and>
    read_fully gcs_readinto n r =
      (Inr (take n (drop (nat (rr_pos r)) obj)), r\<lparr>rr_pos := min (rr_pos r + int n) (rr_size r)\<rparr>)"
  using s3_raw.read_fully_object [OF assms(1,3,4,2)] gcs_raw.read_fully_object [OF assms(1,3,5,2)] by blast

definition sample_fetch :: fetch where
  "sample_fetch = (\<lambda>lo hi i. Inr (slice lo hi [1, 2, 3, 4]))"

lemma sample_serves: "serves p sample_fetch [1, 2, 3, 4]"
  unfolding serves_def by (intro allI impI answers_first) (simp_all add: sample_fetch_def)

theorem range_readers_read_the_object_witness:
  "read_fully s3_readinto 9 \<lparr>rr_fetch = sample_fetch, rr_size = 4, rr_pos = 1\<rparr> =
      (Inr [2, 3, 4], \<lparr>rr_fetch = sample_fetch, rr_size = 4, rr_pos = 4\<rparr>)"
  using range_readers_read_the_object [of "\<lparr>rr_fetch = sample_fetch, rr_size = 4, rr_pos = 1\<rparr>" "[1, 2, 3, 4]" 9]
    sample_serves by simp

section \<open>Stat and the source contract\<close>

lemma s3_stat_answers:
  assumes "answers (head_object c key) is_permanent v"
  shows "s3_stat c key =
    (case v of Inr h \<Rightarrow> Inr (Some (s3_object_stat h))
     | Inl e \<Rightarrow> if is_missing e then Inr None else Inl (cloud_exn e))"
  using answers_outcome [OF assms] by (auto simp: s3_stat_def settled_def split: sum.splits)

text \<open>A bucket whose HEAD agrees with its LIST.\<close>

definition head_agrees :: "s3_client \<Rightarrow> string \<Rightarrow> bool" where
  "head_agrees c pre \<longleftrightarrow>
     (\<forall>pages. list_pages c pre = Inr pages \<longrightarrow>
       (\<forall>o1 \<in> set (concat pages). \<exists>h. answers (head_object c (o_key o1)) is_permanent (Inr h) \<and>
          s3_object_stat h = s3_object_stat o1))"

lemma s3_listed_source:
  assumes "head_agrees c pre"
  shows "listed_source (s3_source c pre)"
proof
  fix ls l
  assume "src_list (s3_source c pre) = Inr ls" "l \<in> set ls"
  then obtain pages o1 where "list_pages c pre = Inr pages" "o1 \<in> set (concat pages)"
    "l = \<lparr>lst_key = o_key o1, lst_stat = s3_object_stat o1\<rparr>"
    by (auto simp: s3_source_def s3_list_all_def simp del: set_concat split: sum.splits)
  then show "src_stat (s3_source c pre) (lst_key l) = Inr (Some (lst_stat l))"
    using assms by (fastforce simp: head_agrees_def s3_source_def s3_stat_answers)
qed

definition blob_agrees :: "gcs_client \<Rightarrow> string \<Rightarrow> bool" where
  "blob_agrees c pre \<longleftrightarrow>
     (\<forall>blobs. retried_result (retry_default (list_blobs c pre) gcs_is_permanent) = Inr blobs \<longrightarrow>
       (\<forall>b \<in> set blobs. \<exists>h. answers (get_blob c (blob_name b)) gcs_is_permanent (Inr (Some h)) \<and>
          stat_from_blob h = stat_from_blob b))"

lemma gcs_listed_source:
  assumes "blob_agrees c pre"
  shows "listed_source (gcs_source c pre)"
proof
  fix ls l
  assume "src_list (gcs_source c pre) = Inr ls" "l \<in> set ls"
  then obtain blobs b where "retried_result (retry_default (list_blobs c pre) gcs_is_permanent) = Inr blobs"
    "b \<in> set blobs" "l = \<lparr>lst_key = blob_name b, lst_stat = stat_from_blob b\<rparr>"
    by (auto simp: gcs_source_def gcs_list_all_def split: sum.splits)
  then show "src_stat (gcs_source c pre) (lst_key l) = Inr (Some (lst_stat l))"
    using assms by (fastforce simp: blob_agrees_def gcs_source_def gcs_stat_def retried_result_answers)
qed

text \<open>Absence is never guessed: \<open>S3Source.stat\<close> reports an object as missing exactly when a HEAD was
  answered with a not-found code, after at most five transient errors. Denied, malformed or throttled
  requests raise instead, so they cannot make the builder treat a file as vanished.\<close>

theorem s3_stat_absent_iff:
  "s3_stat c key = Inr None \<longleftrightarrow>
    (\<exists>i < 6. (\<exists>e. head_object c key i = Inl e \<and> is_missing e) \<and>
      (\<forall>j < i. \<exists>e. head_object c key j = Inl e \<and> \<not> is_permanent e))"
proof -
  let ?fn = "head_object c key"
  have perm: "is_permanent e" if "is_missing e" for e
    using that by (auto simp: is_missing_def is_permanent_def PERMANENT_CODES_def split: option.splits)
  obtain i where i: "i < 6" "\<forall>j < i. retried ?fn (Some is_permanent) None j"
    "i = 5 \<or> \<not> retried ?fn (Some is_permanent) None i"
    "outcome (retry_default ?fn is_permanent) = settled (?fn i)"
    using retry_value_cases [of ?fn is_permanent] by metis
  have retried: "retried ?fn (Some is_permanent) None j \<longleftrightarrow> (\<exists>e. ?fn j = Inl e \<and> \<not> is_permanent e)" for j
    by (auto simp: retried_def classified_permanent_def told_to_stop_def split: sum.splits)
  have "s3_stat c key = Inr None \<longleftrightarrow> (\<exists>e. ?fn i = Inl e \<and> is_missing e)"
    by (cases "?fn i") (simp_all add: s3_stat_def i(4) settled_def)
  moreover have "k = i" if "?fn k = Inl e" "is_missing e" "k < 6" "\<forall>j < k. \<exists>e. ?fn j = Inl e \<and> \<not> is_permanent e" for k e
  proof (rule ccontr)
    assume "k \<noteq> i"
    then consider "k < i" | "i < k" by linarith
    then show False
    proof cases
      case 1
      then show False using i(2) that(1,2) perm by (auto simp: retried)
    next
      case 2
      then have "retried ?fn (Some is_permanent) None i" using that(4) by (simp add: retried)
      then show False using i(3) 2 that(3) by simp
    qed
  qed
  ultimately show ?thesis using i(1,2) unfolding retried by metis
qed

text \<open>At-least-once delivery is harmless: once a reconcile has catalogued a listed S3 object, the
  notification for it, delivered late or again, is skipped. The hypothesis on S3 is that HEAD agrees
  with LIST on every listed object, up to five transient errors.\<close>

theorem s3_event_after_reconcile:
  assumes "head_agrees c pre" and "in_sync w" and "sane_clock w" and "src_list (s3_source c pre) = Inr ls"
    and "\<And>js. mset (completion js) = mset js" and "distinct_objects (s3_source c pre) ls"
    and "full_reconcile get_summary completion (s3_source c pre) workers w = (Inr t, w1)"
    and "l \<in> set ls" and "resolve_key_dims (s3_source c pre) (lst_key l) = Some (ds, eff)"
    and "file_at (working w1) ds = Some f"
  shows "\<exists>r w2. catalog_object get_summary' (lst_key l) (s3_source c pre) None w1 = (Inr r, w2) \<and>
    in_sync w2 \<and> res_status r = Skipped \<and> catalog_of (working w2) = catalog_of (working w1)"
  by (rule listed_source.event_after_reconcile [OF s3_listed_source [OF assms(1)] assms(2-10)])

text \<open>A bucket with one object, read in full by its reader.\<close>

definition sample_object :: s3_object where
  "sample_object =
     \<lparr>o_key = rebuild_hive_key sample_dims, o_size = 4, o_etag = CHR 0x22 # ''abc'' @ [CHR 0x22],
      o_last_modified = Some \<lparr>dt_utc_seconds = 7, dt_microsecond = 5\<rparr>\<rparr>"

definition sample_bucket :: s3_client where
  "sample_bucket =
     \<lparr>head_object = (\<lambda>key i. Inr sample_object), get_object = (\<lambda>key. sample_fetch),
      list_pages = (\<lambda>pre. Inr [[sample_object]])\<rparr>"

theorem s3_stat_absent_iff_witness:
  "s3_stat (sample_bucket\<lparr>head_object := \<lambda>key i. Inl \<lparr>ce_class = ''ClientError'', ce_text = [],
      ce_response_code = Some (if i = 0 then ''SlowDown'' else ''404''), ce_code = None\<rparr>\<rparr>) ''k'' = Inr None"
  unfolding s3_stat_absent_iff
  by (intro exI [of _ 1]) (simp add: is_missing_def is_permanent_def PERMANENT_CODES_def MISSING_CODES_def)

lemma sample_head_agrees: "head_agrees sample_bucket pre"
  by (auto simp: head_agrees_def sample_bucket_def intro!: exI [of _ sample_object] answers_first)

lemma sample_bucket_listed:
  "src_list (s3_source sample_bucket pre) =
    Inr [\<lparr>lst_key = rebuild_hive_key sample_dims, lst_stat = \<lparr>st_size = 4, st_etag = ''abc'', st_mtime_ns = 7000005000\<rparr>\<rparr>]"
proof -
  have "suffix ''.mcap'' (rebuild_hive_key sample_dims)"
    by (simp add: rebuild_hive_key_def sample_dims_def suffix_to_prefix)
  then show ?thesis
    by (simp add: s3_source_def s3_list_all_def sample_bucket_def sample_object_def s3_object_stat_def
        strip_quotes_def last_modified_ns_def)
qed

lemma sample_bucket_resolves:
  "resolve_key_dims (s3_source sample_bucket pre) (rebuild_hive_key sample_dims) =
    Some (sample_dims, rebuild_hive_key sample_dims)"
  by (simp add: resolve_key_dims_Some s3_source_def)

definition sample_cloud_reader :: "range_reader \<Rightarrow> exn + mcap_summary option" where
  "sample_cloud_reader r =
     (case read_fully s3_readinto 4 r of (Inl e, _) \<Rightarrow> Inl e
      | (Inr b, _) \<Rightarrow> Inr (if b = [1, 2, 3, 4] then Some sample_mcap else None))"

lemma sample_cloud_reads:
  "read_summary sample_cloud_reader (s3_source sample_bucket pre) key \<lparr>st_size = 4, st_etag = e, st_mtime_ns = m\<rparr> =
    Inr sample_summary"
proof -
  let ?r = "\<lparr>rr_fetch = sample_fetch, rr_size = 4, rr_pos = 0\<rparr>"
  have "read_fully s3_readinto 4 ?r = (Inr [1, 2, 3, 4], ?r\<lparr>rr_pos := 4\<rparr>)"
    using s3_raw.read_fully_object [of ?r "[1, 2, 3, 4]" 4] sample_serves by simp
  then have "sample_cloud_reader ?r = Inr (Some sample_mcap)" by (simp add: sample_cloud_reader_def)
  moreover have "src_open (s3_source sample_bucket pre) key 4 = Inr ?r"
    by (simp add: s3_source_def s3_open_summary_def sample_bucket_def)
  ultimately show ?thesis
    using sample_reads by (simp add: read_summary_def sample_source_def summary_from_stream_def sample_reader_def)
qed

theorem s3_event_after_reconcile_witness:
  "\<exists>t w1 r w2. full_reconcile sample_cloud_reader rev (s3_source sample_bucket []) 2 (connect empty_db (\<lambda>_. 1)) = (Inr t, w1) \<and>
    catalog_object sample_cloud_reader (rebuild_hive_key sample_dims) (s3_source sample_bucket []) None w1 = (Inr r, w2) \<and>
    res_status r = Skipped"
proof -
  let ?s = "s3_source sample_bucket []"
    and ?l = "\<lparr>lst_key = rebuild_hive_key sample_dims, lst_stat = \<lparr>st_size = 4, st_etag = ''abc'', st_mtime_ns = 7000005000\<rparr>\<rparr>"
  have res: "resolve_key_dims ?s (lst_key ?l) = Some (sample_dims, rebuild_hive_key sample_dims)"
    by (simp add: sample_bucket_resolves)
  have "acceptable (lst_stat ?l) sample_summary 0"
    using sample_acceptable by (simp add: acceptable_def sample_stat_def fits_sqlite_def)
  moreover have "read_summary sample_cloud_reader ?s (lst_key ?l) (lst_stat ?l) = Inr sample_summary"
    by (simp add: sample_cloud_reads)
  ultimately obtain t w1 f where first: "full_reconcile sample_cloud_reader rev ?s 2 (connect empty_db (\<lambda>_. 1)) = (Inr t, w1)"
    and f: "file_at (working w1) sample_dims = Some f"
    using first_reconcile_catalogs [OF sample_bucket_listed res] by metis
  then show ?thesis
    using s3_event_after_reconcile [OF sample_head_agrees fresh_in_sync sane_sample_clock sample_bucket_listed _
        one_listing_distinct [OF res] first _ res f] by fastforce
qed

end
