(* ===== verification/Local_Files.thy ===== *)
theory Local_Files
  imports Reconcile "HOL-Library.Char_ord" "HOL-Library.List_Lexorder"
begin

text \<open>
  The path-based entry points for local files, beside those of \<open>Builder\<close>: fingerprints, dimensions, summaries and
  the scan of a directory. Each does what the storage interface does for the same file.
\<close>

section \<open>Fingerprint, dimensions, summary\<close>

definition stat_error :: exn where
  "stat_error = Exn ''OSError'' ''stat''"

definition get_fingerprint :: "'s local_fs \<Rightarrow> string \<Rightarrow> exn + (int \<times> int)" where
  "get_fingerprint fs path = (case fs_stat fs path of None \<Rightarrow> Inl stat_error | Some st \<Rightarrow> Inr st)"

definition synth_etag :: "int \<Rightarrow> int \<Rightarrow> string" where
  "synth_etag size_bytes mtime_ns = local_etag size_bytes mtime_ns"

definition resolve_dimensions :: "'s local_fs \<Rightarrow> string \<Rightarrow> string \<Rightarrow> exn + (dims \<times> string) option" where
  "resolve_dimensions fs path watched_root =
     (case relpath_key fs path watched_root of
        Inl e \<Rightarrow> Inl e
      | Inr key \<Rightarrow> Inr (resolve_key_dims (local_source fs watched_root) key))"

definition read_file_summary :: "('s \<Rightarrow> exn + mcap_summary option) \<Rightarrow> 's local_fs \<Rightarrow> string \<Rightarrow> exn + file_summary" where
  "read_file_summary get_summary fs path =
     (case fs_open fs path of Inl e \<Rightarrow> Inl e | Inr f \<Rightarrow> summary_from_stream get_summary f)"

text \<open>The fingerprint of a file makes the etag under which the source knows it.\<close>

lemma fingerprint_etag:
  "get_fingerprint fs (path_join root key) = Inr (sz, mtime) \<longleftrightarrow>
    local_stat fs root key = Some \<lparr>st_size = sz, st_etag = synth_etag sz mtime, st_mtime_ns = mtime\<rparr>"
  by (auto simp: get_fingerprint_def local_stat_def synth_etag_def split: option.splits)

lemma read_file_summary_source:
  "read_file_summary get_summary fs (path_join root key) = read_summary get_summary (local_source fs root) key st"
  by (simp add: read_file_summary_def read_summary_def local_source_def)

text \<open>Cataloguing a path resolves the dimensions that \<open>resolve_dimensions\<close> gives.\<close>

lemma resolve_dimensions_path:
  assumes "clean_parts parts"
  shows "resolve_dimensions fs (path_join root (join_slash parts)) root =
    Inr (resolve_key_dims (local_source fs root) (join_slash parts))"
  using local_event_key_agrees [OF assms, of fs root] by (simp add: resolve_dimensions_def local_source_def)

section \<open>Scanning a directory\<close>

text \<open>\<open>str(Path(root) / rel)\<close>: empty and dot components vanish, exactly two leading slashes stay.\<close>

definition path_str :: "string \<Rightarrow> string list \<Rightarrow> string" where
  "path_str root parts =
     (let body = join_slash (filter (\<lambda>p. p \<noteq> [] \<and> p \<noteq> ''.'') (split_slash root) @ parts) in
      if prefix ''//'' root \<and> \<not> prefix ''///'' root then ''//'' @ body
      else if prefix ''/'' root then ''/'' @ body else body)"

definition scan_disk :: "'s local_fs \<Rightarrow> string \<Rightarrow> string list" where
  "scan_disk fs watched_root = sort (map (path_str watched_root) (filter local_visible (fs_rglob_mcap fs watched_root)))"

text \<open>The scan finds exactly the files a listing of the source has, as long as each can be examined.\<close>

lemma local_list_all_keys:
  assumes "\<And>parts. parts \<in> set (fs_rglob_mcap fs root) \<Longrightarrow> local_stat fs root (join_slash parts) \<noteq> None"
  shows "map lst_key (local_list_all fs root) = map join_slash (filter local_visible (fs_rglob_mcap fs root))"
proof -
  have "map lst_key (List.map_filter (\<lambda>parts. if local_visible parts then
        (case local_stat fs root (join_slash parts) of None \<Rightarrow> None
         | Some st \<Rightarrow> Some \<lparr>lst_key = join_slash parts, lst_stat = st\<rparr>) else None) ps) = map join_slash (filter local_visible ps)"
    if "\<And>parts. parts \<in> set ps \<Longrightarrow> local_stat fs root (join_slash parts) \<noteq> None" for ps
    using that
  proof (induction ps)
    case (Cons p ps)
    then obtain st where "local_stat fs root (join_slash p) = Some st" by auto
    with Cons show ?case by (simp add: List.map_filter_simps)
  qed (simp add: List.map_filter_simps)
  from this [OF assms] show ?thesis by (simp add: local_list_all_def)
qed

lemma scan_disk_finds_listed:
  assumes "\<And>parts. parts \<in> set (fs_rglob_mcap fs root) \<Longrightarrow> local_stat fs root (join_slash parts) \<noteq> None"
  shows "length (scan_disk fs root) = length (local_list_all fs root)" and "sorted (scan_disk fs root)"
    and "mset (scan_disk fs root) = mset (map (path_str root) (filter local_visible (fs_rglob_mcap fs root)))"
proof -
  show "length (scan_disk fs root) = length (local_list_all fs root)"
    using arg_cong [OF local_list_all_keys [OF assms], of length] by (simp add: scan_disk_def)
qed (simp_all add: scan_disk_def)

end
