(* ===== verification/Json.thy ===== *)
theory Json
  imports Catalog_Prelude
begin

text \<open>
  JSON values as \<open>json.loads\<close> gives them, and the built-in conversions the request handlers apply to what
  clients send: truth, \<open>int(text)\<close> and \<open>repr\<close>. Parsing a text is a parameter of the definitions that do it.
\<close>

section \<open>Values\<close>

text \<open>Of a float only matters whether it is zero. The items of a dict are in the order of its iteration.\<close>

datatype json =
    JNull
  | JBool bool
  | JInt int
  | JFloat (jf_is_zero: bool)
  | JStr string
  | JList "json list"
  | JObj "(string \<times> json) list"

text \<open>The truth of a value, and \<open>x or default\<close> for \<open>x\<close> the result of \<open>get\<close>.\<close>

fun truthy :: "json \<Rightarrow> bool" where
  "truthy JNull = False"
| "truthy (JBool b) = b"
| "truthy (JInt i) = (i \<noteq> 0)"
| "truthy (JFloat z) = (\<not> z)"
| "truthy (JStr s) = (s \<noteq> [])"
| "truthy (JList xs) = (xs \<noteq> [])"
| "truthy (JObj kvs) = (kvs \<noteq> [])"

definition or_else :: "json option \<Rightarrow> json \<Rightarrow> json" where
  "or_else x d = (case x of None \<Rightarrow> d | Some v \<Rightarrow> if truthy v then v else d)"

fun is_str :: "json \<Rightarrow> bool" where
  "is_str (JStr _) = True"
| "is_str _ = False"

fun str_value :: "json \<Rightarrow> string" where
  "str_value (JStr s) = s"
| "str_value _ = []"

section \<open>Integers from text\<close>

text \<open>\<open>int(text)\<close>: surrounding white space, a sign, decimal digits with single underscores between them, and at
  most 4300 digits.\<close>

definition space_char :: "char \<Rightarrow> bool" where
  "space_char c \<longleftrightarrow> (of_char c :: nat) \<in> {9..13} \<union> {28..32} \<union> {0x85, 0xA0}"

definition strip_text :: "string \<Rightarrow> string" where
  "strip_text s = rev (dropWhile space_char (rev (dropWhile space_char s)))"

definition is_dec :: "char \<Rightarrow> bool" where
  "is_dec c \<longleftrightarrow> 48 \<le> (of_char c :: nat) \<and> (of_char c :: nat) \<le> 57"

fun dec_digits :: "string \<Rightarrow> string option" where
  "dec_digits [] = None"
| "dec_digits (c # s) =
     (if \<not> is_dec c then None
      else
        (case s of
           [] \<Rightarrow> Some [c]
         | d # t \<Rightarrow> map_option (Cons c) (dec_digits (if d = CHR ''_'' then t else s))))"

definition INT_MAX_STR_DIGITS :: nat where
  "INT_MAX_STR_DIGITS = 4300"

definition int_of_digits :: "string \<Rightarrow> int option" where
  "int_of_digits s =
     (case dec_digits s of
        None \<Rightarrow> None
      | Some ds \<Rightarrow> if length ds > INT_MAX_STR_DIGITS then None else Some (int (digits_value ds)))"

definition py_int :: "string \<Rightarrow> int option" where
  "py_int s =
     (case strip_text s of
        [] \<Rightarrow> None
      | c # t \<Rightarrow>
          if c = CHR ''-'' then map_option uminus (int_of_digits t)
          else if c = CHR ''+'' then int_of_digits t
          else int_of_digits (c # t))"

section \<open>Texts quoted\<close>

text \<open>\<open>repr(s)\<close>: single quotes, or double quotes when only single ones occur; escapes for backslash, the quote
  and what is not printable.\<close>

definition hex_digit :: "nat \<Rightarrow> char" where
  "hex_digit d = (if d < 10 then char_of (48 + d) else char_of (87 + d))"

definition printable :: "char \<Rightarrow> bool" where
  "printable c \<longleftrightarrow> (let n = (of_char c :: nat) in (32 \<le> n \<and> n < 127) \<or> (160 < n \<and> n \<noteq> 173))"

definition repr_char :: "char \<Rightarrow> char \<Rightarrow> string" where
  "repr_char q c =
     (if c = q \<or> c = CHR 0x5C then [CHR 0x5C, c]
      else if c = CHR 0x0A then [CHR 0x5C, CHR ''n'']
      else if c = CHR 0x0D then [CHR 0x5C, CHR ''r'']
      else if c = CHR 0x09 then [CHR 0x5C, CHR ''t'']
      else if printable c then [c]
      else [CHR 0x5C, CHR ''x'', hex_digit (of_char c div 16), hex_digit (of_char c mod 16)])"

definition py_repr :: "string \<Rightarrow> string" where
  "py_repr s =
     (let q = (if CHR 0x27 \<in> set s \<and> CHR 0x22 \<notin> set s then CHR 0x22 else CHR 0x27) in
      q # concat (map (repr_char q) s) @ [q])"

text \<open>Rendering and reading a decimal number is the identity.\<close>

lemma dec_digits_all: "s \<noteq> [] \<Longrightarrow> list_all is_dec s \<Longrightarrow> dec_digits s = Some s"
proof (induction s)
  case (Cons c s)
  show ?case
  proof (cases s)
    case (Cons d t)
    then have "d \<noteq> CHR ''_''" using Cons.prems by (auto simp: is_dec_def)
    with Cons Cons.IH Cons.prems show ?thesis by simp
  qed (use Cons.prems in simp)
qed simp

lemma show_nat_dec: "list_all is_dec (show_nat n)"
  using show_nat_digits by (fastforce simp: list_all_iff is_dec_def)

lemma is_dec_not_space: "is_dec c \<Longrightarrow> \<not> space_char c"
  by (auto simp: is_dec_def space_char_def)

lemma strip_text_id:
  assumes "s \<noteq> []" and "\<not> space_char (hd s)" and "\<not> space_char (List.last s)"
  shows "strip_text s = s"
proof -
  have "dropWhile space_char s = s" using assms(1,2) by (cases s) auto
  moreover have "dropWhile space_char (rev s) = rev s" using assms(1,3) by (cases "rev s") (auto simp: last_conv_nth hd_rev [symmetric])
  ultimately show ?thesis by (simp add: strip_text_def)
qed

lemma py_int_show_int:
  assumes "length (show_int i) \<le> 4300"
  shows "py_int (show_int i) = Some i"
proof -
  have nat: "int_of_digits (show_nat n) = Some (int n)" if "length (show_nat n) \<le> 4300" for n
    using that dec_digits_all [OF show_nat_nonempty show_nat_dec [of n]]
    by (simp add: int_of_digits_def INT_MAX_STR_DIGITS_def)
  have first: "is_dec (hd (show_nat n))" "is_dec (List.last (show_nat n))" for n
    using show_nat_dec [of n] by (simp_all add: list_all_iff)
  have nosign: "hd (show_nat n) \<noteq> CHR ''-''" "hd (show_nat n) \<noteq> CHR ''+''" for n
    using first(1) [of n] by (auto simp: is_dec_def)
  show ?thesis
  proof (cases "i < 0")
    case True
    then have i: "show_int i = CHR ''-'' # show_nat (nat (- i))" by (simp add: show_int_def)
    have "strip_text (show_int i) = show_int i"
      unfolding i using first(2) [of "nat (- i)"] is_dec_not_space
      by (intro strip_text_id) (simp_all add: space_char_def [of "CHR ''-''"])
    then show ?thesis using assms True nat [of "nat (- i)"] by (simp add: py_int_def i)
  next
    case False
    then have i: "show_int i = show_nat (nat i)" by (simp add: show_int_def)
    have "strip_text (show_int i) = show_int i"
      unfolding i using first is_dec_not_space by (intro strip_text_id) simp_all
    moreover obtain c t where "show_nat (nat i) = c # t" by (cases "show_nat (nat i)") simp_all
    ultimately show ?thesis
      using assms False nat [of "nat i"] nosign [of "nat i"] by (simp add: py_int_def i)
  qed
qed

end
