(* ===== verification/Tag_IPC.thy ===== *)
theory Tag_IPC
  imports Json Catalog_Tags
begin

text \<open>
  \<open>tag_ipc.py\<close>: client tag edits on their way to the single writer. A request is screened by the handler
  thread before anything is queued; an admitted edit is applied by the worker, whose result decides the
  reply. The socket of the server is made and removed with care for what else may be at its path. Times
  are milliseconds of the monotonic clock.
\<close>

section \<open>Results and items\<close>

datatype edit_status = Pending | Edited | Not_found | Expired | Error

record tag_edit_result =
  er_status :: edit_status
  er_tags :: "(string \<times> string \<times> bool) list"

abbreviation no_tags :: "edit_status \<Rightarrow> tag_edit_result" where
  "no_tags st \<equiv> \<lparr>er_status = st, er_tags = []\<rparr>"

record tag_edit_item =
  ti_dims :: dims
  ti_set_tags :: "(string \<times> string) list"
  ti_unset_keys :: "string list"
  ti_deadline :: int

definition DEFAULT_DEADLINE :: int where "DEFAULT_DEADLINE = 5000"
definition WAIT_MARGIN :: int where "WAIT_MARGIN = 2000"
definition MAX_BODY_BYTES :: int where "MAX_BODY_BYTES = 1 * 1024 * 1024"
definition MAX_PENDING_EDITS :: nat where "MAX_PENDING_EDITS = 32"

section \<open>Applying an edit\<close>

text \<open>\<open>now\<close> is the monotonic clock when the worker takes the item up. Whatever is raised becomes a result.\<close>

definition tag_edit_body :: "int \<Rightarrow> tag_edit_item \<Rightarrow> (writer, tag_edit_result) op" where
  "tag_edit_body now item =
     (if now > ti_deadline item then return_op (no_tags Expired)
      else
        bind_op (query (\<lambda>d. lookup_file_id d (ti_dims item))) (\<lambda>file_id.
        case file_id of
          None \<Rightarrow> return_op (no_tags Not_found)
        | Some i \<Rightarrow>
            bind_op (update_tags i (Some (ti_set_tags item)) (Some (ti_unset_keys item))) (\<lambda>_.
            bind_op (query (\<lambda>d. effective_tags_of d i)) (\<lambda>rows.
            return_op \<lparr>er_status = Edited, er_tags = rows\<rparr>))))"

definition handle_tag_edit :: "int \<Rightarrow> tag_edit_item \<Rightarrow> writer \<Rightarrow> tag_edit_result \<times> writer" where
  "handle_tag_edit now item w =
     (case tag_edit_body now item w of
        (Inr r, w) \<Rightarrow> (r, w)
      | (Inl e, w) \<Rightarrow> (no_tags Error, w))"

section \<open>Screening a request\<close>

text \<open>A POST: its path, the \<open>Content-Length\<close> header, and the body as read from the socket: None stands for an
  \<open>OSError\<close> in the middle.\<close>

record request =
  rq_path :: string
  rq_content_length :: "string option"
  rq_read :: "nat \<Rightarrow> bytes option"

text \<open>What becomes of it before the queue: an immediate reply, a dropped connection, an exception that leaves
  the handler (and closes the connection), or an edit to be queued.\<close>

datatype screened =
    Answer int json
  | Dropped
  | Escapes exn
  | Admit dims "(string \<times> string) list" "string list"

definition error_body :: "string \<Rightarrow> json" where
  "error_body msg = JObj [(''error'', JStr msg)]"

definition bad_request :: "string \<Rightarrow> screened" where
  "bad_request msg = Answer 400 (error_body msg)"

definition quoted :: "string \<Rightarrow> string" where
  "quoted s = [CHR 0x27] @ s @ [CHR 0x27]"

definition bad_entry :: "string \<Rightarrow> string" where
  "bad_entry k = quoted ''set_tags'' @ '' entry '' @ py_repr k @ '' must map a string key to a string value''"

definition screen_unset :: "dims \<Rightarrow> (string \<times> string) list \<Rightarrow> (string \<times> json) list \<Rightarrow> screened" where
  "screen_unset dims set_tags body =
     (case or_else (map_of body ''unset_keys'') (JList []) of
        JList ks \<Rightarrow>
          if list_all is_str ks then Admit dims set_tags (map str_value ks)
          else bad_request (quoted ''unset_keys'' @ '' must be a list of strings'')
      | _ \<Rightarrow> bad_request (quoted ''unset_keys'' @ '' must be a list of strings''))"

definition screen_tags :: "dims \<Rightarrow> (string \<times> json) list \<Rightarrow> screened" where
  "screen_tags dims body =
     (case or_else (map_of body ''set_tags'') (JObj []) of
        JObj kvs \<Rightarrow>
          (case find (\<lambda>(k, v). \<not> is_str v) kvs of
             Some (k, _) \<Rightarrow> bad_request (bad_entry k)
           | None \<Rightarrow> screen_unset dims (map (\<lambda>(k, v). (k, str_value v)) kvs) body)
      | _ \<Rightarrow> bad_request (quoted ''set_tags'' @ '' must be an object''))"

definition screen_body :: "json \<Rightarrow> screened" where
  "screen_body body =
     (case body of
        JObj body \<Rightarrow>
          (case map_of body ''key'' of
             Some (JStr key) \<Rightarrow>
               if key = [] then bad_request (''missing/invalid '' @ quoted ''key'')
               else
                 (case parse_hive_key key of
                    None \<Rightarrow> bad_request ''unparseable key''
                  | Some dims \<Rightarrow>
                      if rebuild_hive_key dims \<noteq> lstrip_slash key then bad_request ''unparseable key''
                      else screen_tags dims body)
           | _ \<Rightarrow> bad_request (''missing/invalid '' @ quoted ''key''))
      | _ \<Rightarrow> bad_request ''body must be a JSON object'')"

text \<open>\<open>loads\<close> stands for decoding and parsing the body; its two documented errors are caught.\<close>

definition screen :: "(bytes \<Rightarrow> exn + json) \<Rightarrow> request \<Rightarrow> screened" where
  "screen loads rq =
     (if rq_path rq \<noteq> ''/update_tags'' then Answer 404 (error_body ''not found'')
      else
        (case rq_content_length rq of
           None \<Rightarrow> bad_request ''missing Content-Length''
         | Some raw_length \<Rightarrow>
             (case py_int raw_length of
                None \<Rightarrow> bad_request ''malformed Content-Length''
              | Some len \<Rightarrow>
                  if len < 0 then bad_request ''negative Content-Length''
                  else if len > MAX_BODY_BYTES then Answer 413 (error_body ''body too large'')
                  else
                    (case (if len = 0 then Some [] else rq_read rq (nat len)) of
                       None \<Rightarrow> Dropped
                     | Some raw \<Rightarrow>
                         (case loads raw of
                            Inl e \<Rightarrow>
                              if exn_type e \<in> {''JSONDecodeError'', ''UnicodeDecodeError''}
                              then bad_request ''malformed JSON body'' else Escapes e
                          | Inr body \<Rightarrow> screen_body body)))))"

text \<open>The reply to an admitted edit whose result is in.\<close>

definition tag_json :: "string \<times> string \<times> bool \<Rightarrow> json" where
  "tag_json = (\<lambda>(k, v, o1). JObj [(''key'', JStr k), (''value'', JStr v), (''is_override'', JBool o1)])"

definition busy_reply :: "int \<times> json" where
  "busy_reply = (503, error_body ''busy'')"

definition reply_to :: "tag_edit_result \<Rightarrow> int \<times> json" where
  "reply_to r =
     (case er_status r of
        Edited \<Rightarrow> (200, JObj [(''tags'', JList (map tag_json (er_tags r)))])
      | Not_found \<Rightarrow> (404, error_body ''file not found'')
      | Expired \<Rightarrow> busy_reply
      | _ \<Rightarrow> (500, error_body ''internal error''))"

section \<open>What the screening lets through\<close>

lemma is_str_value: "is_str v \<Longrightarrow> JStr (str_value v) = v"
  by (cases v) simp_all

lemma strings_of_list: "list_all is_str vs \<and> ks = map str_value vs \<longleftrightarrow> vs = map JStr ks"
proof
  assume "list_all is_str vs \<and> ks = map str_value vs"
  then show "vs = map JStr ks" by (induction vs arbitrary: ks) (simp_all add: is_str_value)
next
  assume "vs = map JStr ks"
  then show "list_all is_str vs \<and> ks = map str_value vs" by (simp add: list_all_iff comp_def)
qed

lemma strings_of_dict:
  "find (\<lambda>(k, v). \<not> is_str v) items = None \<and> kvs = map (\<lambda>(k, v). (k, str_value v)) items \<longleftrightarrow>
    items = map (\<lambda>(k, s). (k, JStr s)) kvs"
proof
  assume "find (\<lambda>(k, v). \<not> is_str v) items = None \<and> kvs = map (\<lambda>(k, v). (k, str_value v)) items"
  then show "items = map (\<lambda>(k, s). (k, JStr s)) kvs"
    by (induction items arbitrary: kvs) (auto simp: is_str_value split: if_splits)
next
  assume "items = map (\<lambda>(k, s). (k, JStr s)) kvs"
  then show "find (\<lambda>(k, v). \<not> is_str v) items = None \<and> kvs = map (\<lambda>(k, v). (k, str_value v)) items"
    by (auto simp: find_None_iff comp_def case_prod_beta)
qed

lemma screen_unset_Admit:
  "screen_unset ds kvs body = Admit ds' kvs' ks \<longleftrightarrow>
    ds' = ds \<and> kvs' = kvs \<and> or_else (map_of body ''unset_keys'') (JList []) = JList (map JStr ks)"
proof (cases "or_else (map_of body ''unset_keys'') (JList [])")
  case (JList vs)
  then show ?thesis
    using strings_of_list [of vs ks] by (auto simp: screen_unset_def bad_request_def)
qed (simp_all add: screen_unset_def bad_request_def)

lemma screen_tags_Admit:
  "screen_tags ds body = Admit ds' kvs ks \<longleftrightarrow>
    ds' = ds \<and> or_else (map_of body ''set_tags'') (JObj []) = JObj (map (\<lambda>(k, s). (k, JStr s)) kvs) \<and>
    or_else (map_of body ''unset_keys'') (JList []) = JList (map JStr ks)"
proof (cases "or_else (map_of body ''set_tags'') (JObj [])")
  case (JObj items)
  then show ?thesis
    using strings_of_dict [of items kvs]
    by (auto simp: screen_tags_def screen_unset_Admit bad_request_def split: option.splits)
qed (simp_all add: screen_tags_def bad_request_def)

lemma screen_body_Admit:
  "screen_body v = Admit ds kvs ks \<longleftrightarrow>
    (\<exists>body key. v = JObj body \<and> map_of body ''key'' = Some (JStr key) \<and> trusted_dims key = Some ds \<and>
      or_else (map_of body ''set_tags'') (JObj []) = JObj (map (\<lambda>(k, s). (k, JStr s)) kvs) \<and>
      or_else (map_of body ''unset_keys'') (JList []) = JList (map JStr ks))"
proof -
  have empty: "trusted_dims [] = None" by (simp add: trusted_dims_def parse_hive_key_def lstrip_slash_def match_literal_def)
  show ?thesis
    using empty
    by (auto simp: screen_body_def screen_tags_Admit bad_request_def trusted_dims_def [unfolded Let_def]
        split: json.splits option.splits if_splits simp del: trusted_dims_Some)
qed

text \<open>The body a request delivers, and whether it is read at all.\<close>

definition body_of :: "request \<Rightarrow> bytes option" where
  "body_of rq =
     (case rq_content_length rq of
        None \<Rightarrow> None
      | Some raw_length \<Rightarrow>
          (case py_int raw_length of
             None \<Rightarrow> None
           | Some len \<Rightarrow>
               if len < 0 \<or> len > MAX_BODY_BYTES then None
               else if len = 0 then Some [] else rq_read rq (nat len)))"


text \<open>A body is only read within the bound, and only after its length was checked: what the socket would
  give for any other length makes no difference, and a bad or excessive length is answered (400, 413)
  without looking at the body.\<close>

theorem screen_reads_within_bound:
  assumes "\<And>n. 0 < n \<Longrightarrow> n \<le> 1048576 \<Longrightarrow> f n = rq_read rq n"
  shows "screen loads (rq\<lparr>rq_read := f\<rparr>) = screen loads rq \<and>
    (case rq_content_length rq of
       None \<Rightarrow> True
     | Some raw \<Rightarrow>
         (case py_int raw of
            None \<Rightarrow> True
          | Some len \<Rightarrow> if rq_path rq = ''/update_tags'' \<and> len > 1048576
              then screen loads rq = Answer 413 (error_body ''body too large'') else True))"
proof
  have "f (nat len) = rq_read rq (nat len)" if "len \<noteq> 0" "\<not> len < 0" "\<not> MAX_BODY_BYTES < len" for len
    using that by (intro assms) (simp_all add: MAX_BODY_BYTES_def)
  then show "screen loads (rq\<lparr>rq_read := f\<rparr>) = screen loads rq"
    by (simp add: screen_def split: option.splits)
qed (auto simp: screen_def MAX_BODY_BYTES_def split: option.splits)

section \<open>What the worker does with an edit\<close>

lemma effective_tags_map:
  assumes "tags_wf d"
  shows "map_of (effective_tags_of d i) k = effective_value d i k"
proof (cases "effective_value d i k")
  case None
  then have "k \<notin> fst ` set (effective_tags_of d i)" using effective_tags_of_iff [OF assms] by force
  with None show ?thesis by (simp add: map_of_eq_None_iff)
next
  case (Some e)
  then show ?thesis
    using effective_tags_of_iff [OF assms, of k e i] effective_tags_of_distinct [OF assms, of i] by simp
qed

text \<open>The tags a reader sees of a file after an edit.\<close>

definition tags_after :: "tag_edit_item \<Rightarrow> (string \<Rightarrow> (string \<times> bool) option) \<Rightarrow> string \<Rightarrow> (string \<times> bool) option" where
  "tags_after item before k =
     (if k \<in> set (ti_unset_keys item) then None
      else (case map_of (rev (ti_set_tags item)) k of Some v \<Rightarrow> Some (v, True) | None \<Rightarrow> before k))"

lemma handle_tag_edit_run:
  assumes s: "in_sync w"
  obtains (expired) "now > ti_deadline item" and "handle_tag_edit now item w = (no_tags Expired, w)"
  | (not_found) "now \<le> ti_deadline item" and "file_at (working w) (ti_dims item) = None"
      and "handle_tag_edit now item w = (no_tags Not_found, w)"
  | (edited) f w' where "now \<le> ti_deadline item" and "file_at (working w) (ti_dims item) = Some f"
      and "handle_tag_edit now item w =
        (\<lparr>er_status = Edited, er_tags = effective_tags_of (working w') (f_id f)\<rparr>, w')"
      and "in_sync w'" and "ticks w' = ticks w"
      and "effective_value (working w') (f_id f) = tags_after item (effective_value (working w) (f_id f))"
      and "\<exists>ov. catalog_of (working w') = (catalog_of (working w))\<lparr>cat_override :=
        (cat_override (catalog_of (working w)))(ti_dims item := ov)\<rparr>"
proof (cases "now > ti_deadline item")
  case True
  then show ?thesis by (intro expired) (simp_all add: handle_tag_edit_def tag_edit_body_def)
next
  case False
  have wf: "db_wf (working w)" using s by auto
  show ?thesis
  proof (cases "file_at (working w) (ti_dims item)")
    case None
    then show ?thesis
      using False
      by (intro not_found)
        (simp_all add: handle_tag_edit_def tag_edit_body_def query_def lookup_file_id_file_at [OF wf])
  next
    case (Some f)
    obtain w' where w': "update_tags (f_id f) (Some (ti_set_tags item)) (Some (ti_unset_keys item)) w = (Inr (), w')"
      and s': "in_sync w'"
      and cat: "catalog_of (working w') = (catalog_of (working w))\<lparr>cat_override :=
        (cat_override (catalog_of (working w)))(ti_dims item :=
          edit_overrides (ticks w (reads w)) (tags_at (tags_embedded (working w)) (working w) (ti_dims item))
            (ti_set_tags item) (ti_unset_keys item) (tags_at (tags_override (working w)) (working w) (ti_dims item)))\<rparr>"
      and em: "tags_embedded (working w') = tags_embedded (working w)"
      and ov: "tags_override (working w') =
        edited_rows (f_id f) (ticks w (reads w)) (ti_set_tags item) (ti_unset_keys item) (working w)"
      by (rule update_tags_in_sync [OF s Some, of "Some (ti_set_tags item)" "Some (ti_unset_keys item)"]) simp
    have run: "handle_tag_edit now item w =
        (\<lparr>er_status = Edited, er_tags = effective_tags_of (working w') (f_id f)\<rparr>, w')"
      using False Some w'
      by (simp add: handle_tag_edit_def tag_edit_body_def query_def lookup_file_id_file_at [OF wf])
    have "effective_value (working w') (f_id f) k = tags_after item (effective_value (working w) (f_id f)) k" for k
      unfolding tags_after_def
      by (rule effective_after_edit [OF _ em], unfold ov)
        (use fun_cong [OF map_of_edited_rows [of "f_id f" "ticks w (reads w)" "ti_set_tags item" "ti_unset_keys item" "working w" "f_id f"], of k] in simp)
    moreover have "ticks w' = ticks w"
      using w' update_tags_run [of "f_id f" w "Some (ti_set_tags item)" "Some (ti_unset_keys item)"] Some wf
      by (auto simp: file_at_iff db_wf_def)
    ultimately show ?thesis
      using False Some run s' by (intro edited [of f w']) (auto simp: cat)
  qed
qed

text \<open>C23. A queued edit is applied as a whole or not at all, and the result says which. Past its deadline, or for
  a file that is not in the catalog, nothing changes; otherwise the file's overrides change as asked, no
  other part of the catalog does, and the tags returned are those a reader sees from then on: an unset
  key gone, a set key with its last value, the others as before. It never raises, and the reply is 200,
  404 or 503 accordingly.\<close>

theorem handle_tag_edit_correct:
  assumes "in_sync w" and "handle_tag_edit now item w = (r, w')"
  shows "in_sync w' \<and>
    (if now > ti_deadline item then er_status r = Expired \<and> w' = w \<and> reply_to r = busy_reply
     else
       (case file_at (working w) (ti_dims item) of
          None \<Rightarrow> er_status r = Not_found \<and> w' = w \<and> fst (reply_to r) = 404
        | Some f \<Rightarrow> er_status r = Edited \<and> fst (reply_to r) = 200 \<and>
            map_of (er_tags r) = tags_after item (effective_value (working w) (f_id f)) \<and>
            map_of (er_tags r) = effective_value (working w') (f_id f) \<and>
            (\<exists>ov. catalog_of (working w') = (catalog_of (working w))\<lparr>cat_override :=
              (cat_override (catalog_of (working w)))(ti_dims item := ov)\<rparr>)))"
using assms(1)
proof (cases rule: handle_tag_edit_run [of _ item now, consumes 1, case_names expired not_found edited])
  case expired
  then show ?thesis using assms by (auto simp: reply_to_def)
next
  case not_found
  then show ?thesis using assms by (auto simp: reply_to_def)
next
  case (edited f w'')
  then have r: "r = \<lparr>er_status = Edited, er_tags = effective_tags_of (working w') (f_id f)\<rparr>" "w'' = w'"
    using assms(2) by simp_all
  then have "tags_wf (working w')" using edited(4) by (auto simp: db_wf_def)
  then have "map_of (er_tags r) = effective_value (working w') (f_id f)"
    using effective_tags_map r by (simp add: fun_eq_iff)
  then show ?thesis using edited r by (simp add: reply_to_def)
qed

text \<open>A request that edits the tags of the sample file.\<close>

definition sample_item :: tag_edit_item where
  "sample_item = \<lparr>ti_dims = sample_dims, ti_set_tags = [(''note'', ''new'')], ti_unset_keys = [''robot_mode''], ti_deadline = 5000\<rparr>"

theorem handle_tag_edit_correct_witness:
  "er_status (fst (handle_tag_edit 4000 sample_item sample_writer)) = Edited \<and>
    map_of (er_tags (fst (handle_tag_edit 4000 sample_item sample_writer))) ''note'' = Some (''new'', True) \<and>
    map_of (er_tags (fst (handle_tag_edit 4000 sample_item sample_writer))) ''robot_mode'' = None \<and>
    er_status (fst (handle_tag_edit 6000 sample_item sample_writer)) = Expired"
proof -
  note run = handle_tag_edit_correct [OF sample_writer_in_sync prod.collapse [symmetric]]
  have at: "file_at (working sample_writer) (ti_dims sample_item) = Some sample_row"
    by (simp add: sample_file_at sample_item_def)
  have deadline: "\<not> 4000 > ti_deadline sample_item" "6000 > ti_deadline sample_item"
    by (simp_all add: sample_item_def)
  have "tags_after sample_item before ''note'' = Some (''new'', True)" "tags_after sample_item before ''robot_mode'' = None" for before
    by (simp_all add: tags_after_def sample_item_def)
  then show ?thesis
    using run [of 4000 sample_item] run [of 6000 sample_item] unfolding at if_not_P [OF deadline(1)] if_P [OF deadline(2)]
    by simp
qed

definition sample_body :: json where
  "sample_body = JObj [(''key'', JStr (rebuild_hive_key sample_dims)),
     (''set_tags'', JObj [(''note'', JStr ''new'')]), (''unset_keys'', JList [JStr ''robot_mode''])]"

definition sample_request :: request where
  "sample_request = \<lparr>rq_path = ''/update_tags'', rq_content_length = Some '' 20 '', rq_read = (\<lambda>n. Some (replicate n 0))\<rparr>"

theorem screen_reads_within_bound_witness:
  "screen (\<lambda>raw. Inr sample_body) (sample_request\<lparr>rq_content_length := Some ''1048577''\<rparr>) =
      Answer 413 (error_body ''body too large'') \<and>
    screen (\<lambda>raw. Inr sample_body) (sample_request\<lparr>rq_read := \<lambda>n. if n \<le> 1048576 then Some (replicate n 0) else None\<rparr>) =
      screen (\<lambda>raw. Inr sample_body) sample_request"
proof -
  have len: "py_int ''1048577'' = Some 1048577"
    by (simp add: py_int_def strip_text_def space_char_def int_of_digits_def is_dec_def digits_value_def INT_MAX_STR_DIGITS_def)
  show ?thesis
    using screen_reads_within_bound [of "rq_read sample_request" "sample_request\<lparr>rq_content_length := Some ''1048577''\<rparr>"
        "\<lambda>raw. Inr sample_body"] len
      screen_reads_within_bound [of "\<lambda>n. if n \<le> 1048576 then Some (replicate n 0) else None" sample_request
        "\<lambda>raw. Inr sample_body"]
    by (simp add: sample_request_def)
qed

section \<open>The socket of the server\<close>

text \<open>What is at a path: its inode, whether it is a UNIX socket, its permission bits.\<close>

record node =
  nd_inode :: nat
  nd_is_socket :: bool
  nd_mode :: nat

record tag_edit_server =
  ts_socket_path :: string
  ts_bound_ino :: nat
  ts_deadline :: int
  ts_wait_timeout :: int
  ts_max_pending :: nat

definition not_a_socket :: exn where
  "not_a_socket = Exn ''RuntimeError'' ''refusing to bind tag-edit socket: already exists and is NOT a UNIX socket''"

text \<open>\<open>__init__\<close>: \<open>ino\<close> is the inode the file system gives the new socket. The mode is octal 660.\<close>

definition start_server ::
  "string \<Rightarrow> int \<Rightarrow> nat \<Rightarrow> nat \<Rightarrow> (string \<rightharpoonup> node) \<Rightarrow> (exn + tag_edit_server) \<times> (string \<rightharpoonup> node)"
where
  "start_server path deadline max_pending ino fs =
     (let bind_socket = (\<lambda>fs.
        (let fs = fs(path \<mapsto> \<lparr>nd_inode = ino, nd_is_socket = True, nd_mode = 0x1B0\<rparr>) in
         (Inr \<lparr>ts_socket_path = path, ts_bound_ino = ino, ts_deadline = deadline,
              ts_wait_timeout = max deadline 0 + WAIT_MARGIN, ts_max_pending = max_pending\<rparr>, fs))) in
      case fs path of
        None \<Rightarrow> bind_socket fs
      | Some n \<Rightarrow> if \<not> nd_is_socket n then (Inl not_a_socket, fs) else bind_socket (fs(path := None)))"

definition server_close :: "tag_edit_server \<Rightarrow> (string \<rightharpoonup> node) \<Rightarrow> (string \<rightharpoonup> node)" where
  "server_close srv fs =
     (case fs (ts_socket_path srv) of
        None \<Rightarrow> fs
      | Some n \<Rightarrow> if nd_inode n \<noteq> ts_bound_ino srv then fs else fs(ts_socket_path srv := None))"

text \<open>The server takes only what is its own. It refuses to start over a file that is not a socket and leaves
  it; otherwise it replaces a stale socket by its own, readable and writable for owner and group only; on
  closing it removes that socket and nothing else, and if a successor has bound the path meanwhile it
  leaves the successor's socket alone.\<close>

theorem server_socket_safe:
  assumes "ino' \<noteq> ino"
  shows "(case start_server path deadline max_pending ino fs of
      (Inl e, fs') \<Rightarrow> fs' = fs \<and> (\<exists>n. fs path = Some n \<and> \<not> nd_is_socket n)
    | (Inr srv, fs') \<Rightarrow>
        fs' = fs(path \<mapsto> \<lparr>nd_inode = ino, nd_is_socket = True, nd_mode = 6 * 64 + 6 * 8\<rparr>) \<and>
        server_close srv fs' = fs(path := None) \<and>
        (case start_server path deadline' max_pending' ino' fs' of
           (Inl e, fs'') \<Rightarrow> False
         | (Inr srv', fs'') \<Rightarrow> server_close srv fs'' = fs'' \<and> server_close srv' fs'' = fs(path := None)))"
  using assms by (auto simp: start_server_def server_close_def Let_def split: option.splits)

theorem server_socket_safe_witness:
  "\<exists>srv fs'. start_server ''s'' 5000 32 8 [''s'' \<mapsto> \<lparr>nd_inode = 3, nd_is_socket = True, nd_mode = 511\<rparr>] = (Inr srv, fs') \<and>
    server_close srv fs' ''s'' = None \<and>
    fst (start_server ''s'' 5000 32 8 [''s'' \<mapsto> \<lparr>nd_inode = 3, nd_is_socket = False, nd_mode = 511\<rparr>]) = Inl not_a_socket"
proof -
  have "(9 :: nat) \<noteq> 8" by simp
  note safe = server_socket_safe [OF this, where path = "''s''" and deadline = 5000 and max_pending = 32
      and fs = "[''s'' \<mapsto> \<lparr>nd_inode = 3, nd_is_socket = True, nd_mode = 511\<rparr>]" and deadline' = 5000 and max_pending' = 32]
  have "fst (start_server ''s'' 5000 32 8 [''s'' \<mapsto> \<lparr>nd_inode = 3, nd_is_socket = False, nd_mode = 511\<rparr>]) = Inl not_a_socket"
    by (simp add: start_server_def)
  moreover obtain srv fs' where
    "start_server ''s'' 5000 32 8 [''s'' \<mapsto> \<lparr>nd_inode = 3, nd_is_socket = True, nd_mode = 511\<rparr>] = (Inr srv, fs')"
    by (simp add: start_server_def)
  note st = this
  moreover have "server_close srv fs' = [''s'' \<mapsto> \<lparr>nd_inode = 3, nd_is_socket = True, nd_mode = 511\<rparr>](''s'' := None)"
    using safe unfolding st prod.case sum.case by blast
  then have "server_close srv fs' ''s'' = None" by simp
  ultimately show ?thesis by auto
qed

end
