(* ===== verification/Watcher.thy ===== *)
theory Watcher
  imports Storage
begin

text \<open>
  \<open>watcher.py\<close>: file-system notifications become queued events, with one debounce timer per path. The
  handler runs on the observer's thread and the timers on threads of their own, so a timer may already be
  past its cancellation check when the handler cancels it: it is then waiting for the handler's lock.
\<close>

section \<open>Events and the handler's state\<close>

datatype watch_kind = Catalog_event | Delete_event | Rescan_event | Stop_event

record watch_event =
  we_kind :: watch_kind
  we_path :: "string option"

abbreviation event_on :: "watch_kind \<Rightarrow> string \<Rightarrow> watch_event" where
  "event_on k p \<equiv> \<lparr>we_kind = k, we_path = Some p\<rparr>"

text \<open>\<open>os.path.basename\<close>.\<close>

definition basename :: "string \<Rightarrow> string" where
  "basename p = rev (takeWhile (\<lambda>c. c \<noteq> CHR ''/'') (rev p))"

definition is_catalogable :: "string \<Rightarrow> bool" where
  "is_catalogable path =
     (let name = basename path in
      suffix ''.mcap'' name \<and> \<not> prefix ''.'' name \<and> \<not> suffix ''.mcap.tmp'' name \<and> \<not> suffix ''.part'' name)"

text \<open>
  A timer is a number. \<open>running\<close> are those started and neither cancelled nor fired, with their path; \<open>firing\<close>
  those whose \<open>_fire_catalog\<close> has begun but has not got the lock.
\<close>

record handler =
  timers :: "string \<rightharpoonup> nat"
  running :: "nat \<rightharpoonup> string"
  firing :: "nat \<rightharpoonup> string"
  next_timer :: nat
  events :: "watch_event list"

definition new_handler :: handler where
  "new_handler = \<lparr>timers = Map.empty, running = Map.empty, firing = Map.empty, next_timer = 0, events = []\<rparr>"

definition put_event :: "watch_event \<Rightarrow> handler \<Rightarrow> handler" where
  "put_event e h = h\<lparr>events := events h @ [e]\<rparr>"

text \<open>\<open>Timer.cancel\<close>: no effect on a timer that fires already.\<close>

definition cancel :: "nat \<Rightarrow> handler \<Rightarrow> handler" where
  "cancel t h = h\<lparr>running := (running h)(t := None)\<rparr>"

definition pop_timer :: "string \<Rightarrow> handler \<Rightarrow> handler" where
  "pop_timer p h = h\<lparr>timers := (timers h)(p := None)\<rparr>"

definition cancel_pending :: "string \<Rightarrow> handler \<Rightarrow> handler" where
  "cancel_pending p h = (case timers h p of None \<Rightarrow> h | Some t \<Rightarrow> cancel t (pop_timer p h))"

definition schedule_catalog :: "string \<Rightarrow> handler \<Rightarrow> handler" where
  "schedule_catalog p h =
     (let h = cancel_pending p h; t = next_timer h in
      h\<lparr>timers := (timers h)(p \<mapsto> t), running := (running h)(t \<mapsto> p), next_timer := Suc t\<rparr>)"

definition fire_catalog :: "string \<Rightarrow> handler \<Rightarrow> handler" where
  "fire_catalog p h = put_event (event_on Catalog_event p) (pop_timer p h)"

record fs_event =
  is_directory :: bool
  src_path :: string
  dest_path :: string

definition on_created :: "fs_event \<Rightarrow> handler \<Rightarrow> handler" where
  "on_created e h =
     (if \<not> is_directory e \<and> is_catalogable (src_path e) then schedule_catalog (src_path e) h else h)"

definition on_modified :: "fs_event \<Rightarrow> handler \<Rightarrow> handler" where
  "on_modified e h =
     (if \<not> is_directory e \<and> is_catalogable (src_path e) then schedule_catalog (src_path e) h else h)"

definition on_deleted :: "fs_event \<Rightarrow> handler \<Rightarrow> handler" where
  "on_deleted e h =
     (if \<not> is_directory e \<and> is_catalogable (src_path e)
      then put_event (event_on Delete_event (src_path e)) (cancel_pending (src_path e) h) else h)"

definition on_moved :: "fs_event \<Rightarrow> handler \<Rightarrow> handler" where
  "on_moved e h =
     (if is_directory e then h
      else
        let h = (if is_catalogable (src_path e) then put_event (event_on Delete_event (src_path e)) h else h) in
        (if is_catalogable (dest_path e) then schedule_catalog (dest_path e) h else h))"

definition cancel_timers :: "handler \<Rightarrow> handler" where
  "cancel_timers h =
     h\<lparr>running := (\<lambda>t. if t \<in> ran (timers h) then None else running h t), timers := Map.empty\<rparr>"

section \<open>The stability poll\<close>

text \<open>\<open>getsize i\<close> is the \<open>i\<close>-th reading, None for an \<open>OSError\<close>; \<open>there\<close> whether the file exists at the end. The
  sleeps between the readings are not observed.\<close>

fun poll_sizes :: "(nat \<Rightarrow> int option) \<Rightarrow> nat list \<Rightarrow> int list \<Rightarrow> int list option" where
  "poll_sizes getsize [] sizes = Some sizes"
| "poll_sizes getsize (i # is) sizes =
     (case getsize i of None \<Rightarrow> None | Some n \<Rightarrow> poll_sizes getsize is (sizes @ [n]))"

definition wait_for_stable :: "(nat \<Rightarrow> int option) \<Rightarrow> bool \<Rightarrow> int \<Rightarrow> bool" where
  "wait_for_stable getsize there checks =
     (case poll_sizes getsize [0..<nat checks] [] of
        None \<Rightarrow> False
      | Some sizes \<Rightarrow> there \<and> card (set sizes) = 1)"

lemma poll_sizes_iff:
  "poll_sizes getsize is sizes = Some r \<longleftrightarrow>
    (\<forall>i \<in> set is. getsize i \<noteq> None) \<and> r = sizes @ map (\<lambda>i. the (getsize i)) is"
  by (induction "is" arbitrary: sizes) (auto split: option.splits)

text \<open>A file counts as stable exactly when it was there at every one of at least one reading and at the end,
  and every reading gave the same size. Without a reading nothing is stable.\<close>

theorem wait_for_stable_iff:
  "wait_for_stable getsize there checks \<longleftrightarrow> there \<and> (\<exists>n. getsize ` {0..<nat checks} = {Some n})"
proof (cases "\<forall>i < nat checks. getsize i \<noteq> None")
  case True
  let ?g = "\<lambda>i. the (getsize i)"
  have some: "getsize ` {0..<nat checks} = Some ` ?g ` {0..<nat checks}" using True by force
  have "poll_sizes getsize [0..<nat checks] [] = Some (map ?g [0..<nat checks])" using True by (simp add: poll_sizes_iff)
  then have "wait_for_stable getsize there checks \<longleftrightarrow> there \<and> (\<exists>n. ?g ` {0..<nat checks} = {n})"
    by (simp add: wait_for_stable_def card_1_singleton_iff)
  also have "(\<exists>n. ?g ` {0..<nat checks} = {n}) \<longleftrightarrow> (\<exists>n. getsize ` {0..<nat checks} = {Some n})"
    unfolding some using inj_image_eq_iff [OF inj_Some, of "?g ` {0..<nat checks}"] by (metis image_empty image_insert)
  finally show ?thesis .
next
  case False
  then have "poll_sizes getsize [0..<nat checks] [] = None"
    by (metis atLeastLessThan_iff not_None_eq poll_sizes_iff set_upt zero_le)
  moreover have "getsize ` {0..<nat checks} \<noteq> {Some n}" for n using False by force
  ultimately show ?thesis by (simp add: wait_for_stable_def)
qed

section \<open>Interleavings\<close>

text \<open>
  Notifications and timers in any order. \<open>changed p\<close> is a ghost: how many events had been queued when \<open>p\<close> was
  last reported as created, modified or moved to, unless it has been reported as gone since.
\<close>

record watching =
  handler_of :: handler
  changed :: "string \<rightharpoonup> nat"

definition note_change :: "string \<Rightarrow> watching \<Rightarrow> (string \<rightharpoonup> nat)" where
  "note_change p s = (if is_catalogable p then (changed s)(p \<mapsto> length (events (handler_of s))) else changed s)"

inductive watch_step :: "watching \<Rightarrow> watching \<Rightarrow> bool" where
  created: "\<not> is_directory e \<Longrightarrow>
    watch_step s \<lparr>handler_of = on_created e (handler_of s), changed = note_change (src_path e) s\<rparr>"
| modified: "\<not> is_directory e \<Longrightarrow>
    watch_step s \<lparr>handler_of = on_modified e (handler_of s), changed = note_change (src_path e) s\<rparr>"
| deleted: "\<not> is_directory e \<Longrightarrow>
    watch_step s \<lparr>handler_of = on_deleted e (handler_of s), changed = (changed s)(src_path e := None)\<rparr>"
| moved: "\<not> is_directory e \<Longrightarrow>
    watch_step s \<lparr>handler_of = on_moved e (handler_of s),
      changed = note_change (dest_path e) (s\<lparr>changed := (changed s)(src_path e := None)\<rparr>)\<rparr>"
| directory: "is_directory e \<Longrightarrow> f \<in> {on_created e, on_modified e, on_deleted e, on_moved e} \<Longrightarrow>
    watch_step s (s\<lparr>handler_of := f (handler_of s)\<rparr>)"
| expires: "running (handler_of s) t = Some p \<Longrightarrow>
    watch_step s (s\<lparr>handler_of := (handler_of s)
      \<lparr>running := (running (handler_of s))(t := None), firing := (firing (handler_of s))(t \<mapsto> p)\<rparr>\<rparr>)"
| fires: "firing (handler_of s) t = Some p \<Longrightarrow>
    watch_step s (s\<lparr>handler_of := (fire_catalog p (handler_of s))\<lparr>firing := (firing (handler_of s))(t := None)\<rparr>\<rparr>)"

inductive_cases watch_stepE: "watch_step s s'"

inductive watch_reachable :: "watching \<Rightarrow> bool" where
  start: "watch_reachable \<lparr>handler_of = new_handler, changed = Map.empty\<rparr>"
| step: "watch_reachable s \<Longrightarrow> watch_step s s' \<Longrightarrow> watch_reachable s'"

text \<open>A registered timer that runs is for the path it is registered under; numbers are not reused.\<close>

definition timers_wf :: "handler \<Rightarrow> bool" where
  "timers_wf h \<longleftrightarrow>
     (\<forall>p t q. timers h p = Some t \<longrightarrow> running h t = Some q \<longrightarrow> q = p) \<and>
     (\<forall>p t. timers h p = Some t \<longrightarrow> t < next_timer h) \<and>
     (\<forall>t. running h t \<noteq> None \<longrightarrow> t < next_timer h \<and> firing h t = None) \<and>
     (\<forall>t. firing h t \<noteq> None \<longrightarrow> t < next_timer h)"

definition will_catalog :: "handler \<Rightarrow> string \<Rightarrow> nat \<Rightarrow> bool" where
  "will_catalog h p n \<longleftrightarrow>
     (\<exists>t. running h t = Some p) \<or> (\<exists>t. firing h t = Some p) \<or>
     (\<exists>i \<ge> n. i < length (events h) \<and> events h ! i = event_on Catalog_event p)"

definition watch_inv :: "watching \<Rightarrow> bool" where
  "watch_inv s \<longleftrightarrow> timers_wf (handler_of s) \<and>
     (\<forall>p n. changed s p = Some n \<longrightarrow> will_catalog (handler_of s) p n \<and> n \<le> length (events (handler_of s)))"

lemma timers_wf_new: "timers_wf new_handler"
  by (simp add: timers_wf_def new_handler_def)

lemma put_event_wf [simp]: "timers_wf (put_event e h) = timers_wf h"
  by (simp add: timers_wf_def put_event_def)

lemma put_event_length [simp]: "length (events (put_event e h)) = Suc (length (events h))"
  by (simp add: put_event_def)

lemma pop_timer_wf: "timers_wf h \<Longrightarrow> timers_wf (pop_timer p h)"
  by (auto simp: timers_wf_def pop_timer_def)

lemma cancel_pending_wf: "timers_wf h \<Longrightarrow> timers_wf (cancel_pending p h)"
  by (auto simp: timers_wf_def cancel_pending_def cancel_def pop_timer_def split: option.splits)

lemma schedule_catalog_wf:
  assumes "timers_wf h"
  shows "timers_wf (schedule_catalog p h)"
proof -
  have wf: "timers_wf (cancel_pending p h)" by (rule cancel_pending_wf [OF assms])
  have "timers_wf (g\<lparr>timers := (timers g)(p \<mapsto> next_timer g), running := (running g)(next_timer g \<mapsto> p), next_timer := Suc (next_timer g)\<rparr>)"
    if "timers_wf g" for g
    using that unfolding timers_wf_def by (auto simp: less_Suc_eq)
  from this [OF wf] show ?thesis by (simp only: schedule_catalog_def Let_def)
qed

lemma put_event_will: "will_catalog h q n \<Longrightarrow> will_catalog (put_event e h) q n"
  by (auto simp: will_catalog_def put_event_def nth_append)

lemma cancel_pending_frame [simp]:
  "firing (cancel_pending p h) = firing h" "events (cancel_pending p h) = events h"
  "next_timer (cancel_pending p h) = next_timer h"
  by (simp_all add: cancel_pending_def cancel_def pop_timer_def split: option.splits)

lemma cancel_pending_running:
  assumes "timers_wf h" and "q \<noteq> p" and "running h t = Some q"
  shows "running (cancel_pending p h) t = Some q"
proof -
  have "timers h p \<noteq> Some t" using assms unfolding timers_wf_def by blast
  then show ?thesis using assms(3) by (auto simp: cancel_pending_def cancel_def pop_timer_def split: option.splits)
qed

lemma schedule_catalog_frame [simp]:
  "firing (schedule_catalog p h) = firing h" "events (schedule_catalog p h) = events h"
  by (simp_all add: schedule_catalog_def Let_def)

lemma schedule_catalog_running:
  assumes "timers_wf h" and "q \<noteq> p" and "running h t = Some q"
  shows "running (schedule_catalog p h) t = Some q"
proof -
  have "t < next_timer h" using assms(1,3) unfolding timers_wf_def by blast
  then show ?thesis using cancel_pending_running [OF assms] by (simp add: schedule_catalog_def Let_def)
qed

lemma schedule_catalog_will:
  "will_catalog (schedule_catalog p h) p n"
  "timers_wf h \<Longrightarrow> q \<noteq> p \<Longrightarrow> will_catalog h q n \<Longrightarrow> will_catalog (schedule_catalog p h) q n"
proof -
  show "will_catalog (schedule_catalog p h) p n" by (auto simp: will_catalog_def schedule_catalog_def Let_def)
  assume "timers_wf h" "q \<noteq> p" "will_catalog h q n"
  then show "will_catalog (schedule_catalog p h) q n"
    unfolding will_catalog_def schedule_catalog_frame using schedule_catalog_running by blast
qed

lemma cancel_pending_will:
  "timers_wf h \<Longrightarrow> q \<noteq> p \<Longrightarrow> will_catalog h q n \<Longrightarrow> will_catalog (cancel_pending p h) q n"
  unfolding will_catalog_def cancel_pending_frame using cancel_pending_running by blast

text \<open>Each step keeps the invariant.\<close>

lemma schedule_inv:
  assumes "timers_wf h" and "\<And>q n. c q = Some n \<Longrightarrow> will_catalog h q n \<and> n \<le> length (events h)"
    and "c' = c(p \<mapsto> length (events h)) \<or> c' = c(p \<mapsto> m)" and "m \<le> length (events h)"
  shows "watch_inv \<lparr>handler_of = schedule_catalog p h, changed = c'\<rparr>"
  unfolding watch_inv_def
proof (intro conjI allI impI; simp)
  show "timers_wf (schedule_catalog p h)" by (rule schedule_catalog_wf [OF assms(1)])
  fix q n
  assume "c' q = Some n"
  then show "will_catalog (schedule_catalog p h) q n" "n \<le> length (events h)"
    using assms schedule_catalog_will by (cases "q = p"; auto)+
qed

lemma watch_step_inv:
  assumes "watch_inv s" and "watch_step s s'"
  shows "watch_inv s'"
proof -
  let ?h = "handler_of s"
  have wf: "timers_wf ?h" 
    and will: "\<And>p n. changed s p = Some n \<Longrightarrow> will_catalog ?h p n \<and> n \<le> length (events ?h)"
    using assms(1) by (auto simp: watch_inv_def)
  have same: "watch_inv \<lparr>handler_of = ?h, changed = changed s\<rparr>" using wf will by (simp add: watch_inv_def)
  show ?thesis
    using assms(2)
  proof cases
    case (created e)
    then show ?thesis
      using schedule_inv [OF wf will, where p = "src_path e" and m = 0] same by (auto simp: on_created_def note_change_def)
  next
    case (modified e)
    then show ?thesis
      using schedule_inv [OF wf will, where p = "src_path e" and m = 0] same by (auto simp: on_modified_def note_change_def)
  next
    case (deleted e)
    then show ?thesis
      using wf will cancel_pending_will [OF wf] cancel_pending_wf [OF wf]
      by (auto simp: on_deleted_def watch_inv_def put_event_will le_SucI)
  next
    case (moved e)
    let ?c = "(changed s)(src_path e := None)"
    let ?g = "if is_catalogable (src_path e) then put_event (event_on Delete_event (src_path e)) ?h else ?h"
    have g: "timers_wf ?g" "\<And>q n. ?c q = Some n \<Longrightarrow> will_catalog ?g q n \<and> n \<le> length (events ?g)"
      and len: "length (events ?h) \<le> length (events ?g)"
      using wf will by (auto simp: put_event_will le_SucI split: if_splits)
    show ?thesis
    proof (cases "is_catalogable (dest_path e)")
      case True
      then show ?thesis
        using moved schedule_inv [where c = ?c and h = ?g and p = "dest_path e" and m = "length (events ?h)"
            and c' = "?c(dest_path e \<mapsto> length (events ?h))", OF g _ len]
        by (simp add: on_moved_def note_change_def Let_def)
    next
      case False
      then show ?thesis using moved g by (simp add: on_moved_def note_change_def Let_def watch_inv_def)
    qed
  next
    case (directory e f)
    then have "f ?h = ?h" by (auto simp: on_created_def on_modified_def on_deleted_def on_moved_def)
    then show ?thesis using directory assms(1) by simp
  next
    case (expires t p)
    have "timers_wf (?h\<lparr>running := (running ?h)(t := None), firing := (firing ?h)(t \<mapsto> p)\<rparr>)"
      using wf expires(2) by (auto simp: timers_wf_def)
    moreover have "will_catalog (?h\<lparr>running := (running ?h)(t := None), firing := (firing ?h)(t \<mapsto> p)\<rparr>) q n"
      if w: "will_catalog ?h q n" for q n
    proof (cases "q = p")
      case False
      have "firing ?h t = None" using wf expires(2) by (simp add: timers_wf_def)
      then have "firing ?h u = Some q \<Longrightarrow> u \<noteq> t" "running ?h u = Some q \<Longrightarrow> u \<noteq> t" for u
        using expires(2) False by auto
      then show ?thesis using w unfolding will_catalog_def by simp metis
    qed (auto simp: will_catalog_def)
    ultimately show ?thesis using expires will by (simp add: watch_inv_def)
  next
    case (fires t p)
    let ?h' = "(fire_catalog p ?h)\<lparr>firing := (firing ?h)(t := None)\<rparr>"
    have "timers_wf ?h'" using wf by (auto simp: timers_wf_def fire_catalog_def put_event_def pop_timer_def)
    moreover have "will_catalog ?h' q n" if w: "changed s q = Some n" for q n
    proof (cases "q = p")
      case True
      have "n \<le> length (events ?h)" using will [OF w] by simp
      moreover have "events ?h' = events ?h @ [event_on Catalog_event p]"
        by (simp add: fire_catalog_def put_event_def pop_timer_def)
      ultimately have "\<exists>i \<ge> n. i < length (events ?h') \<and> events ?h' ! i = event_on Catalog_event p"
        by (intro exI [of _ "length (events ?h)"]) simp
      with True show ?thesis by (simp add: will_catalog_def)
    next
      case False
      have "will_catalog (fire_catalog p ?h) q n"
        using will [OF w] unfolding fire_catalog_def
        by (intro put_event_will) (simp add: will_catalog_def pop_timer_def)
      then show ?thesis
        using False fires(2) unfolding will_catalog_def
        by (simp add: fire_catalog_def put_event_def pop_timer_def) (metis option.inject)
    qed
    moreover have "length (events ?h) \<le> length (events ?h')" by (simp add: fire_catalog_def put_event_def pop_timer_def)
    then have "n \<le> length (events ?h')" if "changed s q = Some n" for q n using will [OF that] by linarith
    ultimately show ?thesis using fires by (simp add: watch_inv_def)
  qed
qed

lemma watch_reachable_inv: "watch_reachable s \<Longrightarrow> watch_inv s"
proof (induction rule: watch_reachable.induct)
  case start
  show ?case by (simp add: watch_inv_def timers_wf_new)
qed (rule watch_step_inv)

text \<open>C35. No change is lost by debouncing, in any interleaving of notifications and timer threads, even when a
  timer fires while it is being replaced. For every catalogable path reported as created, modified or moved to
  and not as gone since, a timer is running, or one is about to queue it, or a catalog event for it was
  queued after the report. Once no timer is left it is the last.\<close>

theorem no_lost_change:
  assumes "watch_reachable s" and "changed s p = Some n"
  shows "(\<exists>t. running (handler_of s) t = Some p) \<or> (\<exists>t. firing (handler_of s) t = Some p) \<or>
    (\<exists>i. n \<le> i \<and> i < length (events (handler_of s)) \<and> events (handler_of s) ! i = event_on Catalog_event p)"
  using watch_reachable_inv [OF assms(1)] assms(2) by (simp add: watch_inv_def will_catalog_def)

text \<open>A file is created; its timer fires while the file is modified again; then both timers have fired.\<close>

definition sample_fs_event :: fs_event where
  "sample_fs_event = \<lparr>is_directory = False, src_path = ''w/a.mcap'', dest_path = []\<rparr>"

lemma sample_catalogable: "is_catalogable ''w/a.mcap''"
  by (simp add: is_catalogable_def basename_def suffix_def)

theorem no_lost_change_witness:
  "\<exists>s. watch_reachable s \<and> changed s ''w/a.mcap'' = Some 0 \<and> timers (handler_of s) ''w/a.mcap'' = None \<and>
    firing (handler_of s) = Map.empty \<and> running (handler_of s) 1 = Some ''w/a.mcap'' \<and>
    ((\<exists>t. running (handler_of s) t = Some ''w/a.mcap'') \<or> (\<exists>t. firing (handler_of s) t = Some ''w/a.mcap'') \<or>
     (\<exists>i. 0 \<le> i \<and> i < length (events (handler_of s)) \<and> events (handler_of s) ! i = event_on Catalog_event ''w/a.mcap''))"
proof -
  let ?e = sample_fs_event and ?p = "''w/a.mcap''"
  define s1 where "s1 = \<lparr>handler_of = on_created ?e new_handler, changed = [?p \<mapsto> 0 :: nat]\<rparr>"
  define s2 where "s2 = s1\<lparr>handler_of := (handler_of s1)
    \<lparr>running := (running (handler_of s1))(0 := None), firing := (firing (handler_of s1))(0 \<mapsto> ?p)\<rparr>\<rparr>"
  define s3 where "s3 = \<lparr>handler_of = on_modified ?e (handler_of s2), changed = [?p \<mapsto> 0 :: nat]\<rparr>"
  define s4 where "s4 = s3\<lparr>handler_of := (fire_catalog ?p (handler_of s3))\<lparr>firing := (firing (handler_of s3))(0 := None)\<rparr>\<rparr>"
  note defs = sample_fs_event_def sample_catalogable on_created_def on_modified_def schedule_catalog_def cancel_pending_def
    cancel_def pop_timer_def Let_def new_handler_def note_change_def fire_catalog_def put_event_def
  have h1: "handler_of s1 = \<lparr>timers = [?p \<mapsto> 0], running = [0 \<mapsto> ?p], firing = Map.empty, next_timer = 1, events = []\<rparr>"
    by (simp add: s1_def defs)
  have h2: "handler_of s2 = \<lparr>timers = [?p \<mapsto> 0], running = Map.empty, firing = [0 \<mapsto> ?p], next_timer = 1, events = []\<rparr>"
    by (simp add: s2_def h1)
  have h3: "handler_of s3 = \<lparr>timers = [?p \<mapsto> 1], running = [1 \<mapsto> ?p], firing = [0 \<mapsto> ?p], next_timer = 2, events = []\<rparr>"
    by (simp add: s3_def h2 defs)
  have h4: "handler_of s4 = \<lparr>timers = Map.empty, running = [1 \<mapsto> ?p], firing = Map.empty, next_timer = 2,
      events = [event_on Catalog_event ?p]\<rparr>"
    by (simp add: s4_def h3 fire_catalog_def pop_timer_def put_event_def)
  have "watch_reachable s1"
    unfolding s1_def using watch_step.created [of ?e "\<lparr>handler_of = new_handler, changed = Map.empty\<rparr>"]
    by (intro watch_reachable.step [OF watch_reachable.start]) (simp add: defs)
  then have "watch_reachable s2"
    unfolding s2_def by (rule watch_reachable.step) (rule watch_step.expires, simp add: h1)
  moreover have "changed s2 = [?p \<mapsto> 0]" by (simp add: s2_def s1_def)
  then have "watch_step s2 s3"
    unfolding s3_def using watch_step.modified [of ?e s2] h2 by (simp add: sample_fs_event_def sample_catalogable note_change_def)
  ultimately have "watch_reachable s3" by (rule watch_reachable.step)
  then have r: "watch_reachable s4"
    unfolding s4_def by (rule watch_reachable.step) (rule watch_step.fires, simp add: h3)
  have c: "changed s4 ?p = Some 0" by (simp add: s4_def s3_def)
  have "timers (handler_of s4) ?p = None \<and> firing (handler_of s4) = Map.empty \<and> running (handler_of s4) 1 = Some ?p"
    by (simp add: h4)
  then show ?thesis using r c no_lost_change [OF r c] by (intro exI [of _ s4] conjI) (simp_all only: le0 simp_thms)
qed

end
