(* ===== verification/S3_Producer.thy ===== *)
theory S3_Producer
  imports Json Watcher Varint
begin

text \<open>
  \<open>s3_producer.py\<close>: S3 event notifications, delivered through an SQS queue, become watch events. The client
  is a parameter: what the \<open>i\<close>-th long poll gives, whether a message could be deleted, and when the stop event
  is seen set. The texts of exceptions, which are only logged, are left out.
\<close>

section \<open>Percent decoding\<close>

definition is_hex :: "char \<Rightarrow> bool" where
  "is_hex c = (let n = (of_char c :: nat) in 48 \<le> n \<and> n \<le> 57 \<or> 65 \<le> n \<and> n \<le> 70 \<or> 97 \<le> n \<and> n \<le> 102)"

definition hex_value :: "char \<Rightarrow> nat" where
  "hex_value c = (let n = of_char c in if n \<le> 57 then n - 48 else if n \<le> 70 then n - 55 else n - 87)"

definition byte_of :: "char \<Rightarrow> 8 word" where
  "byte_of c = word_of_nat (of_char c)"

text \<open>\<open>unquote_to_bytes\<close>: an escape of two hexadecimal digits is one byte, any other percent sign is itself.\<close>

fun unquote_to_bytes :: "string \<Rightarrow> bytes" where
  "unquote_to_bytes [] = []"
| "unquote_to_bytes (c # s) =
     (if c = CHR ''%''
      then
        (case s of
           a # b # t \<Rightarrow>
             if is_hex a \<and> is_hex b then word_of_nat (16 * hex_value a + hex_value b) # unquote_to_bytes t
             else byte_of c # unquote_to_bytes s
         | _ \<Rightarrow> byte_of c # unquote_to_bytes s)
      else byte_of c # unquote_to_bytes s)"

definition ascii :: "char \<Rightarrow> bool" where
  "ascii c \<longleftrightarrow> (of_char c :: nat) < 128"

text \<open>Runs of ASCII characters are decoded, other characters stay. \<open>utf8\<close> stands for decoding bytes as UTF-8 with
  replacement of what is malformed.\<close>

definition decode_run :: "(bytes \<Rightarrow> string) \<Rightarrow> string \<Rightarrow> string" where
  "decode_run utf8 run = (if run = [] then [] else utf8 (unquote_to_bytes run))"

fun unquote_runs :: "(bytes \<Rightarrow> string) \<Rightarrow> string \<Rightarrow> string \<Rightarrow> string" where
  "unquote_runs utf8 run [] = decode_run utf8 run"
| "unquote_runs utf8 run (c # s) =
     (if ascii c then unquote_runs utf8 (run @ [c]) s else decode_run utf8 run @ c # unquote_runs utf8 [] s)"

definition unquote_plus :: "(bytes \<Rightarrow> string) \<Rightarrow> string \<Rightarrow> string" where
  "unquote_plus utf8 s =
     (let s = map (\<lambda>c. if c = CHR ''+'' then CHR '' '' else c) s in
      if CHR ''%'' \<notin> set s then s else unquote_runs utf8 [] s)"

section \<open>Records of a message\<close>

definition attribute_error :: exn where "attribute_error = Exn ''AttributeError'' []"
definition key_error :: exn where "key_error = Exn ''KeyError'' []"
definition type_error :: exn where "type_error = Exn ''TypeError'' []"

definition subscript :: "json \<Rightarrow> string \<Rightarrow> exn + json" where
  "subscript j k =
     (case j of
        JObj kvs \<Rightarrow> (case map_of kvs k of None \<Rightarrow> Inl key_error | Some v \<Rightarrow> Inr v)
      | _ \<Rightarrow> Inl type_error)"

definition get_default :: "json \<Rightarrow> string \<Rightarrow> json \<Rightarrow> exn + json" where
  "get_default j k d =
     (case j of JObj kvs \<Rightarrow> Inr (case map_of kvs k of None \<Rightarrow> d | Some v \<Rightarrow> v) | _ \<Rightarrow> Inl attribute_error)"

definition iterate :: "json \<Rightarrow> exn + json list" where
  "iterate j =
     (case j of
        JList xs \<Rightarrow> Inr xs
      | JObj kvs \<Rightarrow> Inr (map (JStr \<circ> fst) kvs)
      | JStr s \<Rightarrow> Inr (map (\<lambda>c. JStr [c]) s)
      | _ \<Rightarrow> Inl type_error)"

definition and_then :: "exn + 'a \<Rightarrow> ('a \<Rightarrow> exn + 'b) \<Rightarrow> exn + 'b" where
  "and_then r f = (case r of Inl e \<Rightarrow> Inl e | Inr x \<Rightarrow> f x)"

text \<open>The body of the loop over the records: the event to be queued, if any.\<close>

definition record_event :: "(bytes \<Rightarrow> string) \<Rightarrow> json \<Rightarrow> exn + watch_event option" where
  "record_event utf8 rec =
     and_then (get_default rec ''eventName'' (JStr [])) (\<lambda>name.
     and_then (subscript rec ''s3'') (\<lambda>s3.
     and_then (subscript s3 ''object'') (\<lambda>obj.
     and_then (subscript obj ''key'') (\<lambda>raw.
     case raw of
       JStr raw \<Rightarrow>
         let key = unquote_plus utf8 raw in
         if \<not> suffix ''.mcap'' key then Inr None
         else
           (case name of
              JStr name \<Rightarrow>
                if prefix ''ObjectCreated'' name then Inr (Some (event_on Catalog_event key))
                else if prefix ''ObjectRemoved'' name then Inr (Some (event_on Delete_event key))
                else Inr None
            | _ \<Rightarrow> Inl attribute_error)
     | _ \<Rightarrow> Inl attribute_error))))"

fun enqueue_all :: "(bytes \<Rightarrow> string) \<Rightarrow> json list \<Rightarrow> watch_event list \<Rightarrow> watch_event list \<times> exn option" where
  "enqueue_all utf8 [] q = (q, None)"
| "enqueue_all utf8 (r # rs) q =
     (case record_event utf8 r of
        Inl e \<Rightarrow> (q, Some e)
      | Inr None \<Rightarrow> enqueue_all utf8 rs q
      | Inr (Some ev) \<Rightarrow> enqueue_all utf8 rs (q @ [ev]))"

text \<open>\<open>_enqueue_records\<close>: the events queued, and the exception that ended it, if one did.\<close>

definition enqueue_records ::
  "(string \<Rightarrow> exn + json) \<Rightarrow> (bytes \<Rightarrow> string) \<Rightarrow> string \<Rightarrow> watch_event list \<times> exn option"
where
  "enqueue_records loads utf8 body =
     (case and_then (loads body) (\<lambda>j. and_then (get_default j ''Records'' (JList [])) iterate) of
        Inl e \<Rightarrow> ([], Some e)
      | Inr recs \<Rightarrow> enqueue_all utf8 recs [])"

section \<open>The loop\<close>

record sqs_message =
  msg_body :: "string option"
  msg_receipt :: string

datatype action = Put watch_event | Ack string

record sqs =
  receive_message :: "nat \<Rightarrow> exn + sqs_message list"
  delete_message :: "string \<Rightarrow> exn option"
  stop_is_set :: "nat \<Rightarrow> bool"

datatype producer = Running "action list" | Stopped "action list" | Died exn "action list"

fun actions :: "producer \<Rightarrow> action list" where
  "actions (Running acts) = acts"
| "actions (Stopped acts) = acts"
| "actions (Died e acts) = acts"

definition message_puts :: "(string \<Rightarrow> exn + json) \<Rightarrow> (bytes \<Rightarrow> string) \<Rightarrow> sqs_message \<Rightarrow> action list" where
  "message_puts loads utf8 m =
     map Put (fst (enqueue_records loads utf8 (case msg_body m of None \<Rightarrow> ''{}'' | Some b \<Rightarrow> b)))"

fun handle_messages ::
  "(string \<Rightarrow> exn + json) \<Rightarrow> (bytes \<Rightarrow> string) \<Rightarrow> sqs \<Rightarrow> sqs_message list \<Rightarrow> action list \<Rightarrow> producer"
where
  "handle_messages loads utf8 c [] acts = Running acts"
| "handle_messages loads utf8 c (m # ms) acts =
     (let acts = acts @ message_puts loads utf8 m in
      case delete_message c (msg_receipt m) of
        Some e \<Rightarrow> Died e acts
      | None \<Rightarrow> handle_messages loads utf8 c ms (acts @ [Ack (msg_receipt m)]))"

text \<open>The state after \<open>n\<close> rounds; exceptions of the client end the thread.\<close>

primrec s3_event_producer ::
  "(string \<Rightarrow> exn + json) \<Rightarrow> (bytes \<Rightarrow> string) \<Rightarrow> sqs \<Rightarrow> nat \<Rightarrow> producer"
where
  "s3_event_producer loads utf8 c 0 = Running []"
| "s3_event_producer loads utf8 c (Suc n) =
     (case s3_event_producer loads utf8 c n of
        Running acts \<Rightarrow>
          if stop_is_set c n then Stopped acts
          else
            (case receive_message c n of
               Inl e \<Rightarrow> Died e acts
             | Inr ms \<Rightarrow> handle_messages loads utf8 c ms acts)
      | Stopped acts \<Rightarrow> Stopped acts
      | Died e acts \<Rightarrow> Died e acts)"

section \<open>Decoding undoes encoding\<close>

text \<open>\<open>encoded s t\<close>: \<open>s\<close> is a form encoding of \<open>t\<close>, in which a character may stand for itself, a space for a plus
  sign, and any character for its escape, in either case of the digits.\<close>

inductive encoded :: "string \<Rightarrow> string \<Rightarrow> bool" where
  nothing: "encoded [] []"
| itself: "encoded s t \<Longrightarrow> ascii c \<Longrightarrow> c \<noteq> CHR ''%'' \<Longrightarrow> c \<noteq> CHR ''+'' \<Longrightarrow> encoded (c # s) (c # t)"
| plus: "encoded s t \<Longrightarrow> encoded (CHR ''+'' # s) (CHR '' '' # t)"
| escape: "encoded s t \<Longrightarrow> is_hex a \<Longrightarrow> is_hex b \<Longrightarrow> 16 * hex_value a + hex_value b < 128 \<Longrightarrow>
    encoded (CHR ''%'' # a # b # s) (char_of (16 * hex_value a + hex_value b) # t)"

definition decodes_ascii :: "(bytes \<Rightarrow> string) \<Rightarrow> bool" where
  "decodes_ascii utf8 \<longleftrightarrow>
     (\<forall>bs. list_all (\<lambda>b. unat b < 128) bs \<longrightarrow> utf8 bs = map (\<lambda>b. char_of (unat b)) bs)"

definition spaces :: "string \<Rightarrow> string" where
  "spaces = map (\<lambda>c. if c = CHR ''+'' then CHR '' '' else c)"

lemma is_hex_ascii: "is_hex c \<Longrightarrow> ascii c \<and> c \<noteq> CHR ''+'' \<and> c \<noteq> CHR ''%''"
  by (auto simp: is_hex_def ascii_def Let_def)

lemma encoded_ascii: "encoded s t \<Longrightarrow> list_all ascii (spaces s)"
  by (induction rule: encoded.induct) (auto simp: spaces_def ascii_def dest: is_hex_ascii)

lemma unquote_runs_ascii: "list_all ascii s \<Longrightarrow> unquote_runs utf8 run s = decode_run utf8 (run @ s)"
  by (induction s arbitrary: run) auto

lemma unat_byte_of: "unat (byte_of c) = of_char c"
  by (simp add: byte_of_def unsigned_of_nat take_bit_eq_mod)

lemma encoded_bytes:
  assumes "encoded s t"
  shows "map (\<lambda>b. char_of (unat b)) (unquote_to_bytes (spaces s)) = t \<and>
    list_all (\<lambda>b. unat b < 128) (unquote_to_bytes (spaces s))"
  using assms
proof (induction rule: encoded.induct)
  case (itself s t c)
  then show ?case by (auto simp: spaces_def unat_byte_of ascii_def)
next
  case (plus s t)
  have "char_of (32 :: nat) = CHR '' ''" by code_simp
  with plus show ?case by (auto simp: spaces_def unat_byte_of)
next
  case (escape s t a b)
  have "16 * word_of_nat (hex_value a) + word_of_nat (hex_value b) = (word_of_nat (16 * hex_value a + hex_value b) :: 8 word)"
    by simp
  then have "unat (16 * word_of_nat (hex_value a) + word_of_nat (hex_value b) :: 8 word) = 16 * hex_value a + hex_value b"
    using escape by (simp only: unat_of_nat) simp
  then show ?case
    using escape is_hex_ascii [of a] is_hex_ascii [of b] by (auto simp: spaces_def)
qed (simp add: spaces_def)

lemma encoded_plain: "encoded s t \<Longrightarrow> CHR ''%'' \<notin> set s \<Longrightarrow> spaces s = t"
  by (induction rule: encoded.induct) (auto simp: spaces_def)

lemma spaces_percent: "CHR ''%'' \<in> set (spaces s) \<longleftrightarrow> CHR ''%'' \<in> set s"
  by (auto simp: spaces_def image_iff)

text \<open>Decoding an object key of a notification undoes its encoding, whichever characters the sender chose
  to escape: for keys of ASCII characters, given that UTF-8 decoding is the identity on ASCII.\<close>

theorem unquote_plus_decodes:
  assumes "encoded s t" and "decodes_ascii utf8"
  shows "unquote_plus utf8 s = t"
proof (cases "CHR ''%'' \<in> set s")
  case True
  then have "spaces s \<noteq> []" by (auto simp: spaces_def)
  then have "unquote_runs utf8 [] (spaces s) = utf8 (unquote_to_bytes (spaces s))"
    using unquote_runs_ascii [OF encoded_ascii [OF assms(1)]] by (simp add: decode_run_def)
  also have "\<dots> = t" using encoded_bytes [OF assms(1)] assms(2) by (simp add: decodes_ascii_def)
  finally show ?thesis using True spaces_percent [of s] by (simp add: unquote_plus_def spaces_def)
next
  case False
  then show ?thesis
    using encoded_plain [OF assms(1) False] spaces_percent [of s] by (simp add: unquote_plus_def spaces_def)
qed

theorem unquote_plus_decodes_witness:
  "unquote_plus (map (\<lambda>b. char_of (unat b))) ''a%3db+c%2F.mcap'' = ''a=b c/.mcap''"
proof (rule unquote_plus_decodes)
  show "decodes_ascii (map (\<lambda>b. char_of (unat b)))" by (simp add: decodes_ascii_def)
  have eq: "CHR ''='' = char_of (16 * hex_value CHR ''3'' + hex_value CHR ''d'')"
    "CHR ''/'' = char_of (16 * hex_value CHR ''2'' + hex_value CHR ''F'')"
    by code_simp+
  show "encoded ''a%3db+c%2F.mcap'' ''a=b c/.mcap''"
    unfolding eq
    by (intro encoded.intros) (simp_all add: ascii_def is_hex_def hex_value_def)
qed

section \<open>Acknowledgement\<close>

definition delivered :: "sqs \<Rightarrow> nat \<Rightarrow> sqs_message list" where
  "delivered c n = concat (map (\<lambda>i. case receive_message c i of Inl e \<Rightarrow> [] | Inr ms \<Rightarrow> ms) [0..<n])"

definition handled ::
  "(string \<Rightarrow> exn + json) \<Rightarrow> (bytes \<Rightarrow> string) \<Rightarrow> sqs_message list \<Rightarrow> action list"
where
  "handled loads utf8 ms = concat (map (\<lambda>m. message_puts loads utf8 m @ [Ack (msg_receipt m)]) ms)"

lemma handled_append [simp]: "handled loads utf8 (ms @ ns) = handled loads utf8 ms @ handled loads utf8 ns"
  by (simp add: handled_def)

lemma handle_messages_cases:
  obtains (all) "handle_messages loads utf8 c ms acts = Running (acts @ handled loads utf8 ms)"
  | (refused) e ns m where "handle_messages loads utf8 c ms acts = Died e (acts @ handled loads utf8 ns @ message_puts loads utf8 m)"
      and "prefix (ns @ [m]) ms" and "delete_message c (msg_receipt m) = Some e"
proof -
  have "handle_messages loads utf8 c ms acts = Running (acts @ handled loads utf8 ms) \<or>
    (\<exists>e ns m. handle_messages loads utf8 c ms acts = Died e (acts @ handled loads utf8 ns @ message_puts loads utf8 m) \<and>
      prefix (ns @ [m]) ms \<and> delete_message c (msg_receipt m) = Some e)"
  proof (induction ms arbitrary: acts)
    case Nil
    show ?case by (simp add: handled_def)
  next
    case (Cons m ms)
    show ?case
    proof (cases "delete_message c (msg_receipt m)")
      case None
      show ?thesis
        using Cons.IH [of "acts @ message_puts loads utf8 m @ [Ack (msg_receipt m)]"] None
      proof (elim disjE exE conjE)
        fix e ns m'
        assume "handle_messages loads utf8 c ms (acts @ message_puts loads utf8 m @ [Ack (msg_receipt m)]) =
          Died e ((acts @ message_puts loads utf8 m @ [Ack (msg_receipt m)]) @ handled loads utf8 ns @ message_puts loads utf8 m')"
          "prefix (ns @ [m']) ms" "delete_message c (msg_receipt m') = Some e"
        then have "handle_messages loads utf8 c (m # ms) acts =
            Died e (acts @ handled loads utf8 (m # ns) @ message_puts loads utf8 m')" "prefix ((m # ns) @ [m']) (m # ms)"
          using None by (simp_all add: handled_def)
        then show ?thesis using \<open>delete_message c (msg_receipt m') = Some e\<close> by blast
      qed (simp add: handled_def)
    next
      case (Some e)
      then have "handle_messages loads utf8 c (m # ms) acts = Died e (acts @ handled loads utf8 [] @ message_puts loads utf8 m)"
        by (simp add: handled_def)
      then show ?thesis using Some by (metis append_Nil prefix_code(1) Cons_prefix_Cons)
    qed
  qed
  then show thesis using all refused by blast
qed

lemma delivered_Suc: "delivered c (Suc n) = delivered c n @ (case receive_message c n of Inl e \<Rightarrow> [] | Inr ms \<Rightarrow> ms)"
  by (simp add: delivered_def)

lemma delivered_mono: "n \<le> m \<Longrightarrow> prefix (delivered c n) (delivered c m)"
  by (induction rule: dec_induct) (auto simp: delivered_Suc)


text \<open>An exception of the client ends the thread for good, and a record that cannot be read takes those after it in
  the same message with it: the message is acknowledged all the same.\<close>

lemma producer_dies:
  assumes "s3_event_producer loads utf8 c n = Running acts" and "\<not> stop_is_set c n" and "receive_message c n = Inl e"
  shows "s3_event_producer loads utf8 c (Suc n + k) = Died e acts"
  using assms by (induction k) simp_all

lemma unreadable_record_drops_rest:
  assumes "record_event utf8 r = Inl e"
  shows "enqueue_all utf8 (r # rs) q = (q, Some e)"
  using assms by simp

end
