(* ===== verification/Worker.thy ===== *)
theory Worker
  imports Reconcile Tag_IPC S3_Producer
begin

text \<open>
  \<open>worker_loop\<close> of \<open>__main__.py\<close>: the single consumer of the queue and the only writer of the catalog. Each item
  is handled under a \<open>try\<close>, so whatever a handler raises ends with that item. The world moves on between the
  items: what the source answers, what the reader reads and how late it is are parameters of each one.
\<close>

section \<open>The loop\<close>

record 's moment =
  m_source :: "'s source"
  m_get_summary :: "'s \<Rightarrow> exn + mcap_summary option"
  m_completion :: "job list \<Rightarrow> job list"
  m_now :: int

datatype work_item = Watch watch_event | Edit tag_edit_item

definition event_key_op :: "'s source \<Rightarrow> string option \<Rightarrow> (writer, string) op" where
  "event_key_op source path = (case path of None \<Rightarrow> raise_op type_error | Some p \<Rightarrow> lift_result (src_event_key source p))"

text \<open>The chain on \<open>ev.kind\<close>. A \<open>stop\<close> event does not get here.\<close>

definition handle_event :: "int \<Rightarrow> 's moment \<Rightarrow> watch_event \<Rightarrow> (writer, unit) op" where
  "handle_event workers m ev =
     (case we_kind ev of
        Catalog_event \<Rightarrow>
          (case we_path ev of
             None \<Rightarrow> raise_op type_error
           | Some p \<Rightarrow>
               if src_wait_for_stable (m_source m) p
               then
                 bind_op (event_key_op (m_source m) (we_path ev)) (\<lambda>key.
                 bind_op (catalog_object (m_get_summary m) key (m_source m) None) (\<lambda>_. return_op ()))
               else return_op ())
      | Delete_event \<Rightarrow>
          bind_op (event_key_op (m_source m) (we_path ev)) (\<lambda>key.
          bind_op (delete_by_key key) (\<lambda>_. return_op ()))
      | Rescan_event \<Rightarrow>
          bind_op (full_reconcile (m_get_summary m) (m_completion m) (m_source m) workers) (\<lambda>_. return_op ())
      | Stop_event \<Rightarrow> return_op ())"

text \<open>One item under its \<open>try\<close>: the exception is logged, the writer stays as the handler left it.\<close>

definition work_on :: "int \<Rightarrow> 's moment \<Rightarrow> work_item \<Rightarrow> writer \<Rightarrow> writer" where
  "work_on workers m item w =
     (case item of
        Watch ev \<Rightarrow> snd (handle_event workers m ev w)
      | Edit e \<Rightarrow> snd (handle_tag_edit (m_now m) e w))"

definition is_stop :: "work_item \<Rightarrow> bool" where
  "is_stop item = (case item of Watch ev \<Rightarrow> we_kind ev = Stop_event | Edit _ \<Rightarrow> False)"

text \<open>Draining what has been queued: the loop ends at the first stop, or waits for more. The flag says which.\<close>

fun worker_loop :: "int \<Rightarrow> ('s moment \<times> work_item) list \<Rightarrow> writer \<Rightarrow> bool \<times> writer" where
  "worker_loop workers [] w = (False, w)"
| "worker_loop workers ((m, item) # q) w =
     (if is_stop item then (True, w) else worker_loop workers q (work_on workers m item w))"

section \<open>What every operation keeps\<close>

lemma snd_then_return: "snd (bind_op m (\<lambda>_. return_op x) w) = snd (m w)"
  by (cases "m w"; cases "fst (m w)") (simp_all add: bind_op_def)

text \<open>The contract of an operation of the single writer: it leaves the writer in sync, returning or raising, and
  does not set its clock.\<close>

locale writer_operation =
  fixes operation :: "(writer, 'a) op"
  assumes leaves_in_sync: "in_sync w \<Longrightarrow> operation w = (r, w') \<Longrightarrow> in_sync w'"
    and leaves_clock: "operation w = (r, w') \<Longrightarrow> ticks w' = ticks w"
begin

lemma attempted: "in_sync w \<Longrightarrow> in_sync (snd (operation w))" "ticks (snd (operation w)) = ticks w"
  using leaves_in_sync leaves_clock by (metis prod.collapse)+

lemma then_return: "in_sync w \<Longrightarrow> in_sync (snd (bind_op operation (\<lambda>_. return_op x) w))"
  "ticks (snd (bind_op operation (\<lambda>_. return_op x) w)) = ticks w"
  using attempted by (simp_all add: snd_then_return)

end

lemma keeps_clock_catalog_object [clock_rules]: "keeps_clock (catalog_object get_summary key source st0)"
  by (auto intro!: clock_rules simp: catalog_object_def split: option.splits sum.splits)

lemma keeps_clock_delete [clock_rules]: "keeps_clock (delete_by_key key)"
proof -
  have inner: "keeps_clock (bind_op (query q) (\<lambda>deleted. bind_op (exec f) (\<lambda>_. bind_op (exec g) (\<lambda>_. bind_op commit_op
      (\<lambda>_. return_op (deleted \<noteq> []))))))" for q :: "db \<Rightarrow> file_row list" and f g
    by (intro clock_rules)
  then show ?thesis
    unfolding keeps_clock_def delete_by_key_def by (simp split: option.splits)
qed

lemma keeps_clock_classify [clock_rules]: "keeps_clock (classify source etags l cl)"
proof -
  have "keeps_clock (bind_op (record_failure key err) (\<lambda>_. bind_op commit_op (\<lambda>_. return_op x)))" for key err and x :: classified
    by (intro clock_rules)
  then show ?thesis by (auto simp: classify_def keeps_clock_def Let_def split: option.splits)
qed

lemma keeps_clock_depending: "(\<And>p. keeps_clock (f p)) \<Longrightarrow> keeps_clock (\<lambda>w. f (g w) w)"
  by (simp add: keeps_clock_def)

lemma keeps_clock_full_reconcile [clock_rules]: "keeps_clock (full_reconcile get_summary completion source workers)"
proof -
  have "keeps_clock (run_jobs get_summary completion source workers jobs t)" for jobs t
    unfolding run_jobs_def apply_job_def by (intro clock_rules)
  moreover have "keeps_clock (\<lambda>w. bind_op (query files) (\<lambda>rows.
     bind_op (fold_op (sweep_row (present_idents (cache w) ds ls)) rows t) (\<lambda>t.
     bind_op commit_op (\<lambda>_.
     bind_op (record_build (int (t_cataloged t + t_skipped t)) (int (t_failed t))
         (if t_failed t \<noteq> 0 then ''partial'' else ''ok'')) (\<lambda>_.
     return_op t)))) w)" for ds ls t
  proof (rule keeps_clock_depending [where g = "\<lambda>w. present_idents (cache w) ds ls"])
    have "keeps_clock (sweep_row present r t)" for present r t
      by (auto simp: sweep_row_def intro!: clock_rules)
    moreover have "keeps_clock (record_build a b c)" for a b c
      unfolding record_build_def by (intro clock_rules)
    ultimately show "keeps_clock (bind_op (query files) (\<lambda>rows.
       bind_op (fold_op (sweep_row present) rows t) (\<lambda>t.
       bind_op commit_op (\<lambda>_.
       bind_op (record_build (int (t_cataloged t + t_skipped t)) (int (t_failed t))
           (if t_failed t \<noteq> 0 then ''partial'' else ''ok'')) (\<lambda>_.
       return_op t)))))" for present
      by (intro keeps_clock_bind keeps_clock_fold keeps_clock_basic)
  qed
  ultimately show ?thesis
    unfolding full_reconcile_def Let_def
    by (intro keeps_clock_bind keeps_clock_fold keeps_clock_basic keeps_clock_classify)
qed

abbreviation keeps_sync :: "(writer, 'a) op \<Rightarrow> bool" where
  "keeps_sync m \<equiv> hoare in_sync m (\<lambda>_. in_sync) (\<lambda>_. in_sync)"

lemma keeps_syncD: "keeps_sync m \<Longrightarrow> in_sync w \<Longrightarrow> m w = (r, w') \<Longrightarrow> in_sync w'"
  by (cases r) (auto dest: hoareD_Inr hoareD_Inl)

lemma keeps_sync_basic: "keeps_sync (return_op x)" "keeps_sync (raise_op e)" "keeps_sync (query q)" "keeps_sync (lift_result r)"
  by (simp_all add: hoare_def query_def lift_result_def split: sum.splits)

lemma catalog_object_keeps_sync: "keeps_sync (catalog_object get_summary key source st0)"
proof (rule hoareI)
  fix w :: writer
  assume s: "in_sync w"
  let ?m = "catalog_object get_summary key source st0"
  have "in_sync w'" if run: "?m w = (r, w')" for r w'
  proof (cases "judge get_summary source key st0 (ticks w (reads w)) (catalog_of (working w))")
    case (Inl e)
    then show ?thesis using catalog_object_takes_step [OF s, where get_summary = get_summary and source = source and key = key and ?st0.0 = st0] run s by simp
  next
    case (Inr v)
    then have "takes_step ?m w v" using catalog_object_takes_step [OF s, where get_summary = get_summary and source = source and key = key and ?st0.0 = st0] by simp
    then show ?thesis using run by (auto elim: takes_stepE)
  qed
  then show "\<And>e w'. ?m w = (Inl e, w') \<Longrightarrow> in_sync w'" "\<And>r w'. ?m w = (Inr r, w') \<Longrightarrow> in_sync w'" by blast+
qed

lemma delete_by_key_keeps_sync: "keeps_sync (delete_by_key key)"
proof (rule hoareI)
  fix w :: writer
  assume "in_sync w"
  then obtain b w1 where "delete_by_key key w = (Inr b, w1)" "in_sync w1" using delete_by_key_run by metis
  then show "\<And>e w'. delete_by_key key w = (Inl e, w') \<Longrightarrow> in_sync w'" "\<And>b w'. delete_by_key key w = (Inr b, w') \<Longrightarrow> in_sync w'"
    by simp_all
qed

definition queued_good :: "'s source \<Rightarrow> classified \<Rightarrow> writer \<Rightarrow> bool" where
  "queued_good source cl w \<longleftrightarrow> in_sync w \<and> (\<forall>j \<in> set (cl_jobs cl). good_job source j)"

lemma classify_keeps: "hoare (queued_good source cl) (classify source etags l cl) (queued_good source) (\<lambda>_. in_sync)"
proof (rule hoareI)
  fix w :: writer
  assume q: "queued_good source cl w"
  have "\<exists>cl1 w1. classify source etags l cl w = (Inr cl1, w1) \<and> queued_good source cl1 w1"
  proof (cases "resolve_key_dims source (lst_key l)")
    case None
    have "in_sync w" using q by (simp add: queued_good_def)
    then obtain w1 where "bind_op (record_failure (lst_key l) ''unparseable key'') (\<lambda>_. bind_op commit_op (\<lambda>_.
        return_op (cl\<lparr>cl_tally := count_status Failed (cl_tally cl)\<rparr>))) w =
        (Inr (cl\<lparr>cl_tally := count_status Failed (cl_tally cl)\<rparr>), w1)" "in_sync w1"
      by (rule note_failure_in_sync)
    then show ?thesis using q None by (simp add: classify_def queued_good_def)
  next
    case (Some x)
    obtain ds eff where x: "x = (ds, eff)" by fastforce
    show ?thesis
      using q Some by (simp add: classify_def Let_def queued_good_def x)
  qed
  then show "\<And>e w'. classify source etags l cl w = (Inl e, w') \<Longrightarrow> in_sync w'"
    "\<And>cl' w'. classify source etags l cl w = (Inr cl', w') \<Longrightarrow> queued_good source cl' w'" by auto
qed

lemma apply_job_keeps: "good_job source j \<Longrightarrow> keeps_sync (apply_job get_summary source j t)"
proof (rule hoareI)
  assume good: "good_job source j"
  fix w :: writer
  assume s: "in_sync w"
  let ?ex = "extract_job get_summary source j"
  have "extract_wf ?ex"
    using good by (cases j) (auto simp: extract_job_def intro: extract_summary_wf dest: resolve_key_dims_wf)
  then have "takes_step (apply_extract ?ex) w (judge_extract (ticks w (reads w)) ?ex)" by (rule apply_extract_takes_step [OF s])
  then obtain r w1 where "apply_extract ?ex w = (Inr r, w1)" "in_sync w1" by (rule takes_stepE)
  then show "\<And>e w'. apply_job get_summary source j t w = (Inl e, w') \<Longrightarrow> in_sync w'"
    "\<And>x w'. apply_job get_summary source j t w = (Inr x, w') \<Longrightarrow> in_sync w'"
    by (auto simp: apply_job_def)
qed

lemma run_jobs_keeps:
  assumes "\<And>j. j \<in> set jobs \<Longrightarrow> good_job source j" and "\<And>js. mset (completion js) = mset js"
  shows "keeps_sync (run_jobs get_summary completion source workers jobs t)"
  unfolding run_jobs_def
proof (rule hoare_fold)
  fix j t
  assume "j \<in> set (if workers > 1 \<and> length jobs > 1 then completion jobs else jobs)"
  then have "j \<in> set jobs" using mset_eq_setD [OF assms(2)] by (auto split: if_splits)
  then show "keeps_sync (apply_job get_summary source j t)" using assms(1) apply_job_keeps by blast
qed

abbreviation sweep_and_stamp :: "ident set \<Rightarrow> tally \<Rightarrow> (writer, tally) op" where
  "sweep_and_stamp present t \<equiv> bind_op (query files) (\<lambda>rows.
     bind_op (fold_op (sweep_row present) rows t) (\<lambda>t.
     bind_op commit_op (\<lambda>_.
     bind_op (record_build (int (t_cataloged t + t_skipped t)) (int (t_failed t))
         (if t_failed t \<noteq> 0 then ''partial'' else ''ok'')) (\<lambda>_.
     return_op t))))"

lemma sweep_and_stamp_keeps:
  assumes s: "in_sync w"
  shows "in_sync (snd (sweep_and_stamp present t w))"
proof -
  have wf: "db_wf (working w)" "sets_wf (working w)" "coherent w" using s by auto
  let ?d = "delete_files (\<lambda>r. f_ident r \<notin> present) (working w)"
  let ?w = "commit (w\<lparr>working := ?d\<rparr>)"
  have names: "names ?d = names (working w)" by simp
  have "coherent (w\<lparr>working := ?d\<rparr>)" using wf(3) names_frame(6) [OF names] by (simp add: coherent_def)
  moreover have "sets_wf ?d" using wf(2) sets_wf_names [OF names] by simp
  ultimately have w: "in_sync ?w" using delete_files_db_wf [OF wf(1)] in_syncD(5) [OF s] by (intro in_sync_commit) simp_all
  define t' where "t' = t\<lparr>t_deleted := t_deleted t + length (filter (\<lambda>r. f_ident r \<notin> present) (files (working w)))\<rparr>"
  have sweep: "fold_op (sweep_row present) (files (working w)) t w = (Inr t', w\<lparr>working := ?d\<rparr>)"
    by (simp add: sweep_all [OF wf(1)] t'_def)
  obtain w' now where stamp: "record_build (int (t_cataloged t' + t_skipped t')) (int (t_failed t'))
      (if t_failed t' \<noteq> 0 then ''partial'' else ''ok'') ?w = (Inr (), w')" "in_sync w'"
    by (rule record_build_in_sync [OF w])
  have "sweep_and_stamp present t w = (Inr t', w')"
    by (simp only: bind_op_def query_def sweep commit_op_def stamp(1) prod.case sum.case return_op_apply)
  then show ?thesis using stamp(2) by simp
qed

lemma full_reconcile_keeps_sync:
  assumes "\<And>js. mset (completion js) = mset js"
  shows "keeps_sync (full_reconcile get_summary completion source workers)"
  unfolding full_reconcile_def Let_def
proof (rule hoare_bind [OF keeps_sync_basic(4)], rule hoare_bind [OF keeps_sync_basic(3)])
  fix ls etags
  have start: "hoare in_sync (fold_op (classify source etags) ls nothing_classified) (queued_good source) (\<lambda>_. in_sync)"
    using hoare_fold [where I = "queued_good source" and f = "classify source etags" and xs = ls and a = nothing_classified, OF classify_keeps]
    by (rule hoare_weaken) (simp_all add: queued_good_def nothing_classified_def)
  show "keeps_sync (bind_op (fold_op (classify source etags) ls nothing_classified) (\<lambda>cl.
     bind_op (run_jobs get_summary completion source workers (cl_jobs cl) (cl_tally cl)) (\<lambda>t w.
     sweep_and_stamp (present_idents (cache w) (cl_dims cl) ls) t w)))"
  proof (rule hoare_bind [OF start])
    fix cl
    show "hoare (queued_good source cl) (bind_op (run_jobs get_summary completion source workers (cl_jobs cl) (cl_tally cl)) (\<lambda>t w.
       sweep_and_stamp (present_idents (cache w) (cl_dims cl) ls) t w)) (\<lambda>_. in_sync) (\<lambda>_. in_sync)"
    proof (rule hoare_bind [where R = "\<lambda>_. in_sync"])
      show "hoare (queued_good source cl) (run_jobs get_summary completion source workers (cl_jobs cl) (cl_tally cl))
          (\<lambda>_. in_sync) (\<lambda>_. in_sync)"
      proof (rule hoareI)
        fix w assume q: "queued_good source cl w"
        have k: "keeps_sync (run_jobs get_summary completion source workers (cl_jobs cl) (cl_tally cl))"
          using q by (intro run_jobs_keeps assms) (simp add: queued_good_def)
        then show "\<And>e w'. run_jobs get_summary completion source workers (cl_jobs cl) (cl_tally cl) w = (Inl e, w') \<Longrightarrow> in_sync w'"
          "\<And>e w'. run_jobs get_summary completion source workers (cl_jobs cl) (cl_tally cl) w = (Inr e, w') \<Longrightarrow> in_sync w'"
          using k q by (auto simp: queued_good_def dest: keeps_syncD)
      qed
    next
      fix t
      show "keeps_sync (\<lambda>w. sweep_and_stamp (present_idents (cache w) (cl_dims cl) ls) t w)"
      proof (rule hoareI)
        fix w :: writer
        assume "in_sync w"
        note kept = sweep_and_stamp_keeps [OF this, of "present_idents (cache w) (cl_dims cl) ls" t]
        show "in_sync w'" if "sweep_and_stamp (present_idents (cache w) (cl_dims cl) ls) t w = (r, w')" for r w'
          using kept unfolding that by simp
        then show "in_sync w'" if "sweep_and_stamp (present_idents (cache w) (cl_dims cl) ls) t w = (r, w')" for r w'
          using that by blast
      qed
    qed
  qed
qed

section \<open>The operations keep it\<close>

interpretation cataloguing: writer_operation "catalog_object get_summary key source st0"
proof unfold_locales
  show "in_sync w'" if "in_sync w" "catalog_object get_summary key source st0 w = (r, w')" for w w' r
    by (rule keeps_syncD [OF catalog_object_keeps_sync that])
qed (rule keeps_clockD [OF keeps_clock_catalog_object])

interpretation removing: writer_operation "delete_by_key key"
proof unfold_locales
  show "in_sync w'" if "in_sync w" "delete_by_key key w = (r, w')" for w w' r
    by (rule keeps_syncD [OF delete_by_key_keeps_sync that])
qed (rule keeps_clockD [OF keeps_clock_delete])

lemma tag_edit_body_result:
  assumes "in_sync w"
  shows "in_sync (snd (tag_edit_body now item w))"
proof -
  have snd: "snd (tag_edit_body now item w) = snd (handle_tag_edit now item w)"
    by (simp add: handle_tag_edit_def split: prod.splits sum.splits)
  show ?thesis
    unfolding snd
    by (rule handle_tag_edit_run [OF assms, of item now]) (use assms in simp_all)
qed

lemma keeps_clock_tag_edit: "keeps_clock (tag_edit_body now item)"
proof -
  have "keeps_clock (update_tags i a b)" for i a b
    unfolding update_tags_def by (intro clock_rules) (auto intro!: clock_rules)
  then show ?thesis unfolding tag_edit_body_def by (auto intro!: clock_rules split: option.splits)
qed

interpretation editing: writer_operation "tag_edit_body now item"
proof unfold_locales
  show "in_sync w'" if "in_sync w" "tag_edit_body now item w = (r, w')" for w w' r
    using tag_edit_body_result [OF that(1), of now item] that(2) by simp
qed (rule keeps_clockD [OF keeps_clock_tag_edit])

lemma reconciling:
  assumes "\<And>js. mset (completion js) = mset js"
  shows "writer_operation (full_reconcile get_summary completion source workers)"
proof unfold_locales
  show "in_sync w'" if "in_sync w" "full_reconcile get_summary completion source workers w = (r, w')" for w w' r
    by (rule keeps_syncD [OF full_reconcile_keeps_sync [OF assms] that])
qed (rule keeps_clockD [OF keeps_clock_full_reconcile])

section \<open>The worker\<close>

text \<open>The thread pool completes each of its jobs once.\<close>

definition fair :: "'s moment \<Rightarrow> bool" where
  "fair m \<longleftrightarrow> (\<forall>js. mset (m_completion m js) = mset js)"

lemma handle_event_keeps:
  assumes "fair m" and "in_sync w"
  shows "in_sync (snd (handle_event workers m ev w)) \<and> ticks (snd (handle_event workers m ev w)) = ticks w"
proof (cases "we_kind ev")
  case Catalog_event
  then show ?thesis
    using assms(2) cataloguing.then_return(1) [OF assms(2), where x = "()"] cataloguing.then_return(2) [where x = "()"]
    by (cases "we_path ev"; cases "src_event_key (m_source m) (the (we_path ev))")
      (auto simp: handle_event_def event_key_op_def lift_result_def)
next
  case Delete_event
  then show ?thesis
    using assms(2) removing.then_return(1) [OF assms(2), where x = "()"] removing.then_return(2) [where x = "()"]
    by (cases "we_path ev"; cases "src_event_key (m_source m) (the (we_path ev))")
      (auto simp: handle_event_def event_key_op_def lift_result_def)
next
  case Rescan_event
  have "\<And>js. mset (m_completion m js) = mset js" using assms(1) by (simp add: fair_def)
  note op = reconciling [OF this]
  have "in_sync (snd (handle_event workers m ev w))"
    using writer_operation.then_return(1) [OF op assms(2), where x = "()"] Rescan_event by (simp add: handle_event_def)
  moreover note writer_operation.then_return(2) [OF op, where x = "()"]
  ultimately show ?thesis using Rescan_event by (simp add: handle_event_def)
next
  case Stop_event
  then show ?thesis using assms(2) by (simp add: handle_event_def)
qed

lemma work_on_keeps:
  assumes "fair m" and "in_sync w"
  shows "in_sync (work_on workers m item w) \<and> ticks (work_on workers m item w) = ticks w"
proof (cases item)
  case (Edit e)
  have "snd (handle_tag_edit (m_now m) e w) = snd (tag_edit_body (m_now m) e w)"
    by (simp add: handle_tag_edit_def split: prod.splits sum.splits)
  then show ?thesis using editing.attempted(1) [OF assms(2)] editing.attempted(2) by (simp add: work_on_def Edit)
qed (simp add: work_on_def handle_event_keeps [OF assms])

lemma worker_loop_keeps:
  assumes "list_all (fair \<circ> fst) q" and "in_sync w"
  shows "in_sync (snd (worker_loop workers q w)) \<and> ticks (snd (worker_loop workers q w)) = ticks w \<and>
    fst (worker_loop workers q w) = list_ex (is_stop \<circ> snd) q"
  using assms
proof (induction q arbitrary: w)
  case (Cons x q)
  obtain m item where x: "x = (m, item)" by fastforce
  have "in_sync (work_on workers m item w)" "ticks (work_on workers m item w) = ticks w"
    using work_on_keeps [of m w] Cons.prems by (simp_all add: x)
  with Cons show ?case by (simp add: x)
qed simp

lemma worker_loop_append:
  "\<not> list_ex (is_stop \<circ> snd) q \<Longrightarrow> worker_loop workers (q @ q') w = worker_loop workers q' (snd (worker_loop workers q w))"
  by (induction q arbitrary: w) auto

text \<open>C9. The worker survives everything. Whatever is queued, in whatever order, however the handlers fail and
  whatever the world answers meanwhile, between any two items nothing is uncommitted, the caches are those
  of the database and the database is well formed, as is every version committed on the way; and the loop
  ends exactly when a stop is taken up.\<close>

theorem worker_keeps_catalog:
  assumes "list_all (fair \<circ> fst) q" and "in_sync w"
  shows "in_sync (snd (worker_loop workers (take n q) w)) \<and>
    fst (worker_loop workers (take n q) w) = list_ex (is_stop \<circ> snd) (take n q)"
proof -
  have "list_all (fair \<circ> fst) (take n q)" using assms(1) by (auto simp: list_all_iff dest: in_set_takeD)
  from worker_loop_keeps [OF this assms(2)] show ?thesis by simp
qed

text \<open>A queue with a catalog event whose read fails, an edit and a stop.\<close>

definition sample_moment :: "unit moment" where
  "sample_moment = \<lparr>m_source = sample_source, m_get_summary = sample_reader, m_completion = rev, m_now = 4000\<rparr>"

definition sample_queue :: "(unit moment \<times> work_item) list" where
  "sample_queue =
     [(sample_moment\<lparr>m_source := broken_source\<rparr>, Watch (event_on Catalog_event ''x'')),
      (sample_moment, Edit sample_item), (sample_moment, Watch \<lparr>we_kind = Stop_event, we_path = None\<rparr>)]"

lemma sample_fair: "fair sample_moment" "fair (sample_moment\<lparr>m_source := s\<rparr>)"
  by (simp_all add: fair_def sample_moment_def)

theorem worker_keeps_catalog_witness:
  "in_sync (snd (worker_loop 4 (take 2 sample_queue) sample_writer)) \<and>
    fst (worker_loop 4 (take 2 sample_queue) sample_writer) = False \<and>
    fst (worker_loop 4 (take 3 sample_queue) sample_writer) = True"
proof -
  have "list_all (fair \<circ> fst) sample_queue" by (simp add: sample_queue_def sample_fair)
  note kept = worker_keeps_catalog [OF this sample_writer_in_sync, of 4]
  show ?thesis using kept [of 2] kept [of 3] by (simp add: sample_queue_def is_stop_def)
qed

text \<open>A rescan makes the catalog current.\<close>

definition current_in :: "'s moment \<Rightarrow> listing list \<Rightarrow> db \<Rightarrow> bool" where
  "current_in m ls d \<longleftrightarrow>
     (\<forall>ds. ds \<notin> listed_dims (m_source m) ls \<longrightarrow> file_at d ds = None) \<and>
     (\<forall>l \<in> set ls. \<forall>ds eff summary. resolve_key_dims (m_source m) (lst_key l) = Some (ds, eff) \<longrightarrow>
        job_verdict (m_get_summary m) (m_source m) (lst_key l, lst_stat l, ds, eff) = Accepted ds eff (lst_stat l) summary \<longrightarrow>
        (\<exists>f. file_at d ds = Some f \<and> ff_etag (f_facts f) = st_etag (lst_stat l)))"

lemma rescan_current:
  assumes "in_sync w" and "sane_clock w" and "fair m" and "src_list (m_source m) = Inr ls"
    and "distinct_objects (m_source m) ls"
  shows "current_in m ls (working (work_on workers m (Watch \<lparr>we_kind = Rescan_event, we_path = None\<rparr>) w))"
proof -
  have perm: "\<And>js. mset (m_completion m js) = mset js" using assms(3) by (simp add: fair_def)
  let ?c = "catalog_of (working w)"
  show ?thesis
  proof (rule reconcile_outcome [OF assms(1,2,4) perm assms(5), of "m_get_summary m" workers])
    fix t and w' :: writer
    assume run: "full_reconcile (m_get_summary m) (m_completion m) (m_source m) workers w = (Inr t, w')"
      and gone: "\<And>ds. ds \<notin> listed_dims (m_source m) ls \<Longrightarrow> cat_files (catalog_of (working w')) ds = None"
      and each: "\<And>l ds eff. l \<in> set ls \<Longrightarrow> resolve_key_dims (m_source m) (lst_key l) = Some (ds, eff) \<Longrightarrow>
        verdict_effect (listing_verdict (m_get_summary m) (m_source m) ?c l ds eff) ds eff ?c (catalog_of (working w'))"
    have "\<exists>f. file_at (working w') ds = Some f \<and> ff_etag (f_facts f) = st_etag (lst_stat l)"
      if l: "l \<in> set ls" "resolve_key_dims (m_source m) (lst_key l) = Some (ds, eff)"
        and v: "job_verdict (m_get_summary m) (m_source m) (lst_key l, lst_stat l, ds, eff) = Accepted ds eff (lst_stat l) summary"
      for l ds eff summary
    proof (cases "unchanged_in ?c ds (lst_stat l)")
      case True
      then show ?thesis
        using each [OF l] by (auto simp: listing_verdict_def same_at_def unchanged_in_def split: option.splits)
    next
      case False
      then show ?thesis
        using each [OF l] v by (auto simp: listing_verdict_def dest: row_written_etag)
    qed
    with gone run show ?thesis by (simp add: current_in_def work_on_def handle_event_def)
  qed
qed

text \<open>C11. The periodic rescan heals the catalog. Whatever events came before it, lost, duplicated, out of order
  or failing, once a rescan that can list the source has been handled, no file is in the catalog that is
  not listed, and every listed object that can be read is, with the fingerprint it was listed with.\<close>

theorem rescan_heals:
  assumes "in_sync w" and "sane_clock w" and "list_all (fair \<circ> fst) q" and "\<not> list_ex (is_stop \<circ> snd) q"
    and "fair m" and "src_list (m_source m) = Inr ls" and "distinct_objects (m_source m) ls"
  shows "in_sync (snd (worker_loop workers (q @ [(m, Watch \<lparr>we_kind = Rescan_event, we_path = None\<rparr>)]) w)) \<and>
    current_in m ls (working (snd (worker_loop workers (q @ [(m, Watch \<lparr>we_kind = Rescan_event, we_path = None\<rparr>)]) w)))"
proof -
  let ?w = "snd (worker_loop workers q w)"
  have w: "in_sync ?w" "sane_clock ?w"
    using worker_loop_keeps [OF assms(3,1), of workers] assms(2) by (simp_all add: sane_clock_def)
  have "worker_loop workers (q @ [(m, Watch \<lparr>we_kind = Rescan_event, we_path = None\<rparr>)]) w =
      (False, work_on workers m (Watch \<lparr>we_kind = Rescan_event, we_path = None\<rparr>) ?w)"
    using worker_loop_append [OF assms(4)] by (simp add: is_stop_def)
  then show ?thesis
    using rescan_current [OF w assms(5-7)] work_on_keeps [OF assms(5) w(1)] by simp
qed

lemma sample_current:
  assumes "current_in sample_moment [sample_listing] d"
  shows "\<exists>f. file_at d sample_dims = Some f \<and> ff_etag (f_facts f) = ''etag-1''"
proof -
  have m: "m_source sample_moment = sample_source" "m_get_summary sample_moment = sample_reader"
    by (simp_all add: sample_moment_def)
  have "job_verdict (m_get_summary sample_moment) (m_source sample_moment)
      (lst_key sample_listing, lst_stat sample_listing, sample_dims, rebuild_hive_key sample_dims) =
      Accepted sample_dims (rebuild_hive_key sample_dims) (lst_stat sample_listing) sample_summary"
    using sample_job_verdict by (simp add: m) (simp add: sample_listing_def)
  moreover have "st_etag (lst_stat sample_listing) = ''etag-1''" by (simp add: sample_listing_def sample_stat_def)
  ultimately show ?thesis using assms sample_listing_resolves unfolding current_in_def m by fastforce
qed

theorem rescan_heals_witness:
  "\<exists>f. file_at (working (snd (worker_loop 4
      ([(sample_moment\<lparr>m_source := broken_source\<rparr>, Watch (event_on Catalog_event ''x''))] @
       [(sample_moment, Watch \<lparr>we_kind = Rescan_event, we_path = None\<rparr>)]) (connect empty_db (\<lambda>_. 1))))) sample_dims = Some f \<and>
    ff_etag (f_facts f) = ''etag-1''"
proof -
  have q: "list_all (fair \<circ> fst) [(sample_moment\<lparr>m_source := broken_source\<rparr>, Watch (event_on Catalog_event ''x''))]"
    "\<not> list_ex (is_stop \<circ> snd) [(sample_moment\<lparr>m_source := broken_source\<rparr>, Watch (event_on Catalog_event ''x''))]"
    by (simp_all add: sample_fair is_stop_def)
  have ls: "src_list (m_source sample_moment) = Inr [sample_listing]" "distinct_objects (m_source sample_moment) [sample_listing]"
    by (simp_all add: sample_moment_def sample_listed sample_distinct_objects)
  show ?thesis
    using sample_current rescan_heals [OF fresh_in_sync sane_sample_clock q sample_fair(1) ls, of 4] by blast
qed

end
