(* ===== verification/Events.thy ===== *)
theory Events
  imports Worker
begin

text \<open>
  What a file event does when the worker gets to it, end to end: a recording that can be read is in the catalog
  afterwards, and an event that is delivered twice, as the queues in front of the worker may do, has the effect of one.
\<close>

section \<open>Judging twice\<close>

text \<open>The same files with the same tags, and the same keys that failed; a failure noted again gets a new time.\<close>

definition same_files :: "catalog \<Rightarrow> catalog \<Rightarrow> bool" where
  "same_files c c' \<longleftrightarrow>
     cat_files c' = cat_files c \<and> cat_topics c' = cat_topics c \<and> cat_embedded c' = cat_embedded c \<and>
     cat_override c' = cat_override c \<and> dom (cat_failures c') = dom (cat_failures c)"

lemma same_files_refl [simp]: "same_files c c"
  by (simp add: same_files_def)

lemma note_failure_again: "key \<in> dom (cat_failures c) \<Longrightarrow> same_files c (note_failure key info c)"
  by (auto simp: same_files_def note_failure_def)

lemma quarantine_again:
  "same_files (note_failure key info (drop_files D c)) (note_failure key info' (drop_files D (note_failure key info (drop_files D c))))"
  by (auto simp: same_files_def note_failure_def drop_files_def)

text \<open>After the step of a verdict, the verdict on the same object is one whose step changes no file.\<close>

lemma judge_again:
  assumes "judge get_summary source key None now c = Inr v" and "catalog_step c v c'"
    and "fits_sqlite now" and "fits_sqlite now'"
  obtains v' where "judge get_summary source key None now' c' = Inr v'" and "\<And>c''. catalog_step c' v' c'' \<Longrightarrow> same_files c' c''"
proof (cases "src_stat source key")
  case (Inr st1)
  show thesis
  proof (cases st1)
    case None
    then show thesis using that [of Gone] Inr by (simp add: judge_def catalog_step_simps)
  next
    case (Some st)
    show thesis
    proof (cases "resolve_key_dims source key")
      case None
      then have "v = Bad_key key ''unparseable key''" using assms(1) Inr Some by (simp add: judge_def)
      with assms(2) have noted: "key \<in> dom (cat_failures c')" by (auto simp: catalog_step_simps note_failure_def)
      show thesis
      proof (rule that)
        show "judge get_summary source key None now' c' = Inr (Bad_key key ''unparseable key'')"
          using Inr Some None by (simp add: judge_def)
        show "catalog_step c' (Bad_key key ''unparseable key'') c'' \<Longrightarrow> same_files c' c''" for c''
          using note_failure_again [OF noted] by (auto simp: catalog_step_simps)
      qed
    next
      case (Some de)
      then obtain ds eff where de: "resolve_key_dims source key = Some (ds, eff)" by fastforce
      have judged: "judge get_summary source key None n d = Inr (judge_known get_summary source key ds eff st n d)" for n d
        using Inr \<open>st1 = Some st\<close> de by (simp add: judge_def)
      then have v: "v = judge_known get_summary source key ds eff st now c" using assms(1) by simp
      show thesis
      proof (cases "unchanged_in c ds st")
        case True
        then have "c' = c" "judge_known get_summary source key ds eff st now' c = Unchanged ds"
          using assms(2) v by (simp_all add: judge_known_def catalog_step_simps)
        then show thesis using that [of "Unchanged ds"] judged by (simp add: catalog_step_simps)
      next
        case changed: False
        show thesis
        proof (cases "read_summary get_summary source key st")
          case (Inl e)
          then have "v = Unreadable ds eff (exn_text e)" using v changed by (simp add: judge_known_def)
          then obtain t where c': "c' = note_failure eff (t, exn_text e) (drop_files {ds} c)"
            using assms(2) by (auto simp: catalog_step_simps)
          then have "\<not> unchanged_in c' ds st" by (simp add: unchanged_in_def note_failure_def drop_files_def)
          then have "judge get_summary source key None now' c' = Inr (Unreadable ds eff (exn_text e))"
            using judged Inl by (simp add: judge_known_def)
          moreover have "catalog_step c' (Unreadable ds eff (exn_text e)) c'' \<Longrightarrow> same_files c' c''" for c''
            unfolding c' catalog_step_simps by (elim exE) (simp only: quarantine_again)
          ultimately show thesis by (rule that)
        next
          case (Inr summary)
          show thesis
          proof (cases "acceptable st summary now")
            case True
            then have "v = Accepted ds eff st summary" using v changed Inr by (simp add: judge_known_def judge_summary_def)
            then have "unchanged_in c' ds st"
              using assms(2) by (auto simp: catalog_step_simps unchanged_in_def put_file_def dest: row_written_etag)
            then show thesis using that [of "Unchanged ds"] judged by (simp add: judge_known_def catalog_step_simps)
          next
            case False
            then have v: "v = Rejected ds eff" using v changed Inr by (simp add: judge_known_def judge_summary_def)
            then obtain info where c': "c' = note_failure eff info (drop_files {ds} c)"
              using assms(2) by (auto simp: catalog_step_simps)
            then have "\<not> unchanged_in c' ds st" by (simp add: unchanged_in_def note_failure_def drop_files_def)
            moreover have "\<not> acceptable st summary now'" using False assms(3,4) by (simp add: acceptable_def)
            ultimately have "judge get_summary source key None now' c' = Inr (Rejected ds eff)"
              using judged Inr by (simp add: judge_known_def judge_summary_def)
            moreover have "catalog_step c' (Rejected ds eff) c'' \<Longrightarrow> same_files c' c''" for c''
              unfolding c' catalog_step_simps by (elim exE) (simp only: quarantine_again)
            ultimately show thesis by (rule that)
          qed
        qed
      qed
    qed
  qed
qed (use assms(1) in \<open>simp add: judge_def\<close>)

section \<open>Catalog and delete events\<close>

lemma catalog_again:
  assumes "in_sync w" and "sane_clock w"
  shows "same_files (catalog_of (working (snd (catalog_object get_summary key source None w))))
    (catalog_of (working (snd (catalog_object get_summary key source None (snd (catalog_object get_summary key source None w))))))"
proof -
  let ?m = "catalog_object get_summary key source None"
  note first = catalog_object_takes_step [OF assms(1), where get_summary = get_summary and source = source and key = key and ?st0.0 = None]
  show ?thesis
  proof (cases "judge get_summary source key None (ticks w (reads w)) (catalog_of (working w))")
    case (Inl e)
    then show ?thesis using first by simp
  next
    case (Inr v)
    obtain r and w1 :: writer where run: "?m w = (Inr r, w1)" "in_sync w1"
      and step: "catalog_step (catalog_of (working w)) v (catalog_of (working w1))"
      using first Inr by (auto simp: takes_step_def)
    have "fits_sqlite (ticks w (reads w))" "fits_sqlite (ticks w1 (reads w1))"
      using assms(2) keeps_clockD [OF keeps_clock_catalog_object run(1)] by (simp_all add: sane_clock_def)
    then obtain v' where again: "judge get_summary source key None (ticks w1 (reads w1)) (catalog_of (working w1)) = Inr v'"
      "\<And>c''. catalog_step (catalog_of (working w1)) v' c'' \<Longrightarrow> same_files (catalog_of (working w1)) c''"
      by (rule judge_again [OF Inr step]) blast
    with catalog_object_takes_step [OF run(2), where get_summary = get_summary and source = source and key = key and ?st0.0 = None] show ?thesis
      by (auto simp: run takes_step_def)
  qed
qed

lemma delete_again:
  assumes "in_sync w"
  shows "same_files (catalog_of (working (snd (delete_by_key key w))))
    (catalog_of (working (snd (delete_by_key key (snd (delete_by_key key w))))))"
proof (cases "\<exists>ds. parse_hive_key key = Some ds \<and> lookup_ids (working w) ds \<noteq> None")
  case True
  then obtain ds where ds: "parse_hive_key key = Some ds" "lookup_ids (working w) ds \<noteq> None" by blast
  let ?gone = "\<lambda>c. clear_failure key (drop_files {ds} c)"
  obtain r and w1 :: writer where first: "delete_by_key key w = (r, w1)" "in_sync w1"
    and c1: "catalog_of (working w1) = ?gone (catalog_of (working w))"
    using delete_by_key_run [OF assms, of key] ds by auto
  obtain r' and w2 :: writer where second: "delete_by_key key w1 = (r', w2)"
    and c2: "catalog_of (working w2) \<in> {catalog_of (working w1), ?gone (catalog_of (working w1))}"
    using delete_by_key_run [OF first(2), of key] ds(1) by (auto split: if_splits)
  have "same_files (?gone c) (?gone (?gone c))" for c
    by (auto simp: same_files_def clear_failure_def drop_files_def)
  then show ?thesis using c1 c2 by (auto simp: first second)
next
  case False
  then have "delete_by_key key w = (Inr False, w)"
    using assms cached_ids_lookup [of w] by (auto simp: delete_by_key_def split: option.splits)
  then show ?thesis by simp
qed

text \<open>C13. Events may be delivered twice. Handling a catalog or delete event again, in the same state of the world,
  changes no file, no tag and no set of failures, whether the first handling catalogued, skipped, quarantined,
  removed or raised: the queues in front of the worker need no deduplication.\<close>

theorem duplicate_events_harmless:
  assumes "in_sync w" and "sane_clock w" and "we_kind ev \<in> {Catalog_event, Delete_event}"
  shows "same_files (catalog_of (working (work_on workers m (Watch ev) w)))
    (catalog_of (working (work_on workers m (Watch ev) (work_on workers m (Watch ev) w))))"
proof (cases "we_path ev")
  case None
  then show ?thesis
    using assms(3) by (auto simp: work_on_def handle_event_def event_key_op_def raise_op_def bind_op_def)
next
  case (Some p)
  show ?thesis
  proof (cases "src_event_key (m_source m) p")
    case (Inl e)
    then have "event_key_op (m_source m) (Some p) = raise_op e" by (simp add: event_key_op_def lift_result_def)
    then show ?thesis
      using assms(3) Some by (auto simp: work_on_def handle_event_def raise_op_def return_op_def bind_op_def)
  next
    case (Inr key)
    then have "event_key_op (m_source m) (Some p) = return_op key" by (simp add: event_key_op_def lift_result_def)
    then show ?thesis
      using assms(3) Some catalog_again [OF assms(1,2), of "m_get_summary m" key "m_source m"] delete_again [OF assms(1), of key]
      by (auto simp: work_on_def handle_event_def snd_then_return)
  qed
qed

text \<open>C12. A recording that can be read gets into the catalog. When the worker comes to the event of a file that is
  stable, can be examined and read, and whose summary is consistent, the file is in the catalog afterwards
  with the fingerprint it has, whatever was handled before and whatever the catalog held.\<close>

theorem event_catalogued:
  assumes "in_sync w" and "sane_clock w" and "list_all (fair \<circ> fst) q" and "\<not> list_ex (is_stop \<circ> snd) q"
    and "src_wait_for_stable (m_source m) p" and "src_event_key (m_source m) p = Inr key"
    and "src_stat (m_source m) key = Inr (Some st)" and "resolve_key_dims (m_source m) key = Some (ds, eff)"
    and "read_summary (m_get_summary m) (m_source m) key st = Inr summary" and "acceptable st summary 0"
  shows "\<exists>f. file_at (working (snd (worker_loop workers (q @ [(m, Watch (event_on Catalog_event p))]) w))) ds = Some f \<and>
    ff_etag (f_facts f) = st_etag st"
proof -
  let ?w = "snd (worker_loop workers q w)" and ?m = "catalog_object (m_get_summary m) key (m_source m) None"
  have w: "in_sync ?w" "sane_clock ?w"
    using worker_loop_keeps [OF assms(3,1), of workers] assms(2) by (simp_all add: sane_clock_def)
  have run: "snd (worker_loop workers (q @ [(m, Watch (event_on Catalog_event p))]) w) = snd (?m ?w)"
    using worker_loop_append [OF assms(4)] assms(5,6)
    by (simp add: is_stop_def work_on_def handle_event_def event_key_op_def lift_result_def snd_then_return)
  have "fits_sqlite (ticks ?w (reads ?w))" using w(2) by (simp add: sane_clock_def)
  then have "acceptable st summary (ticks ?w (reads ?w))" using assms(10) by (simp add: acceptable_def)
  then have judged: "judge (m_get_summary m) (m_source m) key None (ticks ?w (reads ?w)) (catalog_of (working ?w)) =
      Inr (if unchanged_in (catalog_of (working ?w)) ds st then Unchanged ds else Accepted ds eff st summary)"
    using assms(7-9) by (simp add: judge_def judge_known_def judge_summary_def)
  note takes = catalog_object_takes_step [OF w(1), where get_summary = "m_get_summary m" and source = "m_source m" and key = key
      and ?st0.0 = None, unfolded judged sum.case]
  show ?thesis
  proof (cases "unchanged_in (catalog_of (working ?w)) ds st")
    case True
    then obtain f where f: "file_at (working ?w) ds = Some f" "ff_etag (f_facts f) = st_etag st"
      by (auto simp: unchanged_in_def split: option.splits)
    obtain r and w' :: writer where w': "?m ?w = (Inr r, w')" and same: "catalog_of (working w') = catalog_of (working ?w)"
      using takes True by (auto simp: takes_step_def catalog_step_simps)
    have "file_at (working w') ds = Some f" using f(1) arg_cong [OF same, of cat_files] by simp
    then show ?thesis unfolding run w' using f(2) by simp
  next
    case False
    then obtain r and w' :: writer and f now ts where w': "?m ?w = (Inr r, w')"
      and f: "row_written st summary now (file_at (working ?w) ds) f"
      and put: "catalog_of (working w') = put_file ds f ts eff (catalog_of (working ?w))"
      using takes by (auto simp: takes_step_def catalog_step_simps)
    have "file_at (working w') ds = Some f" using arg_cong [OF put, of cat_files] by (simp add: put_file_def)
    then show ?thesis unfolding run w' using row_written_etag [OF f] by simp
  qed
qed

section \<open>Samples\<close>

definition sample_event :: watch_event where
  "sample_event = event_on Catalog_event (rebuild_hive_key sample_dims)"

theorem duplicate_events_harmless_witness:
  "same_files (catalog_of (working (work_on 1 sample_moment (Watch sample_event) (connect empty_db (\<lambda>_. 1)))))
    (catalog_of (working (work_on 1 sample_moment (Watch sample_event)
      (work_on 1 sample_moment (Watch sample_event) (connect empty_db (\<lambda>_. 1))))))"
  by (rule duplicate_events_harmless [OF fresh_in_sync sane_sample_clock]) (simp add: sample_event_def)

theorem event_catalogued_witness:
  "\<exists>f. file_at (working (snd (worker_loop 1 [(sample_moment, Watch sample_event)] (connect empty_db (\<lambda>_. 1))))) sample_dims = Some f \<and>
    ff_etag (f_facts f) = ''etag-1''"
proof -
  have m: "m_source sample_moment = sample_source" "m_get_summary sample_moment = sample_reader"
    by (simp_all add: sample_moment_def)
  have source: "src_wait_for_stable sample_source p" "src_event_key sample_source p = Inr p"
    "src_stat sample_source (rebuild_hive_key sample_dims) = Inr (Some sample_stat)" for p
    by (simp_all add: sample_source_def)
  show ?thesis
    using event_catalogued [OF fresh_in_sync sane_sample_clock, where q = "[]" and m = sample_moment, unfolded m,
        OF _ _ source sample_key_resolves sample_reads sample_acceptable, of 1]
    by (simp add: sample_event_def sample_stat_def)
qed

end
