(* ===== verification/Tag_Queue.thy ===== *)
theory Tag_Queue
  imports Worker
begin

text \<open>
  The tag-edit endpoint as the threads run it: handler threads that screen, queue and wait, the worker that takes
  items up and finishes them some time later, and the clock. Each step is one thread's; any interleaving is a
  run. A handler is known by the number of its request.
\<close>

section \<open>The system\<close>

datatype queued = Job nat | Event watch_event

record 's ipc_config =
  cf_loads :: "bytes \<Rightarrow> exn + json"
  cf_deadline :: int
  cf_max_pending :: nat
  cf_workers :: int
  cf_moments :: "'s moment set"

text \<open>\<open>in_hand\<close> is the item the worker has taken up, and when. Ghosts: \<open>taken\<close> remembers that for every edit,
  \<open>put_log\<close> and \<open>done_log\<close> what has been queued and what has been handled.\<close>

record ipc =
  clock :: int
  work_q :: "queued list"
  in_hand :: "(queued \<times> int) option"
  permits :: nat
  waits :: "nat \<rightharpoonup> int"
  edits :: "nat \<rightharpoonup> tag_edit_item"
  results :: "nat \<rightharpoonup> tag_edit_result"
  taken :: "nat \<rightharpoonup> int"
  replies :: "nat \<rightharpoonup> int \<times> json"
  next_request :: nat
  served :: writer
  put_log :: "queued list"
  done_log :: "queued list"

definition boot_ipc :: "'s ipc_config \<Rightarrow> writer \<Rightarrow> int \<Rightarrow> ipc" where
  "boot_ipc cf w now =
     \<lparr>clock = now, work_q = [], in_hand = None, permits = cf_max_pending cf, waits = Map.empty, edits = Map.empty,
      results = Map.empty, taken = Map.empty, replies = Map.empty, next_request = 0, served = w, put_log = [], done_log = []\<rparr>"

definition wait_timeout :: "'s ipc_config \<Rightarrow> int" where
  "wait_timeout cf = max (cf_deadline cf) 0 + WAIT_MARGIN"

definition put_work :: "queued \<Rightarrow> ipc \<Rightarrow> ipc" where
  "put_work x s = s\<lparr>work_q := work_q s @ [x], put_log := put_log s @ [x]\<rparr>"

text \<open>The handler from the semaphore to the wait, in one step: what other threads do in between could as well have
  been done before or after.\<close>

definition enqueue_edit :: "'s ipc_config \<Rightarrow> dims \<Rightarrow> (string \<times> string) list \<Rightarrow> string list \<Rightarrow> ipc \<Rightarrow> ipc" where
  "enqueue_edit cf dims set_tags unset_keys s =
     (let n = next_request s in
      if permits s = 0 then s\<lparr>replies := (replies s)(n \<mapsto> busy_reply), next_request := Suc n\<rparr>
      else put_work (Job n) (s\<lparr>permits := permits s - 1,
             edits := (edits s)(n \<mapsto> \<lparr>ti_dims = dims, ti_set_tags = set_tags, ti_unset_keys = unset_keys,
               ti_deadline = clock s + cf_deadline cf\<rparr>),
             waits := (waits s)(n \<mapsto> clock s + wait_timeout cf), next_request := Suc n\<rparr>))"

text \<open>The end of the wait, by the event or by its timeout; both release the semaphore.\<close>

definition finish_request :: "nat \<Rightarrow> int \<times> json \<Rightarrow> ipc \<Rightarrow> ipc" where
  "finish_request n reply s =
     s\<lparr>replies := (replies s)(n \<mapsto> reply), waits := (waits s)(n := None), permits := permits s + 1\<rparr>"

definition mark_taken :: "queued \<Rightarrow> ipc \<Rightarrow> ipc" where
  "mark_taken x s = (case x of Job n \<Rightarrow> s\<lparr>taken := (taken s)(n \<mapsto> clock s)\<rparr> | Event ev \<Rightarrow> s)"

definition finish_edit :: "nat \<Rightarrow> int \<Rightarrow> tag_edit_item \<Rightarrow> ipc \<Rightarrow> ipc" where
  "finish_edit n t item s =
     (let (r, w) = handle_tag_edit t item (served s) in
      s\<lparr>results := (results s)(n \<mapsto> r), served := w, in_hand := None, done_log := done_log s @ [Job n]\<rparr>)"

definition finish_event :: "int \<Rightarrow> 's moment \<Rightarrow> watch_event \<Rightarrow> ipc \<Rightarrow> ipc" where
  "finish_event workers m ev s =
     s\<lparr>served := work_on workers m (Watch ev) (served s), in_hand := None, done_log := done_log s @ [Event ev]\<rparr>"

fun stops :: "queued \<Rightarrow> bool" where
  "stops (Job n) = False"
| "stops (Event ev) = (we_kind ev = Stop_event)"

text \<open>A stop ends the worker, so it is never taken up and work ceases.\<close>

inductive ipc_step :: "'s ipc_config \<Rightarrow> ipc \<Rightarrow> ipc \<Rightarrow> bool" for cf :: "'s ipc_config" where
  tick: "clock s \<le> t \<Longrightarrow> ipc_step cf s (s\<lparr>clock := t\<rparr>)"
| answered: "screen (cf_loads cf) rq = Answer code body \<Longrightarrow>
    ipc_step cf s (s\<lparr>replies := (replies s)(next_request s \<mapsto> (code, body)), next_request := Suc (next_request s)\<rparr>)"
| unanswered: "screen (cf_loads cf) rq = Dropped \<or> screen (cf_loads cf) rq = Escapes e \<Longrightarrow>
    ipc_step cf s (s\<lparr>next_request := Suc (next_request s)\<rparr>)"
| admitted: "screen (cf_loads cf) rq = Admit dims set_tags unset_keys \<Longrightarrow>
    ipc_step cf s (enqueue_edit cf dims set_tags unset_keys s)"
| watched: "ipc_step cf s (put_work (Event ev) s)"
| take_up: "in_hand s = None \<Longrightarrow> work_q s = x # q \<Longrightarrow> \<not> stops x \<Longrightarrow>
    ipc_step cf s (mark_taken x (s\<lparr>work_q := q, in_hand := Some (x, clock s)\<rparr>))"
| edit_done: "in_hand s = Some (Job n, t) \<Longrightarrow> edits s n = Some item \<Longrightarrow> ipc_step cf s (finish_edit n t item s)"
| event_done: "in_hand s = Some (Event ev, t) \<Longrightarrow> m \<in> cf_moments cf \<Longrightarrow>
    ipc_step cf s (finish_event (cf_workers cf) m ev s)"
| replied: "waits s n = Some t \<Longrightarrow> results s n = Some r \<Longrightarrow> ipc_step cf s (finish_request n (reply_to r) s)"
| timed_out: "waits s n = Some t \<Longrightarrow> t \<le> clock s \<Longrightarrow> results s n = None \<Longrightarrow> ipc_step cf s (finish_request n busy_reply s)"

inductive ipc_reachable :: "'s ipc_config \<Rightarrow> writer \<Rightarrow> ipc \<Rightarrow> bool" for cf :: "'s ipc_config" and w :: writer where
  boot: "ipc_reachable cf w (boot_ipc cf w now)"
| step: "ipc_reachable cf w s \<Longrightarrow> ipc_step cf s s' \<Longrightarrow> ipc_reachable cf w s'"

section \<open>Invariants\<close>

fun job_ids :: "queued list \<Rightarrow> nat list" where
  "job_ids [] = []"
| "job_ids (Job n # q) = n # job_ids q"
| "job_ids (Event ev # q) = job_ids q"

lemma job_ids_append [simp]: "job_ids (q @ q') = job_ids q @ job_ids q'"
  by (induction q rule: job_ids.induct) simp_all

text \<open>Permits and waiting handlers.\<close>

definition permits_inv :: "'s ipc_config \<Rightarrow> ipc \<Rightarrow> bool" where
  "permits_inv cf s \<longleftrightarrow>
     finite (dom (waits s)) \<and> permits s + card (dom (waits s)) = cf_max_pending cf \<and>
     (\<forall>n. waits s n \<noteq> None \<longrightarrow> edits s n \<noteq> None \<and> replies s n = None \<and> n < next_request s) \<and>
     (\<forall>n. replies s n \<noteq> None \<longrightarrow> n < next_request s)"

text \<open>Where an edit is: queued, in hand, or done.\<close>

definition queue_inv :: "ipc \<Rightarrow> bool" where
  "queue_inv s \<longleftrightarrow>
     distinct (job_ids (work_q s)) \<and>
     (\<forall>n \<in> set (job_ids (work_q s)). edits s n \<noteq> None \<and> taken s n = None \<and> results s n = None) \<and>
     (\<forall>n t. in_hand s = Some (Job n, t) \<longrightarrow> edits s n \<noteq> None \<and> taken s n = Some t \<and> results s n = None) \<and>
     (\<forall>n. edits s n \<noteq> None \<longrightarrow> n < next_request s) \<and> (\<forall>n. taken s n \<noteq> None \<longrightarrow> edits s n \<noteq> None) \<and>
     (\<forall>n. results s n \<noteq> None \<longrightarrow> taken s n \<noteq> None)"

text \<open>Times: an edit's result says whether it was taken up in time, and nobody gives up before the deadline.\<close>

definition times_inv :: "ipc \<Rightarrow> bool" where
  "times_inv s \<longleftrightarrow>
     (\<forall>n r. results s n = Some r \<longrightarrow>
        (\<exists>t item. taken s n = Some t \<and> edits s n = Some item \<and> (er_status r = Expired \<longleftrightarrow> ti_deadline item < t))) \<and>
     (\<forall>n t item. waits s n = Some t \<longrightarrow> edits s n = Some item \<longrightarrow> ti_deadline item < t) \<and>
     (\<forall>n item. edits s n = Some item \<longrightarrow> waits s n = None \<longrightarrow> taken s n = None \<longrightarrow> ti_deadline item < clock s)"

lemma mark_taken_frame [simp]:
  "permits (mark_taken x s) = permits s" "waits (mark_taken x s) = waits s" "edits (mark_taken x s) = edits s"
  "results (mark_taken x s) = results s" "replies (mark_taken x s) = replies s" "clock (mark_taken x s) = clock s"
  "next_request (mark_taken x s) = next_request s" "work_q (mark_taken x s) = work_q s" "in_hand (mark_taken x s) = in_hand s"
  "served (mark_taken x s) = served s" "put_log (mark_taken x s) = put_log s" "done_log (mark_taken x s) = done_log s"
  by (simp_all add: mark_taken_def split: queued.split)

lemma taken_mark_taken [simp]:
  "taken (mark_taken (Job n) s) = (taken s)(n \<mapsto> clock s)" "taken (mark_taken (Event ev) s) = taken s"
  by (simp_all add: mark_taken_def)

lemma put_work_simps [simp]:
  "work_q (put_work x s) = work_q s @ [x]" "put_log (put_work x s) = put_log s @ [x]"
  "permits (put_work x s) = permits s" "waits (put_work x s) = waits s" "edits (put_work x s) = edits s"
  "results (put_work x s) = results s" "replies (put_work x s) = replies s" "clock (put_work x s) = clock s"
  "next_request (put_work x s) = next_request s" "in_hand (put_work x s) = in_hand s" "taken (put_work x s) = taken s"
  "served (put_work x s) = served s" "done_log (put_work x s) = done_log s"
  by (simp_all add: put_work_def)

lemma finish_edit_eq:
  "finish_edit n t item s =
    s\<lparr>results := (results s)(n \<mapsto> fst (handle_tag_edit t item (served s))),
      served := snd (handle_tag_edit t item (served s)), in_hand := None, done_log := done_log s @ [Job n]\<rparr>"
  by (simp add: finish_edit_def split: prod.splits)

lemma handle_tag_edit_expired: "er_status (fst (handle_tag_edit now item w)) = Expired \<longleftrightarrow> ti_deadline item < now"
  by (simp add: handle_tag_edit_def tag_edit_body_def bind_op_def split: prod.splits sum.splits option.splits)

lemmas ipc_ops = enqueue_edit_def Let_def finish_request_def finish_edit_eq finish_event_def

lemma fresh_reply:
  assumes "permits_inv cf s"
  shows "next_request s \<notin> dom (waits s)" and "replies s (next_request s) = None"
  using assms unfolding permits_inv_def by (metis domIff less_irrefl)+

lemma permits_step:
  assumes "ipc_step cf s s'" and "permits_inv cf s"
  shows "permits_inv cf s'"
  using assms
proof cases
  case (admitted rq ds kvs ks)
  then show ?thesis using assms(2) fresh_reply [OF assms(2)] by (auto simp: ipc_ops permits_inv_def less_SucI)
next
  case (replied n t r)
  then have "n \<in> dom (waits s)" by blast
  then show ?thesis using replied assms(2) card_Suc_Diff1 [of "dom (waits s)" n] by (auto simp: ipc_ops permits_inv_def)
next
  case (timed_out n t)
  then have "n \<in> dom (waits s)" by blast
  then show ?thesis using timed_out assms(2) card_Suc_Diff1 [of "dom (waits s)" n] by (auto simp: ipc_ops permits_inv_def)
qed (auto simp: permits_inv_def ipc_ops less_SucI)

lemma job_ids_Cons: "job_ids (x # q) = (case x of Job n \<Rightarrow> n # job_ids q | Event ev \<Rightarrow> job_ids q)"
  by (cases x) simp_all

lemma fresh_request:
  assumes "queue_inv s"
  shows "edits s (next_request s) = None" and "taken s (next_request s) = None" and "results s (next_request s) = None"
    and "next_request s \<notin> set (job_ids (work_q s))"
proof -
  show new: "edits s (next_request s) = None" using assms unfolding queue_inv_def by (metis less_irrefl)
  then show "taken s (next_request s) = None" using assms unfolding queue_inv_def by metis
  then show "results s (next_request s) = None" using assms unfolding queue_inv_def by metis
  show "next_request s \<notin> set (job_ids (work_q s))" using assms new unfolding queue_inv_def by metis
qed

lemma queue_step:
  assumes "ipc_step cf s s'" and "queue_inv s"
  shows "queue_inv s'"
  using assms
proof cases
  case (admitted rq ds kvs ks)
  then show ?thesis using assms(2) fresh_request [OF assms(2)] by (auto simp: ipc_ops queue_inv_def less_SucI)
next
  case (take_up x q)
  then show ?thesis using assms(2) by (cases x) (auto simp: queue_inv_def)
next
  case (edit_done n t item)
  then show ?thesis using assms(2) by (auto simp: ipc_ops queue_inv_def)
qed (auto simp: queue_inv_def ipc_ops less_SucI)

lemma times_step:
  assumes "ipc_step cf s s'" and "times_inv s" and "queue_inv s"
  shows "times_inv s'"
  using assms
proof cases
  case (admitted rq ds kvs ks)
  then show ?thesis using assms(2,3) fresh_request [OF assms(3)] by (auto simp: ipc_ops times_inv_def queue_inv_def wait_timeout_def WAIT_MARGIN_def)
next
  case (take_up x q)
  then show ?thesis using assms(2,3) by (cases x) (auto simp: times_inv_def queue_inv_def)
next
  case (edit_done n t item)
  then show ?thesis using assms(2,3) by (auto simp: ipc_ops times_inv_def queue_inv_def handle_tag_edit_expired)
next
  case (replied n t r)
  then show ?thesis using assms(2,3) by (auto simp: ipc_ops times_inv_def queue_inv_def)
next
  case (timed_out n t)
  then have "ti_deadline item < clock s" if "edits s n = Some item" for item
    using that assms(2) unfolding times_inv_def by (metis less_le_trans)
  then show ?thesis using timed_out assms(2) by (auto simp: ipc_ops times_inv_def)
next
  case (tick t)
  then have "ti_deadline item < t" if "edits s n = Some item" "waits s n = None" "taken s n = None" for n item
    using that assms(2) unfolding times_inv_def by (meson less_le_trans)
  then show ?thesis using tick assms(2) by (simp add: times_inv_def)
qed (auto simp: times_inv_def ipc_ops)

lemma boot_invs: "permits_inv cf (boot_ipc cf w now)" "queue_inv (boot_ipc cf w now)" "times_inv (boot_ipc cf w now)"
  by (simp_all add: boot_ipc_def permits_inv_def queue_inv_def times_inv_def)

lemma reachable_invs:
  assumes "ipc_reachable cf w s"
  shows "permits_inv cf s" and "queue_inv s" and "times_inv s"
proof -
  have "permits_inv cf s \<and> queue_inv s \<and> times_inv s"
    using assms
  proof induction
    case (step s s')
    then show ?case using permits_step queue_step times_step by blast
  qed (simp add: boot_invs)
  then show "permits_inv cf s" and "queue_inv s" and "times_inv s" by blast+
qed

section \<open>What the invariants give\<close>

text \<open>C38. The semaphore counts. In every reachable state the handlers that wait for the worker are exactly the
  permits taken, so at most \<open>max_pending\<close> handlers wait, each for an edit of its own that has not been answered;
  and a request that finds no permit is answered \<open>503\<close> without anything being queued.\<close>

theorem pending_edits_bounded:
  assumes "ipc_reachable cf w s"
  shows "finite (dom (waits s)) \<and> permits s + card (dom (waits s)) = cf_max_pending cf \<and>
    dom (waits s) \<subseteq> dom (edits s) - dom (replies s) \<and>
    (card (dom (waits s)) = cf_max_pending cf \<longleftrightarrow>
      enqueue_edit cf ds kvs ks s =
        s\<lparr>replies := (replies s)(next_request s \<mapsto> busy_reply), next_request := Suc (next_request s)\<rparr>)"
proof -
  note inv = reachable_invs(1) [OF assms, unfolded permits_inv_def]
  have "put_log (enqueue_edit cf ds kvs ks s) = put_log s \<longleftrightarrow> permits s = 0"
    by (simp add: enqueue_edit_def Let_def)
  then have "enqueue_edit cf ds kvs ks s =
      s\<lparr>replies := (replies s)(next_request s \<mapsto> busy_reply), next_request := Suc (next_request s)\<rparr> \<longleftrightarrow> permits s = 0"
    by (auto simp: enqueue_edit_def Let_def)
  moreover have "card (dom (waits s)) = cf_max_pending cf \<longleftrightarrow> permits s = 0" using inv by linarith
  ultimately show ?thesis using inv by auto
qed

text \<open>A handler that has been answered before the worker took its edit up.\<close>

lemma given_up_steps:
  assumes "(ipc_step cf)\<^sup>*\<^sup>* s s'" and "queue_inv s" and "edits s n = Some item" and "taken s n = None" and "ti_deadline item < clock s"
  shows "edits s' n = Some item \<and> ti_deadline item < clock s' \<and> (\<forall>t. taken s' n = Some t \<longrightarrow> ti_deadline item < t) \<and> queue_inv s'"
  using assms(1)
proof induction
  case (step s1 s2)
  then have "queue_inv s2" using queue_step by blast
  moreover have "n \<noteq> next_request s1" using step fresh_request(1) [of s1] by auto
  moreover have "edits s2 n = edits s1 n \<and> clock s1 \<le> clock s2 \<and> (taken s2 n = taken s1 n \<or> taken s2 n = Some (clock s1))"
    using step(2)
  proof cases
    case (take_up x q)
    then show ?thesis by (cases x) auto
  qed (use \<open>n \<noteq> next_request s1\<close> in \<open>auto simp: ipc_ops\<close>)
  ultimately show ?case using step.IH by auto
qed (use assms(2-5) in simp)

text \<open>C15. No edit lands late. If a handler has been answered while its edit was still untouched in the queue,
  then whatever happens afterwards, when the worker comes to the edit it leaves the catalog as it is and
  reports it expired.\<close>

theorem no_late_edit:
  assumes "ipc_reachable cf w s" and "replies s n \<noteq> None" and "edits s n = Some item" and "taken s n = None"
    and "(ipc_step cf)\<^sup>*\<^sup>* s s'" and "in_hand s' = Some (Job n, t)"
  shows "edits s' n = Some item \<and> served (finish_edit n t item s') = served s' \<and>
    results (finish_edit n t item s') n = Some (no_tags Expired)"
proof -
  have "waits s n = None" using reachable_invs(1) [OF assms(1)] assms(2) by (auto simp: permits_inv_def)
  then have "ti_deadline item < clock s" using reachable_invs(3) [OF assms(1)] assms(3,4) by (auto simp: times_inv_def)
  note later = given_up_steps [OF assms(5) reachable_invs(2) [OF assms(1)] assms(3,4) this]
  then have "taken s' n = Some t" using assms(6) by (auto simp: queue_inv_def)
  then have "ti_deadline item < t" using later by blast
  then show ?thesis using later by (simp add: finish_edit_eq handle_tag_edit_def tag_edit_body_def)
qed

section \<open>Replies\<close>

definition replies_inv :: "ipc \<Rightarrow> bool" where
  "replies_inv s \<longleftrightarrow>
     (\<forall>n item rep. edits s n = Some item \<longrightarrow> replies s n = Some rep \<longrightarrow>
        (\<exists>r. results s n = Some r \<and> rep = reply_to r) \<or> (rep = busy_reply \<and> ti_deadline item + WAIT_MARGIN \<le> clock s)) \<and>
     (\<forall>n item t. edits s n = Some item \<longrightarrow> waits s n = Some t \<longrightarrow> ti_deadline item + WAIT_MARGIN \<le> t)"

lemma replies_step:
  assumes "ipc_step cf s s'" and "replies_inv s" and "queue_inv s" and "permits_inv cf s"
  shows "replies_inv s'"
  using assms
proof cases
  case (admitted rq ds kvs ks)
  then show ?thesis
    using assms(2) fresh_request [OF assms(3)] fresh_reply [OF assms(4)]
    by (auto simp: ipc_ops replies_inv_def wait_timeout_def)
next
  case (answered rq code body)
  then show ?thesis using assms(2) fresh_request [OF assms(3)] by (auto simp: replies_inv_def)
next
  case (edit_done n t item)
  then have "results s n = None" using assms(3) unfolding queue_inv_def by blast
  then have "rep = busy_reply \<and> ti_deadline item + WAIT_MARGIN \<le> clock s" if "replies s n = Some rep" for rep
    using assms(2) edit_done(3) that unfolding replies_inv_def by (metis option.distinct(1))
  then show ?thesis using edit_done assms(2) unfolding replies_inv_def by (simp add: ipc_ops)
next
  case (tick t)
  then show ?thesis using assms(2) unfolding replies_inv_def by fastforce
next
  case (timed_out n t)
  then have "ti_deadline item + WAIT_MARGIN \<le> clock s" if "edits s n = Some item" for item
    using that assms(2) unfolding replies_inv_def by (metis order_trans)
  then show ?thesis using timed_out assms(2) by (auto simp: ipc_ops replies_inv_def)
qed (auto simp: replies_inv_def ipc_ops)

lemma reachable_replies: "ipc_reachable cf w s \<Longrightarrow> replies_inv s"
proof (induction rule: ipc_reachable.induct)
  case (boot now)
  then show ?case by (simp add: boot_ipc_def replies_inv_def)
next
  case (step s s')
  then show ?case using replies_step reachable_invs by blast
qed

text \<open>C16. Replies are true. The reply to a queued edit is that of its result; a result says expired exactly when
  the worker took the edit up after its deadline, so a \<open>200\<close> means the edit was taken up in time and has been
  applied; the one exception is a \<open>503\<close> to a handler that waited in vain until two seconds after the deadline.\<close>

theorem edit_replies_true:
  assumes "ipc_reachable cf w s" and "edits s n = Some item" and "replies s n = Some rep"
  shows "(\<exists>r t. results s n = Some r \<and> rep = reply_to r \<and> taken s n = Some t \<and> (er_status r = Expired \<longleftrightarrow> ti_deadline item < t)) \<or>
    (rep = busy_reply \<and> ti_deadline item + WAIT_MARGIN \<le> clock s)"
proof -
  consider r where "results s n = Some r" "rep = reply_to r" | "rep = busy_reply" "ti_deadline item + WAIT_MARGIN \<le> clock s"
    using reachable_replies [OF assms(1)] assms(2,3) unfolding replies_inv_def by blast
  then show ?thesis
  proof cases
    case 1
    then obtain t item' where "taken s n = Some t" "edits s n = Some item'" "er_status r = Expired \<longleftrightarrow> ti_deadline item' < t"
      using reachable_invs(3) [OF assms(1)] unfolding times_inv_def by blast
    then show ?thesis using 1 assms(2) by simp
  qed simp
qed

section \<open>The threads refine the worker loop\<close>

fun item_of :: "(nat \<rightharpoonup> tag_edit_item) \<Rightarrow> queued \<Rightarrow> work_item" where
  "item_of ed (Job n) = Edit (the (ed n))"
| "item_of ed (Event ev) = Watch ev"

definition hand :: "ipc \<Rightarrow> queued list" where
  "hand s = (case in_hand s of None \<Rightarrow> [] | Some (x, t) \<Rightarrow> [x])"

text \<open>An item as it was worked on: an edit at the time it was taken up, an event in one of the moments of the world.\<close>

definition worked ::
  "'s ipc_config \<Rightarrow> (nat \<rightharpoonup> tag_edit_item) \<Rightarrow> (nat \<rightharpoonup> int) \<Rightarrow> 's moment \<times> work_item \<Rightarrow> queued \<Rightarrow> bool"
where
  "worked cf ed tk p x \<longleftrightarrow> snd p = item_of ed x \<and> fair (fst p) \<and>
     (case x of Job n \<Rightarrow> tk n = Some (m_now (fst p)) | Event ev \<Rightarrow> fst p \<in> cf_moments cf)"

definition log_inv :: "'s ipc_config \<Rightarrow> writer \<Rightarrow> ipc \<Rightarrow> bool" where
  "log_inv cf w s \<longleftrightarrow>
     put_log s = done_log s @ hand s @ work_q s \<and> (\<forall>x t. in_hand s = Some (x, t) \<longrightarrow> \<not> stops x) \<and>
     (\<forall>n \<in> set (job_ids (done_log s)). edits s n \<noteq> None \<and> taken s n \<noteq> None) \<and>
     (\<exists>q. list_all2 (worked cf (edits s) (taken s)) q (done_log s) \<and> worker_loop (cf_workers cf) q w = (False, served s))"

lemma job_in_ids: "Job n \<in> set q \<longleftrightarrow> n \<in> set (job_ids q)"
  by (induction q rule: job_ids.induct) auto

lemma worked_frame:
  assumes "\<And>n. n \<in> set (job_ids xs) \<Longrightarrow> ed' n = ed n \<and> tk' n = tk n"
  shows "list_all2 (worked cf ed' tk') q xs = list_all2 (worked cf ed tk) q xs"
proof -
  have "worked cf ed' tk' p (xs ! i) = worked cf ed tk p (xs ! i)" if "i < length xs" for p i
    using assms nth_mem [OF that] by (cases "xs ! i") (auto simp: worked_def job_in_ids)
  then have "i < length xs \<Longrightarrow> worked cf ed' tk' (q ! i) (xs ! i) = worked cf ed tk (q ! i) (xs ! i)" for i by blast
  then show ?thesis by (metis list_all2_conv_all_nth)
qed

lemma worker_loop_more:
  "worker_loop k q w = (False, w') \<Longrightarrow> worker_loop k (q @ q') w = worker_loop k q' w'"
  by (induction k q w rule: worker_loop.induct) (auto split: if_splits)

text \<open>One more item worked on.\<close>

lemma log_inv_more:
  assumes "log_inv cf w s" and "in_hand s = Some (x, t)" and "worked cf (edits s) (taken s) (m, item_of (edits s) x) x"
    and "served s' = work_on (cf_workers cf) m (item_of (edits s) x) (served s)"
    and "edits s' = edits s" "taken s' = taken s" "in_hand s' = None" "work_q s' = work_q s" "put_log s' = put_log s"
    and "done_log s' = done_log s @ [x]" and "\<And>n. x = Job n \<Longrightarrow> edits s n \<noteq> None"
  shows "log_inv cf w s'"
proof -
  obtain q where q: "list_all2 (worked cf (edits s) (taken s)) q (done_log s)" "worker_loop (cf_workers cf) q w = (False, served s)"
    using assms(1) by (auto simp: log_inv_def)
  have "\<not> is_stop (item_of (edits s) x)" using assms(1,2) by (cases x) (auto simp: log_inv_def is_stop_def)
  then have run: "worker_loop (cf_workers cf) (q @ [(m, item_of (edits s) x)]) w = (False, served s')"
    using worker_loop_more [OF q(2)] assms(4) by simp
  have all: "list_all2 (worked cf (edits s') (taken s')) (q @ [(m, item_of (edits s) x)]) (done_log s')"
    using q(1) assms(3,5,6,10) by (simp add: list_all2_appendI)
  have "edits s n \<noteq> None \<and> taken s n \<noteq> None" if "n \<in> set (job_ids (done_log s'))" for n
    using that assms(1,3,10,11) by (cases x) (auto simp: log_inv_def worked_def)
  then show ?thesis
    using assms run all unfolding log_inv_def hand_def by auto
qed

lemma fair_edit_moment: "fair (undefined\<lparr>m_completion := \<lambda>js. js, m_now := t\<rparr>)"
  by (simp add: fair_def)

lemma log_step:
  assumes "ipc_step cf s s'" and "log_inv cf w s" and "queue_inv s" and "\<And>m. m \<in> cf_moments cf \<Longrightarrow> fair m"
  shows "log_inv cf w s'"
  using assms(1)
proof cases
  case (admitted rq ds kvs ks)
  have "next_request s \<notin> set (job_ids (done_log s))"
    using assms(2) fresh_request(1) [OF assms(3)] by (auto simp: log_inv_def)
  then have "list_all2 (worked cf ((edits s)(next_request s \<mapsto> i)) (taken s)) q (done_log s) =
      list_all2 (worked cf (edits s) (taken s)) q (done_log s)" for q i
    by (intro worked_frame) auto
  then show ?thesis using admitted assms(2) by (auto simp: ipc_ops log_inv_def hand_def)
next
  case (take_up x q)
  show ?thesis
  proof (cases x)
    case (Job n)
    then have "n \<notin> set (job_ids (done_log s))"
      using take_up assms(2,3) unfolding log_inv_def queue_inv_def by (auto simp: job_ids_Cons)
    then have "list_all2 (worked cf (edits s) ((taken s)(n \<mapsto> i))) q (done_log s) =
        list_all2 (worked cf (edits s) (taken s)) q (done_log s)" for q i
      by (intro worked_frame) auto
    then show ?thesis using take_up Job assms(2) by (auto simp: log_inv_def hand_def)
  qed (use take_up assms(2) in \<open>auto simp: log_inv_def hand_def\<close>)
next
  case (edit_done n t item)
  then have "taken s n = Some t" using assms(3) unfolding queue_inv_def by blast
  then show ?thesis
    using edit_done fair_edit_moment
    by (intro log_inv_more [OF assms(2), where x = "Job n" and m = "undefined\<lparr>m_completion := \<lambda>js. js, m_now := t\<rparr>"])
      (auto simp: finish_edit_eq worked_def work_on_def)
next
  case (event_done ev t m)
  then show ?thesis
    using assms(4)
    by (intro log_inv_more [OF assms(2), where x = "Event ev" and m = m]) (auto simp: finish_event_def worked_def)
qed (use assms(2) in \<open>auto simp: log_inv_def hand_def ipc_ops\<close>)

text \<open>C14. The threads refine the sequential loop. However handlers, producers, the worker and the clock interleave,
  the items are handled once each in the order in which they were put on the queue, and the catalog is what
  \<open>worker_loop\<close> makes of the items handled so far, so it is in sync whenever the worker is between two of them.\<close>

theorem threads_refine_worker:
  assumes "ipc_reachable cf w s" and "in_sync w" and "\<forall>m \<in> cf_moments cf. fair m"
  shows "put_log s = done_log s @ hand s @ work_q s \<and> in_sync (served s) \<and>
    (\<exists>q. list_all2 (worked cf (edits s) (taken s)) q (done_log s) \<and> worker_loop (cf_workers cf) q w = (False, served s))"
proof -
  have inv: "log_inv cf w s"
    using assms(1)
  proof induction
    case (boot now)
    then show ?case by (auto simp: boot_ipc_def log_inv_def hand_def)
  next
    case (step s s')
    then show ?case using log_step reachable_invs(2) assms(3) by blast
  qed
  then obtain q where q: "list_all2 (worked cf (edits s) (taken s)) q (done_log s)" "worker_loop (cf_workers cf) q w = (False, served s)"
    by (auto simp: log_inv_def)
  then have "list_all (fair \<circ> fst) q"
    by (auto simp: list_all_length list_all2_conv_all_nth worked_def)
  from worker_loop_keeps [OF this assms(2), of "cf_workers cf"] have "in_sync (served s)" using q(2) by simp
  then show ?thesis using inv q by (auto simp: log_inv_def)
qed

section \<open>Every waiting handler is answered\<close>

lemma waiting_step:
  assumes "ipc_step cf s s'" and "permits_inv cf s" and "n < next_request s"
  shows "n < next_request s' \<and> (waits s n = Some t \<longrightarrow> waits s' n = Some t \<or> replies s' n \<noteq> None) \<and>
    (replies s n \<noteq> None \<longrightarrow> replies s' n \<noteq> None)"
  using assms
  by cases (auto simp: ipc_ops)

lemma waiting_steps:
  assumes "(ipc_step cf)\<^sup>*\<^sup>* s s'" and "permits_inv cf s" and "waits s n = Some t"
  shows "permits_inv cf s' \<and> n < next_request s' \<and> (waits s' n = Some t \<or> replies s' n \<noteq> None)"
  using assms(1)
proof induction
  case (step s1 s2)
  then show ?case using permits_step waiting_step [OF step(2), of n t] by blast
qed (use assms(2,3) in \<open>auto simp: permits_inv_def\<close>)

text \<open>C37. No handler waits for ever. Whatever the worker does after an edit has been queued, be it busy with a
  reconcile, stopped or dead, once the wait's timeout is over the handler has been answered or its answer is
  enabled, and remains so until given; answering returns the permit.\<close>

theorem waiting_handler_answered:
  assumes "ipc_reachable cf w s" and "waits s n = Some t" and "(ipc_step cf)\<^sup>*\<^sup>* s s'" and "t \<le> clock s'"
  shows "replies s' n \<noteq> None \<or>
    (\<exists>rep. ipc_step cf s' (finish_request n rep s') \<and> replies (finish_request n rep s') n = Some rep \<and>
      permits (finish_request n rep s') = permits s' + 1)"
proof (cases "replies s' n")
  case None
  then have wait: "waits s' n = Some t" using waiting_steps [OF assms(3) reachable_invs(1) [OF assms(1)] assms(2)] by blast
  have "\<exists>rep. ipc_step cf s' (finish_request n rep s')"
    using ipc_step.replied [OF wait] ipc_step.timed_out [OF wait assms(4)] by (cases "results s' n") blast+
  then show ?thesis by (auto simp: finish_request_def)
qed simp

section \<open>The queue itself is not bounded\<close>

definition sample_cf :: "nat \<Rightarrow> unit ipc_config" where
  "sample_cf cap = \<lparr>cf_loads = \<lambda>raw. Inr sample_body, cf_deadline = DEFAULT_DEADLINE, cf_max_pending = cap, cf_workers = 1,
     cf_moments = {sample_moment}\<rparr>"

lemma sample_admitted:
  "screen (cf_loads (sample_cf cap)) (sample_request\<lparr>rq_content_length := Some ''2''\<rparr>) =
    Admit sample_dims [(''note'', ''new'')] [''robot_mode'']"
proof -
  have len: "py_int ''2'' = Some 2"
    by (simp add: py_int_def strip_text_def space_char_def int_of_digits_def is_dec_def digits_value_def INT_MAX_STR_DIGITS_def)
  have "screen_body sample_body = Admit sample_dims [(''note'', ''new'')] [''robot_mode'']"
    unfolding screen_body_Admit sample_body_def using trusted_dims_rebuild [OF wf_sample_dims] by (simp add: or_else_def)
  then show ?thesis by (simp add: screen_def sample_cf_def sample_request_def len MAX_BODY_BYTES_def)
qed

definition sample_enqueue :: "nat \<Rightarrow> ipc \<Rightarrow> ipc" where
  "sample_enqueue cap = enqueue_edit (sample_cf cap) sample_dims [(''note'', ''new'')] [''robot_mode'']"

lemma sample_enqueue_step: "ipc_step (sample_cf cap) s (sample_enqueue cap s)"
  unfolding sample_enqueue_def by (rule ipc_step.admitted [OF sample_admitted])

text \<open>With a single permit any number of edits can be in the queue at once: a handler that gives up returns its
  permit while its edit stays queued.\<close>

lemma queue_depth_unbounded:
  "\<exists>s. ipc_reachable (sample_cf 1) w s \<and> length (job_ids (work_q s)) = k \<and> permits s = 1 \<and> waits s = Map.empty \<and>
    results s = Map.empty"
proof (induction k)
  case 0
  have "ipc_reachable (sample_cf 1) w (boot_ipc (sample_cf 1) w 0)" by (rule ipc_reachable.boot)
  moreover have "length (job_ids (work_q (boot_ipc (sample_cf 1) w 0))) = 0 \<and> permits (boot_ipc (sample_cf 1) w 0) = 1 \<and>
    waits (boot_ipc (sample_cf 1) w 0) = Map.empty \<and> results (boot_ipc (sample_cf 1) w 0) = Map.empty"
    by (simp add: boot_ipc_def sample_cf_def)
  ultimately show ?case by blast
next
  case (Suc k)
  then obtain s where s: "ipc_reachable (sample_cf 1) w s" "length (job_ids (work_q s)) = k" "permits s = 1"
    "waits s = Map.empty" "results s = Map.empty" by blast
  let ?n = "next_request s" and ?c = "clock s + wait_timeout (sample_cf 1)"
  let ?s1 = "sample_enqueue 1 s" let ?s2 = "?s1\<lparr>clock := ?c\<rparr>" let ?s3 = "finish_request ?n busy_reply ?s2"
  have "clock s \<le> ?c" by (simp add: wait_timeout_def WAIT_MARGIN_def)
  then have "ipc_step (sample_cf 1) ?s1 ?s2"
    by (intro ipc_step.tick) (simp add: sample_enqueue_def enqueue_edit_def Let_def)
  moreover have "ipc_step (sample_cf 1) ?s2 ?s3"
    by (rule ipc_step.timed_out [where t = ?c]) (simp_all add: sample_enqueue_def enqueue_edit_def Let_def s)
  ultimately have "ipc_reachable (sample_cf 1) w ?s3"
    using s(1) sample_enqueue_step ipc_reachable.step by metis
  moreover have "length (job_ids (work_q ?s3)) = Suc k" "permits ?s3 = 1" "waits ?s3 = Map.empty" "results ?s3 = Map.empty"
    by (simp_all add: sample_enqueue_def ipc_ops s)
  ultimately show ?case by blast
qed

section \<open>Sample runs\<close>

definition sample_waiting :: ipc where
  "sample_waiting = sample_enqueue 1 (boot_ipc (sample_cf 1) sample_writer 0)"

definition sample_given_up :: ipc where
  "sample_given_up = finish_request 0 busy_reply (sample_waiting\<lparr>clock := 7000\<rparr>)"

definition sample_in_hand :: "ipc \<Rightarrow> ipc" where
  "sample_in_hand s = mark_taken (Job 0) (s\<lparr>work_q := [], in_hand := Some (Job 0, clock s)\<rparr>)"

lemma sample_waiting_simps [simp]:
  "clock sample_waiting = 0" "work_q sample_waiting = [Job 0]" "in_hand sample_waiting = None" "permits sample_waiting = 0"
  "waits sample_waiting = [0 \<mapsto> 7000]" "edits sample_waiting = [0 \<mapsto> sample_item]" "results sample_waiting = Map.empty"
  "taken sample_waiting = Map.empty" "replies sample_waiting = Map.empty" "served sample_waiting = sample_writer"
  "put_log sample_waiting = [Job 0]" "done_log sample_waiting = []"
  by (simp_all add: sample_waiting_def sample_enqueue_def enqueue_edit_def boot_ipc_def sample_cf_def Let_def wait_timeout_def
    WAIT_MARGIN_def DEFAULT_DEADLINE_def sample_item_def)

lemma sample_waiting_reachable: "ipc_reachable (sample_cf 1) sample_writer sample_waiting"
  unfolding sample_waiting_def by (rule ipc_reachable.step [OF ipc_reachable.boot sample_enqueue_step])

lemma sample_take_up: "work_q s = [Job 0] \<Longrightarrow> in_hand s = None \<Longrightarrow> ipc_step (sample_cf 1) s (sample_in_hand s)"
  unfolding sample_in_hand_def by (rule ipc_step.take_up) simp_all

lemma sample_given_up_reachable: "ipc_reachable (sample_cf 1) sample_writer sample_given_up"
proof -
  have "ipc_reachable (sample_cf 1) sample_writer (sample_waiting\<lparr>clock := 7000\<rparr>)"
    by (rule ipc_reachable.step [OF sample_waiting_reachable ipc_step.tick]) simp
  then show ?thesis
    unfolding sample_given_up_def by (rule ipc_reachable.step) (rule ipc_step.timed_out [where t = 7000], simp_all)
qed

theorem pending_edits_bounded_witness:
  "replies (sample_enqueue 1 sample_waiting) = [Suc 0 \<mapsto> busy_reply] \<and> card (dom (waits sample_waiting)) = 1"
proof -
  have "next_request sample_waiting = Suc 0"
    by (simp add: sample_waiting_def sample_enqueue_def enqueue_edit_def boot_ipc_def sample_cf_def)
  moreover have "cf_max_pending (sample_cf 1) = 1" by (simp add: sample_cf_def)
  ultimately show ?thesis
    using pending_edits_bounded [OF sample_waiting_reachable, of sample_dims "[(''note'', ''new'')]" "[''robot_mode'']"]
    by (simp add: sample_enqueue_def)
qed

theorem no_late_edit_witness:
  "served (finish_edit 0 7000 sample_item (sample_in_hand sample_given_up)) = sample_writer \<and>
    results (finish_edit 0 7000 sample_item (sample_in_hand sample_given_up)) 0 = Some (no_tags Expired)"
proof -
  have up: "work_q sample_given_up = [Job 0]" "in_hand sample_given_up = None" "clock sample_given_up = 7000"
    "served sample_given_up = sample_writer"
    by (simp_all add: sample_given_up_def finish_request_def)
  have "replies sample_given_up 0 \<noteq> None" "edits sample_given_up 0 = Some sample_item" "taken sample_given_up 0 = None"
    by (simp_all add: sample_given_up_def finish_request_def)
  note late = no_late_edit [OF sample_given_up_reachable this r_into_rtranclp [of "ipc_step (sample_cf 1)", OF sample_take_up [OF up(1,2)]]]
  have "in_hand (sample_in_hand sample_given_up) = Some (Job 0, 7000)" by (simp add: sample_in_hand_def up)
  from late [OF this] show ?thesis by (simp add: sample_in_hand_def up)
qed

theorem waiting_handler_answered_witness:
  "\<exists>rep. replies (finish_request 0 rep (sample_waiting\<lparr>clock := 7000\<rparr>)) 0 = Some rep \<and>
    permits (finish_request 0 rep (sample_waiting\<lparr>clock := 7000\<rparr>)) = 1"
proof -
  have "ipc_step (sample_cf 1) sample_waiting (sample_waiting\<lparr>clock := 7000\<rparr>)" by (rule ipc_step.tick) simp
  from waiting_handler_answered [OF sample_waiting_reachable _ r_into_rtranclp [of "ipc_step (sample_cf 1)", OF this], of 0 7000]
  show ?thesis by auto
qed

definition sample_finished :: ipc where
  "sample_finished = finish_edit 0 0 sample_item (sample_in_hand sample_waiting)"

lemma sample_finished_reachable: "ipc_reachable (sample_cf 1) sample_writer sample_finished"
proof -
  have "ipc_reachable (sample_cf 1) sample_writer (sample_in_hand sample_waiting)"
    by (rule ipc_reachable.step [OF sample_waiting_reachable sample_take_up]) simp_all
  then show ?thesis
    unfolding sample_finished_def
    by (rule ipc_reachable.step) (rule ipc_step.edit_done, simp_all add: sample_in_hand_def)
qed

theorem threads_refine_worker_witness:
  "\<exists>q :: (unit moment \<times> work_item) list. map snd q = [Edit sample_item] \<and> worker_loop 1 q sample_writer = (False, served sample_finished)"
proof -
  have "done_log sample_finished = [Job 0]" "edits sample_finished = [0 \<mapsto> sample_item]" "cf_workers (sample_cf 1) = 1"
    by (simp_all add: sample_finished_def finish_edit_eq sample_in_hand_def sample_cf_def)
  moreover have "\<forall>m \<in> cf_moments (sample_cf 1). fair m" by (simp add: sample_cf_def sample_fair)
  note refined = threads_refine_worker [OF sample_finished_reachable sample_writer_in_sync this]
  ultimately obtain q where q: "list_all2 (worked (sample_cf 1) [0 \<mapsto> sample_item] (taken sample_finished)) q [Job 0]"
    "worker_loop 1 q sample_writer = (False, served sample_finished)" by auto
  then have "map snd q = [Edit sample_item]" by (auto simp: list_all2_Cons2 worked_def)
  from conjI [OF this q(2)] show ?thesis by (rule exI)
qed

theorem edit_replies_true_witness:
  "\<exists>s r. ipc_reachable (sample_cf 1) sample_writer s \<and> results s 0 = Some r \<and> replies s 0 = Some (reply_to r) \<and>
    er_status r \<noteq> Expired \<and> clock s = 0"
proof -
  have res: "results sample_finished 0 = Some (fst (handle_tag_edit 0 sample_item sample_writer))"
    by (simp add: sample_finished_def finish_edit_eq sample_in_hand_def)
  let ?s = "finish_request 0 (reply_to (fst (handle_tag_edit 0 sample_item sample_writer))) sample_finished"
  have "waits sample_finished 0 = Some 7000" by (simp add: sample_finished_def finish_edit_eq sample_in_hand_def)
  from ipc_step.replied [OF this res] have reach: "ipc_reachable (sample_cf 1) sample_writer ?s"
    by (rule ipc_reachable.step [OF sample_finished_reachable])
  have s: "edits ?s 0 = Some sample_item" "clock ?s = 0" "taken ?s 0 = Some 0"
    by (simp_all add: finish_request_def sample_finished_def finish_edit_eq sample_in_hand_def)
  have rep: "replies ?s 0 = Some (reply_to (fst (handle_tag_edit 0 sample_item sample_writer)))" by (simp add: finish_request_def)
  from edit_replies_true [OF reach s(1) rep] s(2,3) obtain r where
    "results ?s 0 = Some r" "replies ?s 0 = Some (reply_to r)" "er_status r \<noteq> Expired"
    unfolding rep by (auto simp: sample_item_def WAIT_MARGIN_def)
  then show ?thesis using reach s(2) by blast
qed

end
