(* ===== verification/Versions.thy ===== *)
theory Versions
  imports Worker
begin

text \<open>
  What other connections see while the single writer works, and what is left if it is killed: the versions it
  commits. Every operation on one object shows the catalog before it or after it and nothing between; a
  reconcile, which commits object by object, shows every file as it was or as it ends.
\<close>

section \<open>Commits\<close>

text \<open>Nothing new is committed, or one version, which is the one in force afterwards.\<close>

definition commits_once :: "(writer, 'a) op \<Rightarrow> bool" where
  "commits_once m \<longleftrightarrow> (\<forall>w. versions (snd (m w)) = versions w \<or>
     versions (snd (m w)) = versions w @ [committed (snd (m w))])"

named_theorems commit_rules \<open>operations that commit at most once\<close>

lemma commits_onceD:
  "commits_once m \<Longrightarrow> m w = (r, w') \<Longrightarrow> versions w' = versions w \<or> versions w' = versions w @ [committed w']"
  unfolding commits_once_def by (metis snd_conv)

lemma statements_commits_once: "statements m \<Longrightarrow> commits_once m"
  by (simp add: statements_def commits_once_def)

lemma commits_once_after [commit_rules]:
  assumes "statements m" and "\<And>x. commits_once (f x)"
  shows "commits_once (bind_op m f)"
  unfolding commits_once_def
proof
  fix w
  obtain r w1 where m: "m w = (r, w1)" by fastforce
  show "versions (snd (bind_op m f w)) = versions w \<or>
      versions (snd (bind_op m f w)) = versions w @ [committed (snd (bind_op m f w))]"
    using statementsD [OF assms(1) m] assms(2) [unfolded commits_once_def, rule_format, of _ w1]
    by (cases r) (simp_all add: bind_op_def m)
qed

lemma commits_once_before [commit_rules]:
  assumes "commits_once m" and "\<And>x. statements (f x)"
  shows "commits_once (bind_op m f)"
  unfolding commits_once_def
proof
  fix w
  obtain r w1 where m: "m w = (r, w1)" by fastforce
  have "versions w1 = versions w \<or> versions w1 = versions w @ [committed w1]" by (rule commits_onceD [OF assms(1) m])
  then show "versions (snd (bind_op m f w)) = versions w \<or>
      versions (snd (bind_op m f w)) = versions w @ [committed (snd (bind_op m f w))]"
    using assms(2) by (cases r) (simp_all add: bind_op_def m statements_def)
qed

lemma commits_once_commit [commit_rules]: "commits_once commit_op"
  by (simp add: commits_once_def commit_op_def)

lemma commits_once_statements [commit_rules]:
  "commits_once (return_op x)" "commits_once (raise_op e)" "commits_once (lift_result r)" "commits_once (query q)"
  by (rule statements_commits_once, rule statements_basic)+

lemma commits_once_with_conn [commit_rules]:
  assumes "statements m"
  shows "commits_once (with_conn m)"
  unfolding commits_once_def
proof
  fix w
  obtain r w1 where m: "m w = (r, w1)" by fastforce
  show "versions (snd (with_conn m w)) = versions w \<or>
      versions (snd (with_conn m w)) = versions w @ [committed (snd (with_conn m w))]"
    using statementsD [OF assms m] by (cases r) (simp_all add: with_conn_def m rollback_def)
qed

section \<open>The operations on one object\<close>

lemma commits_once_quarantine [commit_rules]: "commits_once (quarantine_existing ids ds key err)"
  unfolding quarantine_existing_def by (intro commit_rules txn_rules)

lemma commits_once_quarantine_then: "commits_once (bind_op (quarantine_existing ids ds key err) (\<lambda>_. return_op r))"
  by (rule commits_once_before [OF commits_once_quarantine]) (rule txn_rules)

lemma commits_once_note_failure [commit_rules]:
  "commits_once (bind_op (record_failure key err) (\<lambda>_. bind_op commit_op (\<lambda>_. return_op r)))"
  by (intro commit_rules txn_rules)

lemma commits_once_write_file_row [commit_rules]: "commits_once (write_file_row ds key ids st summary)"
  unfolding commits_once_def
proof
  fix w
  let ?rest = "\<lambda>e. bind_op reload_caches (\<lambda>_. bind_op (quarantine_existing ids ds key (exn_text e))
    (\<lambda>_. return_op (failed (exn_msg e))))"
  obtain r w1 where m: "file_txn ds key ids st summary w = (r, w1)" by fastforce
  note kept = statementsD [OF statements_file_txn m]
  have "commits_once (?rest e)" for e by (intro commit_rules txn_rules)
  note rest = this [unfolded commits_once_def, rule_format]
  show "versions (snd (write_file_row ds key ids st summary w)) = versions w \<or>
      versions (snd (write_file_row ds key ids st summary w)) =
        versions w @ [committed (snd (write_file_row ds key ids st summary w))]"
    using kept rest [of _ "rollback w1"] by (cases r) (simp_all add: write_file_row_def with_conn_def m rollback_def)
qed

lemma commits_once_delete [commit_rules]: "commits_once (delete_by_key key)"
proof -
  have "commits_once (bind_op (query q) (\<lambda>deleted. bind_op (exec f) (\<lambda>_. bind_op (exec g) (\<lambda>_. bind_op commit_op
      (\<lambda>_. return_op (deleted \<noteq> []))))))" for q :: "db \<Rightarrow> file_row list" and f g
    by (intro commit_rules txn_rules)
  then show ?thesis
    unfolding commits_once_def delete_by_key_def by (simp split: option.splits)
qed

lemma commits_once_classify [commit_rules]: "commits_once (classify source etags l cl)"
proof (cases "resolve_key_dims source (lst_key l)")
  case None
  then show ?thesis by (simp add: classify_def commits_once_note_failure)
qed (simp add: classify_def commits_once_def Let_def split: prod.split)

lemma commits_once_update_tags [commit_rules]: "commits_once (update_tags i a b)"
  unfolding update_tags_def by (intro commit_rules txn_rules) (auto intro!: txn_rules)

lemma commits_once_tag_edit [commit_rules]: "commits_once (tag_edit_body now item)"
proof -
  have "commits_once (bind_op (update_tags i a b) (\<lambda>_. bind_op (query q) (\<lambda>rows. return_op (r rows))))" for i a b q
    and r :: "(string \<times> string \<times> bool) list \<Rightarrow> tag_edit_result"
    by (rule commits_once_before [OF commits_once_update_tags]) (intro txn_rules)
  then show ?thesis
    unfolding tag_edit_body_def
    by (auto intro!: commits_once_after [OF statements_basic(4)] commits_once_statements split: option.splits)
qed

section \<open>What is shown\<close>

text \<open>Every version committed on the way is a whole database whose catalog has the property.\<close>

definition shows_only :: "(catalog \<Rightarrow> bool) \<Rightarrow> writer \<Rightarrow> writer \<Rightarrow> bool" where
  "shows_only P w w' \<longleftrightarrow>
     (\<exists>ds. versions w' = versions w @ ds \<and> (\<forall>d \<in> set ds. whole d \<and> P (catalog_of d)))"

lemma shows_only_refl [simp]: "shows_only P w w"
  by (simp add: shows_only_def)

lemma shows_only_trans: "shows_only P w w1 \<Longrightarrow> shows_only P w1 w' \<Longrightarrow> shows_only P w w'"
  unfolding shows_only_def by (elim exE conjE, rule exI, rule conjI, simp) auto

lemma shows_only_weaken: "shows_only P w w' \<Longrightarrow> (\<And>c. P c \<Longrightarrow> Q c) \<Longrightarrow> shows_only Q w w'"
  unfolding shows_only_def by blast

lemma in_sync_whole: "in_sync w \<Longrightarrow> whole (working w)"
  by (auto simp: whole_def)

lemma commits_once_shows:
  assumes "commits_once m" and "m w = (r, w')" and "in_sync w'" and "P (catalog_of (working w'))"
  shows "shows_only P w w'"
  using commits_onceD [OF assms(1,2)] assms(4) in_sync_whole [OF assms(3)] in_syncD(4) [OF assms(3)]
  by (auto simp: shows_only_def)

lemma resolve_ids_shows:
  assumes s: "in_sync w" and run: "bind_op (resolve_ids ds) f w = (r, w')" and f: "\<And>ids. commits_once (f ids)"
    and s': "in_sync w'" and P: "P (catalog_of (working w))" "P (catalog_of (working w'))"
  shows "shows_only P w w'"
proof (rule resolve_ids_in_sync [OF s, of ds])
  fix ids d
  assume ids: "resolve_ids ds w = (Inr ids, commit (with_db d w))" "in_sync (commit (with_db d w))"
    and same: "catalog_of d = catalog_of (working w)"
  have "shows_only P w (commit (with_db d w))"
    using same in_sync_whole [OF ids(2)] P(1) by (simp add: shows_only_def)
  have "f ids (commit (with_db d w)) = (r, w')" using run ids(1) by (simp add: bind_op_def)
  from commits_once_shows [where P = P, OF f this s' P(2)] have "shows_only P (commit (with_db d w)) w'" .
  with \<open>shows_only P w (commit (with_db d w))\<close> show ?thesis by (rule shows_only_trans)
qed

text \<open>Before or after, and nothing else.\<close>

definition atomic_from :: "writer \<Rightarrow> writer \<Rightarrow> bool" where
  "atomic_from w w' \<longleftrightarrow> shows_only (\<lambda>c. c = catalog_of (working w) \<or> c = catalog_of (working w')) w w'"

lemma catalog_object_atomic:
  assumes s: "in_sync w" and run: "catalog_object get_summary key source st0 w = (r, w')"
  shows "atomic_from w w'"
proof -
  have s': "in_sync w'" by (rule keeps_syncD [OF catalog_object_keeps_sync s run])
  let ?m = "catalog_object get_summary key source st0"
  have simple: "atomic_from w w'" if "?m w = m w" "commits_once m" for m
    unfolding atomic_from_def
    by (rule commits_once_shows [OF that(2) run [unfolded that(1)] s']) simp
  show ?thesis
  proof (cases "case st0 of Some st \<Rightarrow> Inr (Some st) | None \<Rightarrow> src_stat source key")
    case (Inl e)
    then have "?m w = raise_op e w" by (simp add: catalog_object_def lift_result_def)
    then show ?thesis by (rule simple [OF _ commits_once_statements(2)])
  next
    case stat: (Inr st1)
    consider (gone) "st1 = None" | (bad) st where "st1 = Some st" "resolve_key_dims source key = None"
      | (known) st ds eff where "st1 = Some st" "resolve_key_dims source key = Some (ds, eff)"
      by (cases st1; cases "resolve_key_dims source key") auto
    then show ?thesis
    proof cases
      case gone
      then have "?m w = return_op (failed ''vanished'') w" by (simp add: catalog_object_def lift_result_def stat)
      then show ?thesis by (rule simple [OF _ commits_once_statements(1)])
    next
      case bad
      then have "?m w = bind_op (record_failure key ''unparseable key'')
          (\<lambda>_. bind_op commit_op (\<lambda>_. return_op (failed ''unparseable key''))) w"
        by (simp add: catalog_object_def lift_result_def stat)
      then show ?thesis by (rule simple [OF _ commits_once_note_failure])
    next
      case known
      let ?rest = "\<lambda>ids. bind_op (composite_row ids ds) (\<lambda>existing.
          if (case existing of Some r \<Rightarrow> ff_etag (f_facts r) = st_etag st | None \<Rightarrow> False)
          then return_op skipped
          else (case read_summary get_summary source key st of
               Inl e \<Rightarrow> bind_op (quarantine_existing ids ds eff (exn_text e)) (\<lambda>_. return_op (failed (exn_msg e)))
             | Inr summary \<Rightarrow> write_file_row ds eff ids st summary))"
      have rest: "commits_once (?rest ids)" for ids
        by (auto intro!: commits_once_after [OF statements_builder(2)] commits_once_statements(1) commits_once_quarantine_then
            commits_once_write_file_row split: sum.splits)
      have "bind_op (resolve_ids ds) ?rest w = (r, w')"
        using run by (simp add: catalog_object_def lift_result_def stat known)
      then show ?thesis
        unfolding atomic_from_def by (rule resolve_ids_shows [OF s _ rest s']) simp_all
    qed
  qed
qed

lemma apply_extract_atomic:
  assumes s: "in_sync w" and run: "apply_extract ex w = (r, w')" and s': "in_sync w'"
  shows "atomic_from w w'"
proof -
  have simple: "commits_once (apply_extract (Vanished k))" "commits_once (apply_extract (Unparseable k err))" for k err
    by (simp_all add: apply_extract_def Let_def commits_once_note_failure commits_once_statements)
  show ?thesis
  proof (cases ex)
    case (Ready key ds eff st summary)
    then have "bind_op (resolve_ids ds) (\<lambda>ids. write_file_row ds eff ids st summary) w = (r, w')"
      using run by (simp add: apply_extract_def)
    then show ?thesis
      unfolding atomic_from_def by (rule resolve_ids_shows [OF s _ commits_once_write_file_row s']) simp_all
  next
    case (Read_error key ds eff err)
    then have "bind_op (resolve_ids ds) (\<lambda>ids. bind_op (quarantine_existing ids ds eff err) (\<lambda>_. return_op (failed err))) w = (r, w')"
      using run by (simp add: apply_extract_def)
    then show ?thesis
      unfolding atomic_from_def
      by (rule resolve_ids_shows [OF s _ commits_once_quarantine_then s']) simp_all
  qed (use commits_once_shows [OF simple(1) _ s'] commits_once_shows [OF simple(2) _ s'] run in \<open>simp_all add: atomic_from_def\<close>)
qed

lemma delete_by_key_atomic:
  assumes "in_sync w" and "delete_by_key key w = (r, w')"
  shows "atomic_from w w'"
  using commits_once_shows [OF commits_once_delete assms(2) keeps_syncD [OF delete_by_key_keeps_sync assms]]
  by (simp add: atomic_from_def)

lemma tag_edit_atomic:
  assumes "in_sync w" and "tag_edit_body now item w = (r, w')"
  shows "atomic_from w w'"
proof -
  have "in_sync w'" using editing.leaves_in_sync [OF assms] .
  from commits_once_shows [OF commits_once_tag_edit assms(2) this] show ?thesis by (simp add: atomic_from_def)
qed

section \<open>A reconcile object by object\<close>

lemma fold_op_snoc: "fold_op f (xs @ [x]) a = bind_op (fold_op f xs a) (f x)"
proof -
  have "bind_op m (fold_op f []) = m" for m
    by (rule ext) (simp add: bind_op_def split: prod.splits sum.splits)
  then have "fold_op f [x] = f x" by (simp add: fun_eq_iff)
  then show ?thesis by (simp add: fold_op_append)
qed

lemma classify_shows:
  assumes s: "in_sync w" and "sane_clock w"
    and run: "fold_op (classify source (stored_etags (working w))) ls nothing_classified w = (r, w1)"
  shows "shows_only (\<lambda>c. \<exists>bad \<subseteq> lst_key ` set (filter (unparseable source) ls). noted_only bad (catalog_of (working w)) c) w w1"
  using run
proof (induction ls arbitrary: r w1 rule: rev_induct)
  case (snoc l ls)
  let ?P = "\<lambda>ls c. \<exists>bad \<subseteq> lst_key ` set (filter (unparseable source) ls). noted_only bad (catalog_of (working w)) c"
  obtain w2 where w2: "fold_op (classify source (stored_etags (working w))) ls nothing_classified w =
      (Inr (classified_as source (catalog_of (working w)) ls), w2)"
    using classify_all [OF assms(1,2)] by blast
  obtain w' where w': "fold_op (classify source (stored_etags (working w))) (ls @ [l]) nothing_classified w =
      (Inr (classified_as source (catalog_of (working w)) (ls @ [l])), w')" "in_sync w'"
    "noted_only (lst_key ` set (filter (unparseable source) (ls @ [l]))) (catalog_of (working w)) (catalog_of (working w'))"
    using classify_all [OF assms(1,2), of source "ls @ [l]"] by blast
  have w1: "w1 = w'" using snoc.prems w'(1) by simp
  have "?P ls c \<Longrightarrow> ?P (ls @ [l]) c" for c by (auto simp: image_Un)
  then have "shows_only (?P (ls @ [l])) w w2" by (rule shows_only_weaken [OF snoc.IH [OF w2]])
  moreover have "classify source (stored_etags (working w)) l (classified_as source (catalog_of (working w)) ls) w2 =
      (Inr (classified_as source (catalog_of (working w)) (ls @ [l])), w')"
    using w'(1) w2 by (simp add: fold_op_snoc)
  then have "shows_only (?P (ls @ [l])) w2 w'"
    using commits_once_shows [OF commits_once_classify _ w'(2), where P = "?P (ls @ [l])"] w'(3) by blast
  ultimately show ?case unfolding w1 by (rule shows_only_trans)
qed simp

text \<open>On the way: each job's file is as it was or as its verdict says, everything else as it was.\<close>

definition jobs_between ::
  "('s \<Rightarrow> exn + mcap_summary option) \<Rightarrow> 's source \<Rightarrow> job list \<Rightarrow> catalog \<Rightarrow> catalog \<Rightarrow> bool"
where
  "jobs_between get_summary source jobs c c' \<longleftrightarrow>
     (\<forall>j \<in> set jobs. same_at (job_dims j) (job_eff j) c c' \<or>
       verdict_effect (job_verdict get_summary source j) (job_dims j) (job_eff j) c c') \<and>
     (\<forall>ds eff. ds \<notin> job_dims ` set jobs \<longrightarrow> eff \<notin> job_eff ` set jobs \<longrightarrow> same_at ds eff c c')"

lemma same_at_refl [simp]: "same_at ds eff c c"
  by (simp add: same_at_def)

lemma jobs_between_refl [simp]: "jobs_between get_summary source jobs c c"
  by (simp add: jobs_between_def)

text \<open>The next job has been done, and then some of the others.\<close>

lemma jobs_between_Cons:
  assumes step: "catalog_step c (job_verdict get_summary source j) c1"
    and later: "jobs_between get_summary source js c1 c'"
    and good: "\<forall>j' \<in> set (j # js). good_job source j'" and dist: "distinct (map job_dims (j # js))"
  shows "jobs_between get_summary source (j # js) c c'"
proof -
  let ?v = "job_verdict get_summary source"
  note apart = jobs_apart [OF good dist]
  have first: "verdict_effect (?v j) (job_dims j) (job_eff j) c c1" by (rule step_effect [OF step job_verdict_on])
  have other: "same_at ds e c c1" if "ds \<noteq> job_dims j" "e \<noteq> job_eff j" for ds e
    by (rule step_elsewhere [OF step job_verdict_on that])
  have "same_at (job_dims j) (job_eff j) c1 c'" using later apart(1,2) by (simp only: jobs_between_def) blast
  then have done_j: "verdict_effect (?v j) (job_dims j) (job_eff j) c c'" by (rule effect_before_same [OF first])
  have "same_at (job_dims j') (job_eff j') c c' \<or> verdict_effect (?v j') (job_dims j') (job_eff j') c c'"
    if j': "j' \<in> set js" for j'
  proof -
    have "same_at (job_dims j') (job_eff j') c c1" using apart(3) [OF j'] by (intro other) simp_all
    then show ?thesis using later j' same_at_trans effect_after_same unfolding jobs_between_def by meson
  qed
  moreover have "same_at ds e c c'" if "ds \<notin> job_dims ` set (j # js)" "e \<notin> job_eff ` set (j # js)" for ds e
  proof (rule same_at_trans [OF other])
    show "same_at ds e c1 c'" using later that by (simp add: jobs_between_def)
  qed (use that in auto)
  ultimately show ?thesis using done_j by (simp add: jobs_between_def)
qed

lemma jobs_show:
  assumes "in_sync w" and "sane_clock w" and "\<And>j. j \<in> set jobs \<Longrightarrow> good_job source j"
    and "distinct (map job_dims jobs)"
    and "fold_op (apply_job get_summary source) jobs t w = (r, w')"
  shows "shows_only (jobs_between get_summary source jobs (catalog_of (working w))) w w'"
  using assms
proof (induction jobs arbitrary: w t)
  case (Cons j js)
  let ?c = "catalog_of (working w)"
  let ?P = "jobs_between get_summary source (j # js) ?c"
  obtain t1 w1 where w1: "apply_job get_summary source j t w = (Inr t1, w1)" "in_sync w1" "sane_clock w1"
    and step: "catalog_step ?c (job_verdict get_summary source j) (catalog_of (working w1))"
    using apply_job_step [OF Cons.prems(1,2), where source = source and job = j and t = t] Cons.prems(3)
    by (metis list.set_intros(1))
  have after: "?P c" if "jobs_between get_summary source js (catalog_of (working w1)) c" for c
    using Cons.prems(3) by (intro jobs_between_Cons [OF step that _ Cons.prems(4)]) blast
  obtain r1 where "apply_extract (extract_job get_summary source j) w = (r1, w1)"
    using w1(1) by (cases "apply_extract (extract_job get_summary source j) w"; cases "fst (apply_extract (extract_job get_summary source j) w)")
      (simp_all add: apply_job_def)
  from apply_extract_atomic [OF Cons.prems(1) this w1(2)]
  have "shows_only (\<lambda>c. c = ?c \<or> c = catalog_of (working w1)) w w1" by (simp add: atomic_from_def)
  then have "shows_only ?P w w1"
    by (rule shows_only_weaken) (use after jobs_between_refl in blast)
  moreover have "fold_op (apply_job get_summary source) js t1 w1 = (r, w')"
    using Cons.prems(5) w1(1) by simp
  then have "shows_only (jobs_between get_summary source js (catalog_of (working w1))) w1 w'"
    using Cons.prems(3,4) by (intro Cons.IH [OF w1(2,3)]) simp_all
  then have "shows_only ?P w1 w'" by (rule shows_only_weaken) (rule after)
  ultimately show ?case by (rule shows_only_trans)
qed simp

text \<open>While a reconcile is on its way: a listed file is as it was or as its verdict says, an unlisted one as it was or
  gone.\<close>

definition file_same :: "dims \<Rightarrow> catalog \<Rightarrow> catalog \<Rightarrow> bool" where
  "file_same ds c c' \<longleftrightarrow>
     cat_files c' ds = cat_files c ds \<and> cat_topics c' ds = cat_topics c ds \<and>
     cat_embedded c' ds = cat_embedded c ds \<and> cat_override c' ds = cat_override c ds"

definition on_the_way ::
  "('s \<Rightarrow> exn + mcap_summary option) \<Rightarrow> 's source \<Rightarrow> listing list \<Rightarrow> catalog \<Rightarrow> catalog \<Rightarrow> bool"
where
  "on_the_way get_summary source ls c c' \<longleftrightarrow>
     (\<forall>l \<in> set ls. \<forall>ds eff. resolve_key_dims source (lst_key l) = Some (ds, eff) \<longrightarrow>
       same_at ds eff c c' \<or> verdict_effect (listing_verdict get_summary source c l ds eff) ds eff c c') \<and>
     (\<forall>ds. ds \<notin> listed_dims source ls \<longrightarrow> file_same ds c c' \<or> cat_files c' ds = None)"

lemma noted_on_the_way:
  assumes noted: "noted_only bad c c1" and bad: "bad \<subseteq> lst_key ` set (filter (unparseable source) ls)"
    and once: "distinct_objects source ls"
    and later: "jobs_between get_summary source (jobs_of source c ls) c1 c'"
  shows "on_the_way get_summary source ls c c'"
proof -
  let ?jobs = "jobs_of source c ls"
  have "same_at ds eff c c' \<or> verdict_effect (listing_verdict get_summary source c l ds eff) ds eff c c'"
    if l: "l \<in> set ls" and r: "resolve_key_dims source (lst_key l) = Some (ds, eff)" for l ds eff
  proof -
    have "eff \<notin> lst_key ` set (filter (unparseable source) ls)"
      using once l r by (fastforce simp: distinct_objects_def)
    then have before: "same_at ds eff c c1" using bad by (intro noted_only_same_at [OF noted]) blast
    show ?thesis
    proof (cases "unchanged_in c ds (lst_stat l)")
      case False
      then have "(lst_key l, lst_stat l, ds, eff) \<in> set ?jobs" using l r by (auto simp: in_jobs_of)
      then have "same_at ds eff c1 c' \<or> verdict_effect (job_verdict get_summary source (lst_key l, lst_stat l, ds, eff)) ds eff c1 c'"
        using later unfolding jobs_between_def by fastforce
      with before False show ?thesis
        by (auto simp: listing_verdict_def intro: same_at_trans effect_after_same)
    next
      case True
      have "ds \<noteq> job_dims j \<and> eff \<noteq> job_eff j" if j: "j \<in> set ?jobs" for j
        using j True listed_once [OF once l _ r] resolve_key_dims_eff [OF r] by (fastforce simp: in_jobs_of)
      then have "same_at ds eff c1 c'" using later unfolding jobs_between_def by blast
      with before show ?thesis by (blast intro: same_at_trans)
    qed
  qed
  moreover have "file_same ds c c'" if "ds \<notin> listed_dims source ls" for ds
  proof -
    obtain eff where eff: "eff \<notin> job_eff ` set ?jobs"
      using ex_new_if_finite [OF infinite_UNIV_listI, of "job_eff ` set ?jobs"] by blast
    moreover have "ds \<notin> job_dims ` set ?jobs" using that by (fastforce simp: in_jobs_of listed_dims_def)
    ultimately have "same_at ds eff c1 c'" using later by (simp add: jobs_between_def)
    then show ?thesis using noted_only_same [OF noted] by (simp add: file_same_def same_at_def)
  qed
  ultimately show ?thesis by (simp add: on_the_way_def)
qed

lemma on_the_way_dropped:
  assumes "on_the_way get_summary source ls c c'"
  shows "on_the_way get_summary source ls c (drop_files (- listed_dims source ls) c')"
    and "on_the_way get_summary source ls c ((drop_files (- listed_dims source ls) c')\<lparr>cat_build := b\<rparr>)"
proof -
  let ?drop = "drop_files (- listed_dims source ls) c'"
  have same: "same_at ds eff c' ?drop" "same_at ds eff c' (?drop\<lparr>cat_build := b\<rparr>)"
    if "l \<in> set ls" "resolve_key_dims source (lst_key l) = Some (ds, eff)" for l ds eff
    using that by (auto simp: same_at_def drop_files_def listed_dims_def)
  have gone: "cat_files ?drop ds = None" if "ds \<notin> listed_dims source ls" for ds
    using that by (simp add: drop_files_def)
  show "on_the_way get_summary source ls c ?drop"
    unfolding on_the_way_def using assms [unfolded on_the_way_def] same(1) gone
    by (meson effect_before_same same_at_trans)
  show "on_the_way get_summary source ls c (?drop\<lparr>cat_build := b\<rparr>)"
    unfolding on_the_way_def using assms [unfolded on_the_way_def] same(2) gone
    by simp (meson effect_before_same same_at_trans)
qed

text \<open>C6. Readers during a reconcile. It commits object by object, and whichever commit another connection catches, or a
  kill leaves behind, it finds a well-formed database in which every listed file is as it was or already
  as its verdict says, its row, topics, tags and failure together, and every other file as it was or gone.\<close>

theorem reconcile_readers:
  assumes "in_sync w" and "sane_clock w" and "src_list source = Inr ls"
    and "\<And>js. mset (completion js) = mset js" and "distinct_objects source ls"
  shows "\<exists>t w' ds. full_reconcile get_summary completion source workers w = (Inr t, w') \<and>
    versions w' = versions w @ ds \<and>
    (\<forall>d \<in> set ds. whole d \<and> on_the_way get_summary source ls (catalog_of (working w)) (catalog_of d))"
proof (rule reconcile_stages [OF assms, of get_summary workers])
  fix w1 w2 w' :: writer and t now
  let ?c = "catalog_of (working w)" and ?c1 = "catalog_of (working w1)" and ?c2 = "catalog_of (working w2)"
  let ?jobs = "jobs_of source ?c ls" and ?bad = "lst_key ` set (filter (unparseable source) ls)"
  let ?P = "on_the_way get_summary source ls ?c"
  assume run: "full_reconcile get_summary completion source workers w =
      (Inr (t\<lparr>t_deleted := card (unlisted source ls ?c2)\<rparr>), w')" and s': "in_sync w'"
    and noted: "noted_only ?bad ?c ?c1"
    and each: "\<And>j. j \<in> set ?jobs \<Longrightarrow> verdict_effect (job_verdict get_summary source j) (job_dims j) (job_eff j) ?c1 ?c2"
    and elsewhere: "\<And>ds eff. ds \<notin> job_dims ` set ?jobs \<Longrightarrow> eff \<notin> job_eff ` set ?jobs \<Longrightarrow> same_at ds eff ?c1 ?c2"
    and final: "catalog_of (working w') = (drop_files (- listed_dims source ls) ?c2)
        \<lparr>cat_build := Some (build_stamp (int (t_cataloged t + t_skipped t)) (int (t_failed t))
          (if t_failed t \<noteq> 0 then ''partial'' else ''ok'') now (build_metadata (working w)))\<rparr>"
    and first: "fold_op (classify source (stored_etags (working w))) ls nothing_classified w = (Inr (classified_as source ?c ls), w1)"
    and w1: "in_sync w1" "sane_clock w1"
    and second: "\<exists>order. mset order = mset ?jobs \<and>
      fold_op (apply_job get_summary source) order (cl_tally (classified_as source ?c ls)) w1 = (Inr t, w2)"
    and third: "\<exists>d. versions w' = versions w2 @ [d, working w'] \<and> whole d \<and>
      catalog_of d = drop_files (- listed_dims source ls) ?c2"
  have "shows_only ?P w w1"
  proof (rule shows_only_weaken [OF classify_shows [OF assms(1,2) first]])
    fix c
    assume "\<exists>bad \<subseteq> ?bad. noted_only bad ?c c"
    then obtain bad where "noted_only bad ?c c" "bad \<subseteq> ?bad" by blast
    from noted_on_the_way [OF this assms(5) jobs_between_refl] show "?P c" .
  qed
  moreover have after: "?P c" if "jobs_between get_summary source ?jobs ?c1 c" for c
    by (rule noted_on_the_way [OF noted subset_refl assms(5) that])
  have "shows_only ?P w1 w2"
  proof -
    obtain order where order: "mset order = mset ?jobs"
      "fold_op (apply_job get_summary source) order (cl_tally (classified_as source ?c ls)) w1 = (Inr t, w2)"
      using second by blast
    have set: "set order = set ?jobs" by (rule mset_eq_setD [OF order(1)])
    have "distinct (map job_dims order)"
      using jobs_of_distinct [OF assms(5), of ?c] order(1) by (metis mset_eq_imp_distinct_iff mset_map)
    then have "shows_only (jobs_between get_summary source order ?c1) w1 w2"
      using set by (intro jobs_show [OF w1 _ _ order(2)]) (auto intro: jobs_of_good)
    then show ?thesis
      by (rule shows_only_weaken) (use after set in \<open>simp add: jobs_between_def\<close>)
  qed
  moreover have "?P ?c2" by (rule after) (use each elsewhere in \<open>simp add: jobs_between_def\<close>)
  note dropped = on_the_way_dropped [OF this]
  have "shows_only ?P w2 w'"
    using third dropped(1) dropped(2) [of "cat_build (catalog_of (working w'))"] in_sync_whole [OF s'] final
    by (auto simp: shows_only_def)
  ultimately have "shows_only ?P w w'" by (blast intro: shows_only_trans)
  then show ?thesis using run by (auto simp: shows_only_def)
qed

theorem reconcile_readers_witness:
  "\<exists>t w'. full_reconcile sample_reader rev sample_source 4 (connect empty_db (\<lambda>_. 1)) = (Inr t, w') \<and>
    list_all (\<lambda>d. whole d \<and> (case file_at d sample_dims of None \<Rightarrow> True | Some f \<Rightarrow> ff_etag (f_facts f) = ''etag-1'')) (versions w')"
proof -
  let ?w = "connect empty_db (\<lambda>_. 1)" and ?key = "rebuild_hive_key sample_dims"
  have w: "working ?w = empty_db" "versions ?w = []" by (simp_all add: connect_def)
  have none: "file_at empty_db sample_dims = None" by (simp add: file_at_def ident_of_def lookup_ids_def empty_db_def)
  have verdict: "listing_verdict sample_reader sample_source (catalog_of empty_db) sample_listing sample_dims ?key =
      Accepted sample_dims ?key sample_stat sample_summary"
    using none sample_job_verdict by (simp add: listing_verdict_def unchanged_in_def) (simp add: sample_listing_def)
  have "case file_at d sample_dims of None \<Rightarrow> True | Some f \<Rightarrow> ff_etag (f_facts f) = ''etag-1''"
    if "on_the_way sample_reader sample_source [sample_listing] (catalog_of empty_db) (catalog_of d)" for d
  proof -
    have "same_at sample_dims ?key (catalog_of empty_db) (catalog_of d) \<or>
        verdict_effect (Accepted sample_dims ?key sample_stat sample_summary) sample_dims ?key (catalog_of empty_db) (catalog_of d)"
      using that sample_listing_resolves unfolding on_the_way_def verdict [symmetric] by simp
    then show ?thesis
      using none by (auto simp: same_at_def sample_stat_def dest: row_written_etag)
  qed
  moreover obtain t w' ds where "full_reconcile sample_reader rev sample_source 4 ?w = (Inr t, w')" "versions w' = versions ?w @ ds"
    "\<forall>d \<in> set ds. whole d \<and> on_the_way sample_reader sample_source [sample_listing] (catalog_of (working ?w)) (catalog_of d)"
    using reconcile_readers [OF fresh_in_sync sane_sample_clock sample_listed mset_rev sample_distinct_objects, of sample_reader 4]
    by blast
  ultimately show ?thesis by (simp add: w list_all_iff)
qed

end
