(* ===== verification/Catalog_Open.thy ===== *)
theory Catalog_Open
  imports Builder_Correct
begin

text \<open>
  Opening a database: what \<open>db.open_db\<close> accepts, what it refuses and what it changes. A refused database
  is left exactly as it was found, and opening an opened one changes nothing.
\<close>

text \<open>A database with user tables but without \<open>schema_version\<close>, and one stamped with another version.\<close>

definition foreign_db :: "db \<Rightarrow> bool" where
  "foreign_db d \<longleftrightarrow>
     list_ex (\<lambda>n. \<not> like_sqlite n) (db_tables d) \<and> ''schema_version'' \<notin> set (db_tables d)"

definition other_version :: "db \<Rightarrow> bool" where
  "other_version d \<longleftrightarrow>
     ''schema_version'' \<in> set (db_tables d) \<and> schema_version d \<noteq> None \<and> schema_version d \<noteq> Some SCHEMA_VERSION"

text \<open>The schema is created \<open>IF NOT EXISTS\<close> and the version stamped; rows are never touched.\<close>

definition opened :: "db \<Rightarrow> db" where
  "opened d =
     d\<lparr>db_tables := db_tables d @ filter (\<lambda>n. n \<notin> set (db_tables d)) schema_tables,
       schema_version := Some SCHEMA_VERSION\<rparr>"

lemma schema_version_not_like_sqlite: "\<not> like_sqlite ''schema_version''"
  by (simp add: like_sqlite_def lower_char_def)

lemma opened_opened [simp]: "opened (opened d) = opened d"
  by (auto simp: opened_def filter_empty_conv)

lemma guard_run:
  "guard_not_foreign_db d =
    (if foreign_db d then (Inl (version_error ''tables but no schema_version''), d) else (Inr (), d))"
proof -
  have "filter (\<lambda>n. \<not> like_sqlite n) (db_tables d) \<noteq> [] \<longleftrightarrow> list_ex (\<lambda>n. \<not> like_sqlite n) (db_tables d)"
    by (auto simp: filter_empty_conv list_ex_iff)
  then show ?thesis
    using schema_version_not_like_sqlite by (simp add: guard_not_foreign_db_def foreign_db_def Let_def)
qed

lemma validate_run:
  "validate_existing_version d =
    (if other_version d then (Inl (version_error ''mismatch, no schema was applied''), d) else (Inr (), d))"
  by (simp add: validate_existing_version_def other_version_def split: option.splits)

lemma open_db_run:
  assumes "schema_version d \<noteq> None \<Longrightarrow> ''schema_version'' \<in> set (db_tables d)"
  shows "open_db d =
      (if foreign_db d then (Inl (version_error ''tables but no schema_version''), d)
       else if other_version d then (Inl (version_error ''mismatch, no schema was applied''), d)
       else (Inr (), opened d))"
proof (cases "foreign_db d \<or> other_version d")
  case True
  then show ?thesis
    by (cases "foreign_db d") (simp_all add: open_db_def bind_op_def guard_run validate_run)
next
  case False
  then have "schema_version d = None \<or> schema_version d = Some SCHEMA_VERSION"
    using assms unfolding other_version_def by blast
  then have "bind_op apply_schema (\<lambda>_. stamp_schema_version) d = (Inr (), opened d)"
    by (auto simp: bind_op_def apply_schema_def stamp_schema_version_def opened_def)
  with False show ?thesis
    by (simp add: open_db_def bind_op_def [of guard_not_foreign_db] bind_op_def [of validate_existing_version]
        guard_run validate_run)
qed

lemma catalog_of_opened [simp]: "catalog_of (opened d) = catalog_of d"
proof -
  have "names (opened d) = names d" "files (opened d) = files d"
    by (simp_all add: opened_def names_def)
  note frame = file_at_same [OF this]
  have "tags_embedded (opened d) = tags_embedded d" "tags_override (opened d) = tags_override d"
    "catalog_failures (opened d) = catalog_failures d" "build_metadata (opened d) = build_metadata d"
    by (simp_all add: opened_def)
  moreover have tags: "tags_at t (opened d) = tags_at t d" for t :: "((rowid \<times> string) \<times> 'v) list"
    by (rule ext) (simp only: tags_at_def frame)
  ultimately show ?thesis by (simp add: catalog_of_def frame tags)
qed

lemma opened_open: "open_db (opened d) = (Inr (), opened d)"
proof -
  have "''schema_version'' \<in> set (db_tables (opened d))"
    by (simp add: opened_def schema_tables_def)
  moreover have "schema_version (opened d) = Some SCHEMA_VERSION" by (simp add: opened_def)
  ultimately show ?thesis
    using open_db_run [of "opened d"] by (simp add: foreign_db_def other_version_def)
qed



end
