(* ===== verification/Publish.thy ===== *)
theory Publish
  imports Reconcile Catalog_Open Catalog_Tags
begin

text \<open>
  \<open>publish.py\<close>: build a catalog in a temporary file and swap it in. The disk holds, per path, the main
  database file and its \<open>-wal\<close> and \<open>-shm\<close> sidecars; a write-ahead log belongs to the file generation that
  wrote it, and a reader that finds frames of another generation next to a file sees neither. Every
  change of the disk is kept in a history, so that the theorems can speak of every moment a reader
  may open the served path, not only of the end.
\<close>

section \<open>The disk\<close>

datatype file_content = Database db | Garbage

record dbfile =
  df_gen :: nat
  df_content :: file_content

record wal_file =
  wal_gen :: nat
  wal_frames :: nat
  wal_db :: db

record disk =
  dk_main :: "string \<rightharpoonup> dbfile"
  dk_wal :: "string \<rightharpoonup> wal_file"
  dk_shm :: "string set"
  dk_next_gen :: nat

text \<open>What a reader that opens a path finds.\<close>

datatype view = Absent | Unusable | Catalog db

definition view_at :: "disk \<Rightarrow> string \<Rightarrow> view" where
  "view_at d p =
     (case dk_main d p of
        None \<Rightarrow> Absent
      | Some f \<Rightarrow>
          (case df_content f of
             Garbage \<Rightarrow> Unusable
           | Database db \<Rightarrow>
               (case dk_wal d p of
                  None \<Rightarrow> Catalog db
                | Some l \<Rightarrow>
                    if wal_frames l = 0 then Catalog db
                    else if wal_gen l = df_gen f then Catalog (wal_db l)
                    else Unusable)))"

record world =
  now_disk :: disk
  history :: "disk list"

definition change :: "(disk \<Rightarrow> disk) \<Rightarrow> world \<Rightarrow> world" where
  "change f w = (let d = f (now_disk w) in w\<lparr>now_disk := d, history := history w @ [d]\<rparr>)"

text \<open>\<open>_remove_if_exists\<close> on the three files of a path, and \<open>_cleanup_temp\<close>.\<close>

definition remove_main :: "string \<Rightarrow> world \<Rightarrow> world" where
  "remove_main p = change (\<lambda>d. d\<lparr>dk_main := (dk_main d)(p := None)\<rparr>)"

definition remove_wal :: "string \<Rightarrow> world \<Rightarrow> world" where
  "remove_wal p = change (\<lambda>d. d\<lparr>dk_wal := (dk_wal d)(p := None)\<rparr>)"

definition remove_shm :: "string \<Rightarrow> world \<Rightarrow> world" where
  "remove_shm p = change (\<lambda>d. d\<lparr>dk_shm := dk_shm d - {p}\<rparr>)"

definition cleanup_temp :: "string \<Rightarrow> world \<Rightarrow> world" where
  "cleanup_temp p w = remove_shm p (remove_wal p (remove_main p w))"

text \<open>Creating a database file, committing to it through its log, and renaming it over another.\<close>

definition create_db :: "string \<Rightarrow> db \<Rightarrow> disk \<Rightarrow> disk" where
  "create_db p db d =
     d\<lparr>dk_main := (dk_main d)(p \<mapsto> \<lparr>df_gen = dk_next_gen d, df_content = Database empty_db\<rparr>),
       dk_wal := (dk_wal d)(p \<mapsto> \<lparr>wal_gen = dk_next_gen d, wal_frames = 1, wal_db = db\<rparr>),
       dk_shm := insert p (dk_shm d), dk_next_gen := Suc (dk_next_gen d)\<rparr>"

definition log_commit :: "string \<Rightarrow> db \<Rightarrow> disk \<Rightarrow> disk" where
  "log_commit p db d =
     d\<lparr>dk_wal := (dk_wal d)(p := map_option (\<lambda>l. l\<lparr>wal_frames := Suc (wal_frames l), wal_db := db\<rparr>) (dk_wal d p))\<rparr>"

definition os_replace :: "string \<Rightarrow> string \<Rightarrow> disk \<Rightarrow> disk" where
  "os_replace src dst d = d\<lparr>dk_main := (dk_main d)(dst := dk_main d src, src := None)\<rparr>"

text \<open>
  \<open>PRAGMA wal_checkpoint(TRUNCATE)\<close>: its answer is SQLite's, depending on who else has the file open. A
  complete one (not busy, all frames copied) leaves the file with everything and an empty log; a
  partial one copies frames that a reader sees either way.
\<close>

definition complete :: "int \<times> int \<times> int \<Rightarrow> bool" where
  "complete r \<longleftrightarrow> (case r of (busy, log_frames, checkpointed_frames) \<Rightarrow> busy = 0 \<and> log_frames = checkpointed_frames)"

definition truncate_wal :: "string \<Rightarrow> disk \<Rightarrow> disk" where
  "truncate_wal p d =
     (case (dk_main d p, dk_wal d p) of
        (Some f, Some l) \<Rightarrow>
          d\<lparr>dk_main := (dk_main d)(p \<mapsto> (if wal_frames l \<noteq> 0 \<and> wal_gen l = df_gen f \<and> df_content f \<noteq> Garbage
              then f\<lparr>df_content := Database (wal_db l)\<rparr> else f)),
            dk_wal := (dk_wal d)(p \<mapsto> l\<lparr>wal_frames := 0\<rparr>)\<rparr>
      | _ \<Rightarrow> d)"

text \<open>What SQLite and the clocks answer: the \<open>i\<close>-th checkpoint of the served file and the monotonic clock
  after it (milliseconds), the checkpoint of the temporary file, the wall clock of the build.\<close>

record publish_env =
  served_checkpoint :: "nat \<Rightarrow> exn + (int \<times> int \<times> int)"
  mono :: "nat \<Rightarrow> int"
  temp_checkpoint :: "exn + (int \<times> int \<times> int)"
  wall_clock :: "nat \<Rightarrow> int"

definition checkpoint_truncate :: "string \<Rightarrow> exn + (int \<times> int \<times> int) \<Rightarrow> world \<Rightarrow> (exn + (int \<times> int \<times> int)) \<times> world" where
  "checkpoint_truncate p answer w =
     (case answer of
        Inl e \<Rightarrow> (Inl e, w)
      | Inr r \<Rightarrow> (Inr r, if complete r then change (truncate_wal p) w else w))"

section \<open>What is carried over from the old catalog\<close>

definition read_old_build_id :: "view \<Rightarrow> int option" where
  "read_old_build_id v =
     (case v of
        Absent \<Rightarrow> None
      | Unusable \<Rightarrow> None
      | Catalog d \<Rightarrow>
          if ''build_metadata'' \<in> set (db_tables d) then map_option b_build_id (build_metadata d) else None)"

text \<open>The join that names the file of an override row; a database without one of its tables is an error.\<close>

type_synonym override_row = "dims \<times> string \<times> string option \<times> int"

definition joined_tables :: "string list" where
  "joined_tables = [''tags_override'', ''files'', ''customers'', ''sites'', ''robots'', ''sources'']"

definition old_override :: "db \<Rightarrow> (rowid \<times> string) \<times> (string option \<times> int) \<Rightarrow> override_row option" where
  "old_override d = (\<lambda>((file_id, key), (val, updated_at)).
     (case find (\<lambda>f. f_id f = file_id) (files d) of
        None \<Rightarrow> None
      | Some f \<Rightarrow>
          (case f_ident f of ((c, s, r, x), date, filename) \<Rightarrow> do {
             cn \<leftarrow> name_of (customers d) c;
             sn \<leftarrow> name_of (sites d) s;
             rn \<leftarrow> name_of (robots d) r;
             xn \<leftarrow> name_of (sources d) x;
             Some (\<lparr>dim_customer = cn, dim_site = snd sn, dim_robot = snd rn, dim_source = xn,
                    dim_date = date, dim_filename = filename\<rparr>, key, val, updated_at)
           })))"

definition old_override_rows :: "view \<Rightarrow> override_row list" where
  "old_override_rows v =
     (case v of
        Absent \<Rightarrow> []
      | Unusable \<Rightarrow> []
      | Catalog d \<Rightarrow>
          if set joined_tables \<subseteq> set (db_tables d) then List.map_filter (old_override d) (tags_override d) else [])"

definition insert_override :: "rowid \<Rightarrow> string \<Rightarrow> string option \<Rightarrow> int \<Rightarrow> db \<Rightarrow> exn + db" where
  "insert_override i key val updated_at d =
     (if (i, key) \<in> fst ` set (tags_override d)
      then Inl (unique_failed ''tags_override.file_id, tags_override.key'')
      else if i \<in> f_id ` set (files d)
      then Inr (d\<lparr>tags_override := tags_override d @ [((i, key), (val, updated_at))]\<rparr>)
      else Inl foreign_key_failed)"

definition carry_row :: "override_row \<Rightarrow> nat \<times> nat \<Rightarrow> (writer, nat \<times> nat) op" where
  "carry_row = (\<lambda>(dims, key, val, updated_at) (carried, dropped).
     bind_op (query (\<lambda>d. lookup_file_id d dims)) (\<lambda>file_id.
     case file_id of
       None \<Rightarrow> return_op (carried, dropped + 1)
     | Some i \<Rightarrow>
         bind_op (exec_check (insert_override i key val updated_at)) (\<lambda>_. return_op (carried + 1, dropped))))"

definition carry_forward_tags_override :: "view \<Rightarrow> (writer, nat \<times> nat) op" where
  "carry_forward_tags_override v =
     (if old_override_rows v = [] then return_op (0, 0)
      else with_conn (fold_op carry_row (old_override_rows v) (0, 0)))"

definition seed_build_id_floor :: "int \<Rightarrow> (writer, unit) op" where
  "seed_build_id_floor floor =
     bind_op (exec (\<lambda>d. d\<lparr>build_metadata := Some
       (case build_metadata d of
          None \<Rightarrow> \<lparr>b_build_id = floor, b_last_build_ns = 0, b_files_scanned = 0, b_files_failed = 0,
                   b_outcome = ''seeded'', b_version = []\<rparr>
        | Some b \<Rightarrow> b\<lparr>b_build_id := floor\<rparr>)\<rparr>)) (\<lambda>_. commit_op)"

definition unstamped_build :: exn where
  "unstamped_build = Exn ''UnstampedBuildError'' ''build_fn returned without stamping build_metadata''"

definition ensure_build_stamped :: "(writer, unit) op" where
  "ensure_build_stamped =
     bind_op (query build_metadata) (\<lambda>row.
     case row of
       None \<Rightarrow> raise_op unstamped_build
     | Some b \<Rightarrow> if b_last_build_ns b = 0 then raise_op unstamped_build else return_op ())"

text \<open>The statements of \<open>build_and_publish\<close> on the temporary database. It reads the served one twice, which
  the writer lock keeps unchanged meanwhile.\<close>

definition temp_build :: "view \<Rightarrow> (writer, 'a) op \<Rightarrow> (writer, 'a) op" where
  "temp_build old build_fn =
     bind_op (case read_old_build_id old of None \<Rightarrow> return_op () | Some floor \<Rightarrow> seed_build_id_floor floor) (\<lambda>_.
     bind_op build_fn (\<lambda>result.
     bind_op ensure_build_stamped (\<lambda>_.
     bind_op (carry_forward_tags_override old) (\<lambda>_.
     return_op result))))"

section \<open>The gate\<close>

definition GATE_TOTAL :: int where "GATE_TOTAL = 5000"
definition GATE_POLL :: int where "GATE_POLL = 100"

datatype gate = Gated | Busy | Broken exn

definition publish_busy :: exn where
  "publish_busy = Exn ''PublishBusyError'' ''checkpoint-gate did not complete''"

text \<open>The loop may run for as long as the clock stands still, so it is partial; \<open>i\<close> counts the attempts.\<close>

partial_function (option) gate_loop ::
  "publish_env \<Rightarrow> string \<Rightarrow> int \<Rightarrow> nat \<Rightarrow> world \<Rightarrow> (gate \<times> nat \<times> world) option"
where
  "gate_loop env served deadline i w =
     (case checkpoint_truncate served (served_checkpoint env i) w of
        (Inl e, w) \<Rightarrow> Some (Broken e, Suc i, w)
      | (Inr r, w) \<Rightarrow>
          if complete r then Some (Gated, Suc i, w)
          else if mono env (Suc i) \<ge> deadline then Some (Busy, Suc i, w)
          else gate_loop env served deadline (Suc i) w)"

definition gate_old_served_db :: "publish_env \<Rightarrow> string \<Rightarrow> world \<Rightarrow> (gate \<times> nat \<times> world) option" where
  "gate_old_served_db env served w = gate_loop env served (mono env 0 + GATE_TOTAL) 0 w"

section \<open>The publication\<close>

definition TEMP_SUFFIX :: string where
  "TEMP_SUFFIX = ''.building''"

definition temp_checkpoint_error :: exn where
  "temp_checkpoint_error = Exn ''TempCheckpointError'' ''temp build could not be checkpointed to zero WAL frames''"

text \<open>From a clean temporary file on: gate or clear the served path, and swap.\<close>

definition swap_in :: "string \<Rightarrow> string \<Rightarrow> world \<Rightarrow> world" where
  "swap_in temp served w = remove_shm served (remove_wal served (change (os_replace temp served) w))"

definition publish_temp :: "publish_env \<Rightarrow> string \<Rightarrow> string \<Rightarrow> 'a \<Rightarrow> world \<Rightarrow> ((exn + 'a) \<times> world) option" where
  "publish_temp env temp served result w =
     (let w = remove_shm temp (remove_wal temp w) in
      if dk_main (now_disk w) served \<noteq> None
      then
        (case gate_old_served_db env served w of
           None \<Rightarrow> None
         | Some (Busy, _, w) \<Rightarrow> Some (Inl publish_busy, cleanup_temp temp w)
         | Some (Broken e, _, w) \<Rightarrow> Some (Inr result, swap_in temp served (remove_shm served (remove_wal served w)))
         | Some (Gated, _, w) \<Rightarrow> Some (Inr result, swap_in temp served w))
      else Some (Inr result, swap_in temp served (remove_shm served (remove_wal served w))))"

definition build_and_publish ::
  "publish_env \<Rightarrow> string \<Rightarrow> (writer, 'a) op \<Rightarrow> world \<Rightarrow> ((exn + 'a) \<times> world) option"
where
  "build_and_publish env served build_fn w =
     (let temp = served @ TEMP_SUFFIX; w = cleanup_temp temp w in
      case open_db empty_db of
        (Inl e, _) \<Rightarrow> Some (Inl e, w)
      | (Inr _, db) \<Rightarrow>
          let w = change (create_db temp db) w;
              (r, c) = temp_build (view_at (now_disk w) served) build_fn (connect db (wall_clock env));
              w = change (log_commit temp (committed c)) w in
          (case r of
             Inl e \<Rightarrow> Some (Inl e, cleanup_temp temp w)
           | Inr result \<Rightarrow>
               (case checkpoint_truncate temp (temp_checkpoint env) w of
                  (Inl e, w) \<Rightarrow> Some (Inl e, cleanup_temp temp w)
                | (Inr answer, w) \<Rightarrow>
                    if \<not> complete answer then Some (Inl temp_checkpoint_error, cleanup_temp temp w)
                    else publish_temp env temp served result w)))"

section \<open>The disk as a reader sees it\<close>

text \<open>No reader of \<open>p\<close> meets a log of another generation.\<close>

definition untorn :: "disk \<Rightarrow> string \<Rightarrow> bool" where
  "untorn d p \<longleftrightarrow>
     (case (dk_main d p, dk_wal d p) of
        (Some f, Some l) \<Rightarrow> wal_frames l = 0 \<or> wal_gen l = df_gen f
      | _ \<Rightarrow> True)"

text \<open>From one world to the next, readers of \<open>p\<close> saw the same thing throughout.\<close>

definition steady :: "string \<Rightarrow> world \<Rightarrow> world \<Rightarrow> bool" where
  "steady p w w' \<longleftrightarrow>
     (\<exists>ds. history w' = history w @ ds \<and> (\<forall>d \<in> set ds. view_at d p = view_at (now_disk w) p)) \<and>
     view_at (now_disk w') p = view_at (now_disk w) p"

definition same_file :: "string \<Rightarrow> disk \<Rightarrow> disk \<Rightarrow> bool" where
  "same_file p d d' \<longleftrightarrow> dk_main d' p = dk_main d p \<and> dk_wal d' p = dk_wal d p"

lemma same_file_view: "same_file p d d' \<Longrightarrow> view_at d' p = view_at d p"
  by (simp only: same_file_def view_at_def)

lemma same_file_untorn: "same_file p d d' \<Longrightarrow> untorn d' p = untorn d p"
  by (simp only: same_file_def untorn_def)

lemma same_file_refl [simp]: "same_file p d d"
  by (simp add: same_file_def)

lemma same_file_trans: "same_file p d d' \<Longrightarrow> same_file p d' d'' \<Longrightarrow> same_file p d d''"
  by (simp add: same_file_def)

lemma steady_refl [simp]: "steady p w w"
  by (simp add: steady_def)

lemma steady_trans: "steady p w w' \<Longrightarrow> steady p w' w'' \<Longrightarrow> steady p w w''"
  unfolding steady_def by (elim conjE exE) (auto intro!: exI [of _ "_ @ _"])

lemma steady_change: "view_at (f (now_disk w)) p = view_at (now_disk w) p \<Longrightarrow> steady p w (change f w)"
  by (simp add: steady_def change_def Let_def)

named_theorems other_path \<open>steps that leave another path alone\<close>

lemma other_path_basic [other_path]:
  assumes "q \<noteq> p"
  shows "steady p w (remove_main q w)" "steady p w (remove_wal q w)" "steady p w (remove_shm q w)"
    "steady p w (change (create_db q db) w)" "steady p w (change (log_commit q db) w)"
    "same_file p (now_disk w) (now_disk (remove_main q w))" "same_file p (now_disk w) (now_disk (remove_wal q w))"
    "same_file p (now_disk w) (now_disk (remove_shm q w))"
    "same_file p (now_disk w) (now_disk (change (create_db q db) w))"
    "same_file p (now_disk w) (now_disk (change (log_commit q db) w))"
  using assms
  by (auto simp: remove_main_def remove_wal_def remove_shm_def change_def Let_def create_db_def log_commit_def same_file_def
      steady_def intro!: same_file_view)

lemma other_path_cleanup [other_path]:
  assumes "q \<noteq> p"
  shows "steady p w (cleanup_temp q w)" "same_file p (now_disk w) (now_disk (cleanup_temp q w))"
  unfolding cleanup_temp_def using other_path_basic [OF assms] steady_trans same_file_trans by metis+

lemma other_path_checkpoint [other_path]:
  assumes "q \<noteq> p" and "checkpoint_truncate q a w = (r, w')"
  shows "steady p w w'" "same_file p (now_disk w) (now_disk w')"
proof -
  have "same_file p d (truncate_wal q d)" for d
    using assms(1) by (simp add: same_file_def truncate_wal_def split: option.splits)
  then show "steady p w w'" "same_file p (now_disk w) (now_disk w')"
    using assms(2) same_file_view
    by (auto simp: checkpoint_truncate_def change_def Let_def steady_def split: sum.splits if_splits)
qed

section \<open>The gate does not change what readers see\<close>

lemma truncate_view: "untorn d p \<Longrightarrow> view_at (truncate_wal p d) p = view_at d p"
  by (auto simp: view_at_def truncate_wal_def untorn_def split: option.splits file_content.splits)

lemma truncate_untorn: "untorn (truncate_wal p d) p"
  by (auto simp: truncate_wal_def untorn_def split: option.splits)

text \<open>After a complete checkpoint the log is empty.\<close>

definition emptied :: "disk \<Rightarrow> string \<Rightarrow> bool" where
  "emptied d p \<longleftrightarrow> (case dk_wal d p of None \<Rightarrow> True | Some l \<Rightarrow> wal_frames l = 0)"

lemma truncate_emptied: "dk_main d p \<noteq> None \<Longrightarrow> emptied (truncate_wal p d) p"
  by (auto simp: truncate_wal_def emptied_def split: option.splits)

lemma truncate_main: "dk_main (truncate_wal p d) q = None \<longleftrightarrow> dk_main d q = None"
  by (auto simp: truncate_wal_def split: option.splits)

lemma truncate_frame: "q \<noteq> p \<Longrightarrow> same_file q d (truncate_wal p d)" "dk_shm (truncate_wal p d) = dk_shm d"
  by (simp_all add: same_file_def truncate_wal_def split: option.splits)

lemma checkpoint_served:
  assumes "checkpoint_truncate p a w = (r, w')" and "untorn (now_disk w) p"
  shows "steady p w w'" and "untorn (now_disk w') p"
    and "dk_main (now_disk w') q = None \<longleftrightarrow> dk_main (now_disk w) q = None"
    and "\<And>x. r = Inr x \<Longrightarrow> complete x \<Longrightarrow> dk_main (now_disk w) p \<noteq> None \<Longrightarrow> emptied (now_disk w') p"
    and "\<And>e. r = Inl e \<Longrightarrow> w' = w \<and> a = Inl e"
    and "\<And>q. q \<noteq> p \<Longrightarrow> same_file q (now_disk w) (now_disk w')" and "dk_shm (now_disk w') = dk_shm (now_disk w)"
  using assms truncate_frame truncate_view [OF assms(2)] truncate_untorn truncate_main truncate_emptied
  by (auto simp: checkpoint_truncate_def change_def Let_def steady_def split: sum.splits if_splits)

definition gate_ok :: "publish_env \<Rightarrow> string \<Rightarrow> world \<Rightarrow> gate \<times> nat \<times> world \<Rightarrow> bool" where
  "gate_ok env p w = (\<lambda>(g, n, w').
     steady p w w' \<and> untorn (now_disk w') p \<and> (g = Gated \<longrightarrow> emptied (now_disk w') p) \<and>
     (\<forall>e. g = Broken e \<longrightarrow> (\<exists>j. served_checkpoint env j = Inl e)) \<and>
     (\<forall>q. q \<noteq> p \<longrightarrow> same_file q (now_disk w) (now_disk w')) \<and> dk_shm (now_disk w') = dk_shm (now_disk w))"

lemma gate_ok_later:
  assumes "steady p w w1" and "\<forall>q. q \<noteq> p \<longrightarrow> same_file q (now_disk w) (now_disk w1)"
    and "dk_shm (now_disk w1) = dk_shm (now_disk w)" and "gate_ok env p w1 r"
  shows "gate_ok env p w r"
  using assms steady_trans [OF assms(1)] same_file_trans by (cases r) (auto simp: gate_ok_def)

lemma gate_loop_ok:
  assumes "gate_loop env p deadline i w = Some r" and "untorn (now_disk w) p" and "dk_main (now_disk w) p \<noteq> None"
  shows "gate_ok env p w r"
proof -
  have "untorn (now_disk w) p \<longrightarrow> dk_main (now_disk w) p \<noteq> None \<longrightarrow> gate_ok env p w r"
    using assms(1)
  proof (induction rule: gate_loop.raw_induct [rotated 1, consumes 1, case_names step])
    case (step gate_loop env p deadline i w r)
    show ?case
    proof (intro impI)
      assume u: "untorn (now_disk w) p" "dk_main (now_disk w) p \<noteq> None"
      obtain a w1 where c: "checkpoint_truncate p (served_checkpoint env i) w = (a, w1)" by fastforce
      note served = checkpoint_served [OF c u(1)]
      show "gate_ok env p w r"
      proof (cases a)
        case (Inl e)
        then have r: "r = (Broken e, Suc i, w1)" using step(2) c by simp
        have "w1 = w \<and> served_checkpoint env i = Inl e" by (rule served(5) [OF Inl])
        then show ?thesis unfolding r gate_ok_def using u(1) by auto
      next
        case (Inr x)
        have "(if complete x then Some (Gated, Suc i, w1)
            else if deadline \<le> publish_env.mono env (Suc i) then Some (Busy, Suc i, w1)
            else gate_loop env p deadline (Suc i) w1) = Some r"
          using step(2) unfolding c Inr by (simp only: prod.case sum.case)
        then consider (gated) "complete x" "(Gated, Suc i, w1) = r" | (busy) "(Busy, Suc i, w1) = r"
          | (again) "gate_loop env p deadline (Suc i) w1 = Some r"
          by (metis option.inject)
        then show ?thesis
        proof cases
          case again
          have "gate_ok env p w1 r"
            using step(1) [OF again, rule_format] served(2) served(3) [of p] u(2) by simp
          then show ?thesis using served(6,7) by (intro gate_ok_later [OF served(1)]) blast+
        next
          case gated
          then show ?thesis using served(1,2,6,7) served(4) [OF Inr] u(2) by (auto simp: gate_ok_def)
        next
          case busy
          then show ?thesis using served(1,2,6,7) by (auto simp: gate_ok_def)
        qed
      qed
    qed
  qed
  with assms(2,3) show ?thesis by blast
qed

section \<open>Every moment of a publication\<close>

definition clean_temp :: "disk \<Rightarrow> string \<Rightarrow> bool" where
  "clean_temp d p \<longleftrightarrow> dk_main d p = None \<and> dk_wal d p = None \<and> p \<notin> dk_shm d"

text \<open>The path showed the old catalog, and from some moment on the new one.\<close>

definition switches :: "string \<Rightarrow> db \<Rightarrow> world \<Rightarrow> world \<Rightarrow> bool" where
  "switches p new w w' \<longleftrightarrow>
     (\<exists>before after. history w' = history w @ before @ after \<and> after \<noteq> [] \<and> last after = now_disk w' \<and>
       (\<forall>d \<in> set before. view_at d p = view_at (now_disk w) p) \<and>
       (\<forall>d \<in> set after. view_at d p = Catalog new))"

lemma switches_later: "steady p w w1 \<Longrightarrow> switches p new w1 w' \<Longrightarrow> switches p new w w'"
  unfolding switches_def steady_def
  by (elim conjE exE) (rule exI [of _ "_ @ _"], auto)

lemma cleanup_temp_clean: "clean_temp (now_disk (cleanup_temp p w)) p"
  by (simp add: clean_temp_def cleanup_temp_def remove_main_def remove_wal_def remove_shm_def change_def Let_def)

lemma os_replace_view:
  assumes "dk_main d temp = Some f" and "df_content f = Database new" and "emptied d served" and "temp \<noteq> served"
  shows "view_at (os_replace temp served d) served = Catalog new"
  using assms by (auto simp: view_at_def os_replace_def emptied_def split: option.splits)

lemma swap_in_switches:
  assumes "dk_main (now_disk w) temp = Some f" and "df_content f = Database new"
    and "emptied (now_disk w) served" and "temp \<noteq> served" and "dk_wal (now_disk w) temp = None" "temp \<notin> dk_shm (now_disk w)"
  shows "switches served new w (swap_in temp served w)" and "clean_temp (now_disk (swap_in temp served w)) temp"
proof -
  let ?d = "now_disk w"
  let ?d1 = "os_replace temp served ?d"
  let ?d2 = "?d1\<lparr>dk_wal := (dk_wal ?d1)(served := None)\<rparr>"
  let ?d3 = "?d2\<lparr>dk_shm := dk_shm ?d2 - {served}\<rparr>"
  have hist: "swap_in temp served w = w\<lparr>now_disk := ?d3, history := history w @ [?d1, ?d2, ?d3]\<rparr>"
    by (simp add: swap_in_def remove_shm_def remove_wal_def change_def Let_def)
  have view: "view_at ?d1 served = Catalog new" by (rule os_replace_view [OF assms(1-4)])
  have "view_at ?d2 served = Catalog new" "view_at ?d3 served = Catalog new"
    using assms(1,2,4) by (simp_all add: view_at_def os_replace_def)
  with view show "switches served new w (swap_in temp served w)"
    unfolding switches_def hist by (intro exI [of _ "[]"] exI [of _ "[?d1, ?d2, ?d3]"]) simp
  show "clean_temp (now_disk (swap_in temp served w)) temp"
    using assms(4-6) by (simp add: hist clean_temp_def os_replace_def)
qed

text \<open>Clearing the sidecars of a path without a usable database shows to nobody.\<close>

lemma view_untorn:
  "untorn d p \<Longrightarrow> dk_main d p = Some f \<Longrightarrow> df_content f = Database x \<Longrightarrow> \<exists>y. view_at d p = Catalog y"
  by (auto simp: view_at_def untorn_def split: option.splits)

lemma clear_sidecars:
  assumes "\<And>x. view_at (now_disk w) p \<noteq> Catalog x" and "untorn (now_disk w) p"
  shows "steady p w (remove_shm p (remove_wal p w))" and "emptied (now_disk (remove_shm p (remove_wal p w))) p"
    and "dk_main (now_disk (remove_shm p (remove_wal p w))) = dk_main (now_disk w)"
    and "q \<noteq> p \<Longrightarrow> dk_wal (now_disk (remove_shm p (remove_wal p w))) q = dk_wal (now_disk w) q"
    and "q \<noteq> p \<Longrightarrow> q \<in> dk_shm (now_disk (remove_shm p (remove_wal p w))) \<longleftrightarrow> q \<in> dk_shm (now_disk w)"
proof -
  let ?d = "now_disk w"
  have "dk_main ?d p = None \<or> (\<exists>f. dk_main ?d p = Some f \<and> df_content f = Garbage)"
    using assms view_untorn by (metis file_content.exhaust option.exhaust)
  then have "view_at (?d\<lparr>dk_wal := l, dk_shm := sh\<rparr>) p = view_at ?d p" "view_at (?d\<lparr>dk_wal := l\<rparr>) p = view_at ?d p" for l sh
    by (auto simp: view_at_def)
  then show "steady p w (remove_shm p (remove_wal p w))"
    by (auto simp: steady_def remove_shm_def remove_wal_def change_def Let_def)
qed (auto simp: emptied_def remove_shm_def remove_wal_def change_def Let_def)

text \<open>A temporary file that is ready: the build is in the file itself and there are no sidecars.\<close>

definition temp_ready :: "string \<Rightarrow> db \<Rightarrow> world \<Rightarrow> bool" where
  "temp_ready temp new w \<longleftrightarrow>
     (\<exists>f. dk_main (now_disk w) temp = Some f \<and> df_content f = Database new) \<and>
     dk_wal (now_disk w) temp = None \<and> temp \<notin> dk_shm (now_disk w)"

text \<open>What a publication promises, from some world on.\<close>

definition published :: "string \<Rightarrow> string \<Rightarrow> db \<Rightarrow> world \<Rightarrow> (exn + 'a) \<times> world \<Rightarrow> bool" where
  "published temp served new w = (\<lambda>(r, w').
     clean_temp (now_disk w') temp \<and> (case r of Inl _ \<Rightarrow> steady served w w' | Inr _ \<Rightarrow> switches served new w w'))"

lemma published_later: "steady served w w1 \<Longrightarrow> published temp served new w1 x \<Longrightarrow> published temp served new w x"
  by (cases x) (auto simp: published_def split: sum.splits intro: steady_trans switches_later)

lemma published_abort:
  "temp \<noteq> served \<Longrightarrow> published temp served new w (Inl e, cleanup_temp temp w)"
  by (simp add: published_def cleanup_temp_clean other_path)

lemma published_swap:
  "temp_ready temp new w \<Longrightarrow> emptied (now_disk w) served \<Longrightarrow> temp \<noteq> served \<Longrightarrow>
    published temp served new w (Inr x, swap_in temp served w)"
  unfolding temp_ready_def published_def using swap_in_switches by (simp add: split_beta) blast

text \<open>Swapping in over a path whose sidecars had to be cleared first.\<close>

lemma published_clear_swap:
  assumes "temp_ready temp new w" and "\<And>x. view_at (now_disk w) served \<noteq> Catalog x"
    and "untorn (now_disk w) served" and "temp \<noteq> served"
  shows "published temp served new w (Inr x, swap_in temp served (remove_shm served (remove_wal served w)))"
proof (rule published_later)
  note clear = clear_sidecars [OF assms(2,3)]
  show "steady served w (remove_shm served (remove_wal served w))" by (rule clear(1))
  have "temp_ready temp new (remove_shm served (remove_wal served w))"
    using assms(1,4) clear(3) clear(4,5) [of temp] by (simp add: temp_ready_def)
  then show "published temp served new (remove_shm served (remove_wal served w))
      (Inr x, swap_in temp served (remove_shm served (remove_wal served w)))"
    by (rule published_swap [OF _ clear(2) assms(4)])
qed

text \<open>SQLite raises on a checkpoint of the served file only if that is not a usable database.\<close>

definition raises_if_unusable :: "publish_env \<Rightarrow> view \<Rightarrow> bool" where
  "raises_if_unusable env v \<longleftrightarrow> (\<forall>i e. served_checkpoint env i = Inl e \<longrightarrow> v = Unusable)"

lemma publish_temp_published:
  assumes run: "publish_temp env temp served result w = Some x" and u: "untorn (now_disk w) served"
    and f: "dk_main (now_disk w) temp = Some f" "df_content f = Database new" and ne: "temp \<noteq> served"
    and raises: "raises_if_unusable env (view_at (now_disk w) served)"
  shows "published temp served new w x"
proof -
  let ?w = "remove_shm temp (remove_wal temp w)"
  have ready: "temp_ready temp new ?w"
    using f by (simp add: temp_ready_def remove_shm_def remove_wal_def change_def Let_def)
  have st: "steady served w ?w" and same: "same_file served (now_disk w) (now_disk ?w)"
    using other_path_basic(2,3,7,8) [OF ne] steady_trans same_file_trans by blast+
  have u': "untorn (now_disk ?w) served" and v: "view_at (now_disk ?w) served = view_at (now_disk w) served"
    using same_file_untorn [OF same] same_file_view [OF same] u by simp_all
  have "published temp served new ?w x"
  proof (cases "dk_main (now_disk ?w) served")
    case None
    then have x: "x = (Inr result, swap_in temp served (remove_shm served (remove_wal served ?w)))"
      using run by (simp add: publish_temp_def Let_def)
    have "view_at (now_disk ?w) served \<noteq> Catalog y" for y using None by (simp add: view_at_def)
    then show ?thesis unfolding x by (rule published_clear_swap [OF ready _ u' ne])
  next
    case (Some g)
    obtain r n w1 where gate: "gate_loop env served (mono env 0 + GATE_TOTAL) 0 ?w = Some (r, n, w1)"
      using run Some by (auto simp: publish_temp_def Let_def gate_old_served_db_def split: option.splits)
    have ok: "gate_ok env served ?w (r, n, w1)"
      by (rule gate_loop_ok [OF gate u']) (simp add: Some)
    have st1: "steady served ?w w1" and u1: "untorn (now_disk w1) served" using ok by (simp_all add: gate_ok_def)
    have ready1: "temp_ready temp new w1"
      using ok ready ne by (simp add: gate_ok_def temp_ready_def same_file_def)
    have "published temp served new w1 x"
    proof (cases r)
      case Gated
      then have "x = (Inr result, swap_in temp served w1)"
        using run Some gate by (simp add: publish_temp_def Let_def gate_old_served_db_def)
      moreover have "emptied (now_disk w1) served" using ok Gated by (simp add: gate_ok_def)
      ultimately show ?thesis using published_swap [OF ready1 _ ne] by simp
    next
      case Busy
      then have "x = (Inl publish_busy, cleanup_temp temp w1)"
        using run Some gate by (simp add: publish_temp_def Let_def gate_old_served_db_def)
      then show ?thesis using published_abort [OF ne] by simp
    next
      case (Broken e)
      then have x: "x = (Inr result, swap_in temp served (remove_shm served (remove_wal served w1)))"
        using run Some gate by (simp add: publish_temp_def Let_def gate_old_served_db_def)
      have "view_at (now_disk w) served = Unusable"
        using ok Broken raises by (auto simp: gate_ok_def raises_if_unusable_def)
      then have "view_at (now_disk w1) served = Unusable" using st1 v by (simp add: steady_def)
      then show ?thesis unfolding x by (intro published_clear_swap [OF ready1 _ u1 ne]) simp
    qed
    then show ?thesis by (rule published_later [OF st1])
  qed
  then show ?thesis by (rule published_later [OF st])
qed

lemma build_and_publish_published:
  assumes run: "build_and_publish env served build_fn w = Some (r, w')" and u: "untorn (now_disk w) served"
    and raises: "raises_if_unusable env (view_at (now_disk w) served)"
  obtains x c where "temp_build (view_at (now_disk w) served) build_fn (connect (opened empty_db) (wall_clock env)) = (x, c)"
    and "published (served @ TEMP_SUFFIX) served (committed c) w (r, w')" and "\<And>y. r = Inr y \<Longrightarrow> x = Inr y"
proof -
  let ?temp = "served @ TEMP_SUFFIX"
  have ne: "?temp \<noteq> served" by (simp add: TEMP_SUFFIX_def)
  let ?w1 = "cleanup_temp ?temp w"
  let ?w2 = "change (create_db ?temp (opened empty_db)) ?w1"
  have opens: "open_db empty_db = (Inr (), opened empty_db)"
    using open_db_run [of empty_db] by (simp add: foreign_db_def other_version_def empty_db_def)
  obtain x c where build: "temp_build (view_at (now_disk ?w2) served) build_fn (connect (opened empty_db) (wall_clock env)) = (x, c)"
    by fastforce
  let ?w3 = "change (log_commit ?temp (committed c)) ?w2"
  note s1 = other_path_cleanup [OF ne, of w]
  note s2 = other_path_basic(4,9) [OF ne, where w = ?w1 and db = "opened empty_db"]
  note s3 = other_path_basic(5,10) [OF ne, where w = ?w2 and db = "committed c"]
  have st: "steady served w ?w3" by (rule steady_trans [OF steady_trans [OF s1(1) s2(1)] s3(1)])
  have same2: "same_file served (now_disk w) (now_disk ?w2)" by (rule same_file_trans [OF s1(2) s2(2)])
  have same: "same_file served (now_disk w) (now_disk ?w3)" by (rule same_file_trans [OF same2 s3(2)])
  have main: "dk_main (now_disk ?w3) ?temp = Some \<lparr>df_gen = dk_next_gen (now_disk ?w1), df_content = Database empty_db\<rparr>"
    and log: "dk_wal (now_disk ?w3) ?temp =
      Some \<lparr>wal_gen = dk_next_gen (now_disk ?w1), wal_frames = 2, wal_db = committed c\<rparr>"
    by (simp_all add: change_def Let_def create_db_def log_commit_def numeral_2_eq_2)
  have "published ?temp served (committed c) ?w3 (r, w') \<and> (\<forall>y. r = Inr y \<longrightarrow> x = Inr y)"
  proof (cases x)
    case (Inl e)
    then have "(r, w') = (Inl e, cleanup_temp ?temp ?w3)"
      using run by (simp add: build_and_publish_def Let_def opens build)
    then show ?thesis using published_abort [OF ne] by simp
  next
    case (Inr result)
    obtain a w4 where check: "checkpoint_truncate ?temp (temp_checkpoint env) ?w3 = (a, w4)" by fastforce
    have run4: "Some (r, w') = (case a of Inl e \<Rightarrow> Some (Inl e, cleanup_temp ?temp w4)
        | Inr answer \<Rightarrow> if \<not> complete answer then Some (Inl temp_checkpoint_error, cleanup_temp ?temp w4)
            else publish_temp env ?temp served result w4)"
      using run by (simp add: build_and_publish_def Let_def opens build Inr check split: sum.splits)
    note other = other_path_checkpoint [OF ne check]
    have "published ?temp served (committed c) w4 (r, w') \<and> (\<forall>y. r = Inr y \<longrightarrow> x = Inr y)"
    proof (cases "\<exists>answer. a = Inr answer \<and> complete answer")
      case False
      then have "\<exists>e. (r, w') = (Inl e, cleanup_temp ?temp w4)" using run4 by (cases a) (auto split: if_splits)
      then show ?thesis using published_abort [OF ne] by auto
    next
      case True
      then have pt: "publish_temp env ?temp served result w4 = Some (r, w')" using run4 by auto
      have "now_disk w4 = truncate_wal ?temp (now_disk ?w3)"
        using check True by (auto simp: checkpoint_truncate_def change_def Let_def split: sum.splits)
      then have f: "dk_main (now_disk w4) ?temp = Some \<lparr>df_gen = dk_next_gen (now_disk ?w1), df_content = Database (committed c)\<rparr>"
        by (simp add: truncate_wal_def main log)
      have "published ?temp served (committed c) w4 (r, w')"
      proof (rule publish_temp_published [OF pt _ f _ ne])
        have "same_file served (now_disk w) (now_disk w4)" using same other(2) same_file_trans by blast
        then show "untorn (now_disk w4) served" "raises_if_unusable env (view_at (now_disk w4) served)"
          using u raises same_file_untorn same_file_view by simp_all
      qed simp
      moreover have "\<forall>y. r = Inr y \<longrightarrow> result = y"
        using pt by (auto simp: publish_temp_def Let_def split: if_splits option.splits gate.splits prod.splits)
      ultimately show ?thesis using Inr by simp
    qed
    then show ?thesis using published_later [OF other(1)] by blast
  qed
  moreover from this have "published ?temp served (committed c) w (r, w')" using published_later [OF st] by blast
  ultimately show ?thesis
    using that [of x c] build same_file_view [OF same2] by metis
qed


text \<open>A served catalog of build 7, partly in its log, that a reader holds busy once.\<close>

definition sample_env :: publish_env where
  "sample_env = \<lparr>served_checkpoint = (\<lambda>i. if i = 0 then Inr (1, 3, 2) else Inr (0, 3, 3)),
     mono = (\<lambda>j. 100 * int j), temp_checkpoint = Inr (0, 2, 2), wall_clock = (\<lambda>_. 1)\<rparr>"

definition served_sample :: db where
  "served_sample = (opened empty_db)\<lparr>build_metadata := Some
     \<lparr>b_build_id = 7, b_last_build_ns = 1, b_files_scanned = 0, b_files_failed = 0, b_outcome = ''ok'', b_version = []\<rparr>\<rparr>"

definition sample_world :: world where
  "sample_world =
     \<lparr>now_disk = \<lparr>dk_main = [''c'' \<mapsto> \<lparr>df_gen = 4, df_content = Database empty_db\<rparr>],
        dk_wal = [''c'' \<mapsto> \<lparr>wal_gen = 4, wal_frames = 3, wal_db = served_sample\<rparr>], dk_shm = {''c''}, dk_next_gen = 5\<rparr>,
      history = []\<rparr>"

lemma sample_view: "view_at (now_disk sample_world) ''c'' = Catalog served_sample"
  by (simp add: view_at_def sample_world_def)

lemma sample_untorn: "untorn (now_disk sample_world) ''c''"
  by (simp add: untorn_def sample_world_def)

lemma sample_raises: "raises_if_unusable sample_env v"
  by (simp add: raises_if_unusable_def sample_env_def)

lemma sample_temp_build:
  "\<exists>c. temp_build (Catalog served_sample) (record_build 0 0 ''ok'') (connect (opened empty_db) (\<lambda>_. 1)) = (Inr (), c) \<and>
    map_option b_build_id (build_metadata (committed c)) = Some 8"
proof -
  have "set joined_tables \<subseteq> set (db_tables served_sample)" "''build_metadata'' \<in> set (db_tables served_sample)"
    by (simp_all add: joined_tables_def served_sample_def opened_def schema_tables_def empty_db_def)
  then have "old_override_rows (Catalog served_sample) = []" "read_old_build_id (Catalog served_sample) = Some 7"
    by (simp_all add: old_override_rows_def served_sample_def opened_def empty_db_def List.map_filter_simps read_old_build_id_def)
  then show ?thesis
    by (simp add: temp_build_def seed_build_id_floor_def exec_def commit_op_def commit_def record_build_def
        now_ns_def connect_def ensure_build_stamped_def query_def carry_forward_tags_override_def bind_op_def
        opened_def empty_db_def)
qed

lemma sample_gate:
  "dk_main (now_disk w) ''c'' \<noteq> None \<Longrightarrow> \<exists>n w'. gate_old_served_db sample_env ''c'' w = Some (Gated, n, w')"
  unfolding gate_old_served_db_def
  by (subst gate_loop.simps, subst gate_loop.simps)
    (simp add: checkpoint_truncate_def sample_env_def complete_def GATE_TOTAL_def)

lemma sample_publishes:
  "\<exists>w'. build_and_publish sample_env ''c'' (record_build 0 0 ''ok'') sample_world = Some (Inr (), w')"
proof -
  have opens: "open_db empty_db = (Inr (), opened empty_db)"
    using open_db_run [of empty_db] by (simp add: foreign_db_def other_version_def empty_db_def)
  have pt: "\<exists>w'. publish_temp sample_env temp ''c'' () w = Some (Inr (), w')" for temp w
    using sample_gate [of "remove_shm temp (remove_wal temp w)"] by (auto simp: publish_temp_def Let_def)
  have "view_at (now_disk (change (create_db (''c'' @ TEMP_SUFFIX) db) (cleanup_temp (''c'' @ TEMP_SUFFIX) sample_world))) ''c'' =
      Catalog served_sample" for db
    by (simp add: TEMP_SUFFIX_def cleanup_temp_def remove_main_def remove_wal_def remove_shm_def change_def Let_def
        create_db_def sample_world_def view_at_def)
  moreover obtain c where "temp_build (Catalog served_sample) (record_build 0 0 ''ok'') (connect (opened empty_db) (wall_clock sample_env)) = (Inr (), c)"
    using sample_temp_build by (auto simp: sample_env_def)
  ultimately show ?thesis
    using pt by (simp add: build_and_publish_def Let_def opens checkpoint_truncate_def sample_env_def complete_def)
qed


text \<open>The waiting of the gate is bounded: when each sleep advances the clock by the polling interval, the
  loop ends after at most 51 checkpoints.\<close>

lemma gate_loop_ends:
  assumes "\<And>j. mono env (Suc j) \<ge> mono env j + GATE_POLL" and "mono env i + int k * GATE_POLL \<ge> deadline"
  shows "\<exists>g n w'. gate_loop env p deadline i w = Some (g, n, w') \<and> n \<le> Suc (i + k)"
  using assms(2)
proof (induction k arbitrary: i w)
  case 0
  then have "mono env (Suc i) \<ge> deadline" using assms(1) [of i] by (simp add: GATE_POLL_def)
  then show ?case
    by (cases "checkpoint_truncate p (served_checkpoint env i) w"; cases "fst (checkpoint_truncate p (served_checkpoint env i) w)")
      (subst gate_loop.simps, auto)+
next
  case (Suc k)
  have "mono env (Suc i) + int k * GATE_POLL \<ge> deadline"
    using Suc.prems assms(1) [of i] by (simp add: GATE_POLL_def)
  note later = Suc.IH [OF this]
  obtain a w1 where c: "checkpoint_truncate p (served_checkpoint env i) w = (a, w1)" by fastforce
  obtain g n w' where "gate_loop env p deadline (Suc i) w1 = Some (g, n, w')" "n \<le> Suc (Suc i + k)"
    using later [of w1] by blast
  then show ?case
    by (subst gate_loop.simps) (auto simp: c split: sum.splits)
qed



end
