(* ===== verification/Publish_Edits.thy ===== *)
theory Publish_Edits
  imports Publish
begin

text \<open>
  What a rebuild keeps: the tag edits of the served catalog, carried over to the files of the new one by the
  names of their dimensions, and the build number, which grows.
\<close>

section \<open>Moving rows to other files\<close>

text \<open>A table of rows keyed by file and key, moved along a map of files.\<close>

definition rekeyed :: "(rowid \<Rightarrow> rowid option) \<Rightarrow> ((rowid \<times> string) \<times> 'v) list \<Rightarrow> ((rowid \<times> string) \<times> 'v) list" where
  "rekeyed h t = List.map_filter (\<lambda>((i, k), v). map_option (\<lambda>j. ((j, k), v)) (h i)) t"

lemma rekeyed_simps [simp]:
  "rekeyed h [] = []"
  "rekeyed h (((i, k), v) # t) = (case h i of None \<Rightarrow> rekeyed h t | Some j \<Rightarrow> ((j, k), v) # rekeyed h t)"
  by (simp_all add: rekeyed_def List.map_filter_simps split: option.splits)

lemma in_rekeyed: "((j, k), v) \<in> set (rekeyed h t) \<longleftrightarrow> (\<exists>i. h i = Some j \<and> ((i, k), v) \<in> set t)"
  by (induction t) (auto split: option.splits)

lemma in_keys: "q \<in> fst ` A \<longleftrightarrow> (\<exists>v. (q, v) \<in> A)"
  by force

lemma rekeyed_keys: "(j, k) \<in> fst ` set (rekeyed h t) \<longleftrightarrow> (\<exists>i. h i = Some j \<and> (i, k) \<in> fst ` set t)"
  by (simp only: in_keys in_rekeyed) blast

text \<open>The map of files sends different files to different files.\<close>

definition one_to_one :: "(rowid \<Rightarrow> rowid option) \<Rightarrow> bool" where
  "one_to_one h \<longleftrightarrow> (\<forall>i i' j. h i = Some j \<longrightarrow> h i' = Some j \<longrightarrow> i = i')"

lemma distinct_rekeyed: "one_to_one h \<Longrightarrow> distinct (map fst t) \<Longrightarrow> distinct (map fst (rekeyed h t))"
proof (induction t)
  case (Cons x t)
  obtain i k v where x: "x = ((i, k), v)" by (metis prod.exhaust)
  have "(j, k) \<notin> fst ` set (rekeyed h t)" if "h i = Some j" for j
    using Cons.prems that by (auto simp: rekeyed_keys x one_to_one_def)
  with Cons show ?case by (auto simp: x split: option.splits)
qed simp

lemma map_of_rekeyed:
  assumes "one_to_one h" and "h i = Some j"
  shows "map_of (rekeyed h t) (j, k) = map_of t (i, k)"
proof (induction t)
  case (Cons x t)
  obtain i' k' v where x: "x = ((i', k'), v)" by (metis prod.exhaust)
  have "h i' = Some j \<longleftrightarrow> i' = i" using assms by (auto simp: one_to_one_def)
  with Cons.IH assms(2) show ?case by (auto simp: x split: option.splits)
qed simp

section \<open>The rows of the old catalog\<close>

text \<open>The dimensions of the file with a given id, as the join reads them.\<close>

definition dims_of_id :: "db \<Rightarrow> rowid \<Rightarrow> dims option" where
  "dims_of_id d i =
     (case find (\<lambda>f. f_id f = i) (files d) of
        None \<Rightarrow> None
      | Some f \<Rightarrow>
          (case f_ident f of ((c, s, r, x), date, filename) \<Rightarrow> do {
             cn \<leftarrow> name_of (customers d) c;
             sn \<leftarrow> name_of (sites d) s;
             rn \<leftarrow> name_of (robots d) r;
             xn \<leftarrow> name_of (sources d) x;
             Some \<lparr>dim_customer = cn, dim_site = snd sn, dim_robot = snd rn, dim_source = xn,
                    dim_date = date, dim_filename = filename\<rparr>
           }))"

lemma old_override_dims:
  "old_override d ((i, k), (v, t)) = map_option (\<lambda>ds. (ds, k, v, t)) (dims_of_id d i)"
  by (auto simp: old_override_def dims_of_id_def split: option.splits prod.splits bind_splits)

lemma dims_of_id_iff:
  assumes wf: "db_wf d"
  shows "dims_of_id d i = Some ds \<longleftrightarrow> (\<exists>f. file_at d ds = Some f \<and> f_id f = i)"
proof -
  have fw: "files_wf d" and tw: "tables_wf d" using wf by (simp_all add: db_wf_def)
  have found: "find (\<lambda>f. f_id f = i) (files d) = Some f \<longleftrightarrow> f \<in> set (files d) \<and> f_id f = i" for f
    using fw by (simp add: files_wf_def find_key_Some)
  have named: "dims_of_id d i = Some ds" if f: "file_at d ds = Some f" "f_id f = i" for ds f
  proof -
    have "f \<in> set (files d)" and "dims_of d (f_ident f) = Some ds"
      using f(1) fw by (simp_all add: file_at_iff dims_of_iff [OF tw])
    with f(2) found [of f] show ?thesis
      by (auto simp: dims_of_id_def dims_of_def bind_eq_Some_conv split: prod.splits if_splits)
  qed
  show ?thesis
  proof
    assume l: "dims_of_id d i = Some ds"
    then obtain f where f: "f \<in> set (files d)" "f_id f = i"
      using found by (auto simp: dims_of_id_def split: option.splits)
    obtain ds' where "file_at d ds' = Some f" by (rule file_dims [OF wf f(1)])
    with named [OF this f(2)] l f(2) show "\<exists>f. file_at d ds = Some f \<and> f_id f = i" by auto
  qed (use named in blast)
qed

text \<open>The file of the new catalog to which the rows of an old file go.\<close>

definition moved_to :: "db \<Rightarrow> db \<Rightarrow> rowid \<Rightarrow> rowid option" where
  "moved_to old new i = Option.bind (dims_of_id old i) (lookup_file_id new)"

lemma moved_to_iff:
  assumes "db_wf old" and "db_wf new"
  shows "moved_to old new i = Some j \<longleftrightarrow>
    (\<exists>ds f g. file_at old ds = Some f \<and> f_id f = i \<and> file_at new ds = Some g \<and> f_id g = j)"
  by (auto simp: moved_to_def bind_eq_Some_conv dims_of_id_iff [OF assms(1)] lookup_file_id_file_at [OF assms(2)])

lemma moved_to_one_to_one:
  assumes "db_wf old" and "db_wf new"
  shows "one_to_one (moved_to old new)"
  unfolding one_to_one_def moved_to_iff [OF assms] using file_at_distinct_ids [OF assms(2)] by (metis option.inject)

section \<open>Carrying them over\<close>

definition placed :: "db \<Rightarrow> override_row \<Rightarrow> ((rowid \<times> string) \<times> (string option \<times> int)) option" where
  "placed d = (\<lambda>(ds, key, val, updated_at). map_option (\<lambda>i. ((i, key), (val, updated_at))) (lookup_file_id d ds))"

lemma lookup_with_override [simp]: "lookup_file_id (d\<lparr>tags_override := t\<rparr>) ds = lookup_file_id d ds"
proof -
  have "names_match (d\<lparr>tags_override := t\<rparr>) = names_match d" by (simp add: names_match_def fun_eq_iff)
  then show ?thesis by (simp add: lookup_file_id_def)
qed

lemma lookup_in_files: "lookup_file_id d ds = Some i \<Longrightarrow> i \<in> f_id ` set (files d)"
  by (auto simp: lookup_file_id_def find_Some_iff)

lemma placed_with_override [simp]: "placed (d\<lparr>tags_override := t\<rparr>) = placed d"
  by (simp add: placed_def fun_eq_iff)

lemma carry_rows_run:
  assumes "distinct (map fst (tags_override (working w) @ List.map_filter (placed (working w)) rows))"
  shows "\<exists>cs. fold_op carry_row rows counts w =
    (Inr cs, with_override (tags_override (working w) @ List.map_filter (placed (working w)) rows) w)"
  using assms
proof (induction rows arbitrary: w counts)
  case Nil
  then show ?case by (simp add: List.map_filter_simps)
next
  case (Cons row rows)
  obtain ds key val t where row: "row = (ds, key, val, t)" by (metis prod.exhaust)
  obtain a b where counts: "counts = (a, b)" by fastforce
  show ?case
  proof (cases "lookup_file_id (working w) ds")
    case None
    then have "carry_row row counts w = (Inr (a, b + 1), w)" "placed (working w) row = None"
      by (simp_all add: carry_row_def row counts query_def placed_def)
    then show ?thesis using Cons.IH [of w "(a, b + 1)"] Cons.prems by (simp add: List.map_filter_simps)
  next
    case (Some i)
    let ?w = "with_override (tags_override (working w) @ [((i, key), (val, t))]) w"
    have placed: "placed (working w) row = Some ((i, key), (val, t))" by (simp add: placed_def row Some)
    then have "(i, key) \<notin> fst ` set (tags_override (working w))"
      using Cons.prems by (auto simp: List.map_filter_simps)
    then have "carry_row row counts w = (Inr (a + 1, b), ?w)"
      using lookup_in_files [OF Some] Some
      by (simp add: carry_row_def row counts query_def exec_check_def insert_override_def)
    moreover have "distinct (map fst (tags_override (working ?w) @ List.map_filter (placed (working ?w)) rows))"
      using Cons.prems placed by (simp add: List.map_filter_simps)
    note Cons.IH [OF this, of "(a + 1, b)"]
    ultimately show ?thesis by (auto simp: List.map_filter_simps placed)
  qed
qed

lemma placed_rows:
  "List.map_filter (placed new) (List.map_filter (old_override old) t) = rekeyed (moved_to old new) t"
proof (induction t)
  case (Cons x t)
  obtain i k v u where x: "x = ((i, k), (v, u))" by (metis prod.exhaust)
  show ?case
    using Cons.IH
    by (auto simp: x List.map_filter_simps old_override_dims placed_def moved_to_def split: option.splits)
qed (simp add: List.map_filter_simps)

text \<open>Into a catalog without overrides, the carry-over puts those of the files both have.\<close>

lemma carry_forward_run:
  assumes old: "db_wf old" "set joined_tables \<subseteq> set (db_tables old)" and s: "in_sync w"
    and none: "tags_override (working w) = []"
  obtains cs w' where "carry_forward_tags_override (Catalog old) w = (Inr cs, w')" and "in_sync w'"
    and "working w' = (working w)\<lparr>tags_override := rekeyed (moved_to old (working w)) (tags_override old)\<rparr>"
proof -
  let ?rows = "List.map_filter (old_override old) (tags_override old)"
  let ?t = "rekeyed (moved_to old (working w)) (tags_override old)"
  have rows: "old_override_rows (Catalog old) = ?rows" using old(2) by (simp add: old_override_rows_def)
  have wf: "db_wf (working w)" "sets_wf (working w)" "coherent w" using s by auto
  have dist: "distinct (map fst ?t)"
    using old(1) by (intro distinct_rekeyed moved_to_one_to_one wf(1)) (simp_all add: db_wf_def tags_wf_def)
  show ?thesis
  proof (cases "?rows = []")
    case True
    then have "?t = []" using placed_rows [of "working w" old "tags_override old"] by (simp add: List.map_filter_simps)
    then have "working w = (working w)\<lparr>tags_override := ?t\<rparr>" using none by simp
    then show ?thesis using that [OF _ s] True by (simp add: carry_forward_tags_override_def rows)
  next
    case False
    have "distinct (map fst (tags_override (working w) @ List.map_filter (placed (working w)) ?rows))"
      by (simp add: none placed_rows dist)
    from carry_rows_run [OF this, of "(0, 0)"] obtain cs where
      "fold_op carry_row ?rows (0, 0) w = (Inr cs, with_override ?t w)"
      by (auto simp: none placed_rows)
    then have run: "carry_forward_tags_override (Catalog old) w = (Inr cs, commit (with_override ?t w))"
      using False by (simp add: carry_forward_tags_override_def rows with_conn_def)
    have names: "names ((working w)\<lparr>tags_override := ?t\<rparr>) = names (working w)" by (simp add: names_def)
    note frame = names_frame [OF names]
    have "fst ` fst ` set ?t \<subseteq> f_id ` set (files (working w))"
    proof (clarsimp simp: in_rekeyed moved_to_iff [OF old(1) wf(1)])
      fix ds g
      assume "file_at (working w) ds = Some g"
      then show "f_id g \<in> f_id ` set (files (working w))"
        using wf(1) by (simp add: file_at_iff db_wf_def)
    qed
    then have "tags_wf ((working w)\<lparr>tags_override := ?t\<rparr>)"
      using wf(1) dist by (simp add: tags_wf_def db_wf_def)
    then have "db_wf ((working w)\<lparr>tags_override := ?t\<rparr>)" using wf(1) by (simp add: db_wf_def files_wf_def frame)
    moreover have "coherent (with_override ?t w)" using wf(3) frame(6) by (simp add: coherent_def)
    moreover have "sets_wf ((working w)\<lparr>tags_override := ?t\<rparr>)" using wf(2) sets_wf_names [OF names] by simp
    ultimately have "in_sync (commit (with_override ?t w))" using in_syncD(5) [OF s] by (intro in_sync_commit) simp_all
    then show ?thesis by (rule that [OF run]) simp
  qed
qed

section \<open>A rebuild\<close>

lemma opened_names [simp]: "names (opened d) = names d" "files (opened d) = files d"
  "tags_embedded (opened d) = tags_embedded d" "tags_override (opened d) = tags_override d"
  "catalog_failures (opened d) = catalog_failures d" "build_metadata (opened d) = build_metadata d"
  by (simp_all add: opened_def names_def)

lemma db_wf_build [simp]: "db_wf (d\<lparr>build_metadata := b\<rparr>) = db_wf d" "sets_wf (d\<lparr>build_metadata := b\<rparr>) = sets_wf d"
  "load_caches (d\<lparr>build_metadata := b\<rparr>) = load_caches d"
proof -
  have names: "names (d\<lparr>build_metadata := b\<rparr>) = names d" by (simp add: names_def)
  note frame = names_frame [OF names] sets_wf_names [OF names]
  show "db_wf (d\<lparr>build_metadata := b\<rparr>) = db_wf d" "sets_wf (d\<lparr>build_metadata := b\<rparr>) = sets_wf d"
    "load_caches (d\<lparr>build_metadata := b\<rparr>) = load_caches d"
    by (simp_all add: db_wf_def files_wf_def tags_wf_def frame)
qed

lemma catalog_of_build: "catalog_of (d\<lparr>build_metadata := b\<rparr>) = (catalog_of d)\<lparr>cat_build := b\<rparr>"
proof -
  have "names (d\<lparr>build_metadata := b\<rparr>) = names d" "files (d\<lparr>build_metadata := b\<rparr>) = files d"
    by (simp_all add: names_def)
  note frame = file_at_same [OF this]
  have tags: "tags_at t (d\<lparr>build_metadata := b\<rparr>) = tags_at t d" for t :: "((rowid \<times> string) \<times> 'v) list"
    by (rule ext) (simp only: tags_at_def frame)
  show ?thesis by (simp add: catalog_of_def frame tags)
qed

text \<open>The fresh temporary database, with the number of the old build.\<close>

definition seeded :: "db \<Rightarrow> db" where
  "seeded old = (opened empty_db)\<lparr>build_metadata := map_option
     (\<lambda>b. \<lparr>b_build_id = b_build_id b, b_last_build_ns = 0, b_files_scanned = 0, b_files_failed = 0,
           b_outcome = ''seeded'', b_version = []\<rparr>) (build_metadata old)\<rparr>"

lemma opened_empty_wf: "db_wf (opened empty_db)" "sets_wf (opened empty_db)"
proof -
  have names: "names (opened empty_db) = names empty_db" by simp
  note frame = names_frame [OF names] sets_wf_names [OF names]
  show "db_wf (opened empty_db)" "sets_wf (opened empty_db)"
    using empty_db_wf frame by (simp_all add: db_wf_def files_wf_def tags_wf_def)
qed

lemma seeded_start:
  assumes "''build_metadata'' \<in> set (db_tables old)"
  shows "(case read_old_build_id (Catalog old) of None \<Rightarrow> return_op () | Some floor \<Rightarrow> seed_build_id_floor floor)
      (connect (opened empty_db) clock) =
      (Inr (), (connect (seeded old) clock)\<lparr>versions := (if build_metadata old = None then [] else [seeded old])\<rparr>)"
proof (cases "build_metadata old")
  case None
  then have "seeded old = opened empty_db" by (simp add: seeded_def opened_def empty_db_def)
  then show ?thesis by (simp add: read_old_build_id_def None connect_def)
next
  case (Some b)
  let ?w = "connect (opened empty_db) clock"
  have "build_metadata (opened empty_db) = None" by (simp add: opened_def empty_db_def)
  then have seeded: "(opened empty_db)\<lparr>build_metadata := Some (case build_metadata (opened empty_db) of
        None \<Rightarrow> \<lparr>b_build_id = b_build_id b, b_last_build_ns = 0, b_files_scanned = 0, b_files_failed = 0,
          b_outcome = ''seeded'', b_version = []\<rparr>
      | Some r \<Rightarrow> r\<lparr>b_build_id := b_build_id b\<rparr>)\<rparr> = seeded old"
    by (simp add: seeded_def Some)
  have work: "working ?w = opened empty_db" by (simp add: connect_def)
  have "seed_build_id_floor (b_build_id b) ?w = (Inr (), commit (?w\<lparr>working := seeded old\<rparr>))"
    unfolding seed_build_id_floor_def bind_op_def exec_def commit_op_def prod.case sum.case work seeded by (rule refl)
  moreover have "load_caches (seeded old) = load_caches (opened empty_db)" by (simp add: seeded_def load_caches_def)
  then have "commit (?w\<lparr>working := seeded old\<rparr>) = (connect (seeded old) clock)\<lparr>versions := [seeded old]\<rparr>"
    by (simp add: commit_def connect_def)
  moreover have "read_old_build_id (Catalog old) = Some (b_build_id b)"
    using assms Some by (simp add: read_old_build_id_def)
  ultimately show ?thesis using Some by simp
qed

lemma seeded_catalog: "cat_files (catalog_of (seeded old)) ds = None" "cat_override (catalog_of (seeded old)) ds = Map.empty"
proof -
  have "file_at empty_db ds = None" by (simp add: file_at_def ident_of_def lookup_ids_def empty_db_def)
  then show "cat_files (catalog_of (seeded old)) ds = None" "cat_override (catalog_of (seeded old)) ds = Map.empty"
    unfolding seeded_def catalog_of_build catalog_of_opened by (simp_all add: catalog_of_def tags_at_def)
qed

lemma rebuilt_overrides_none:
  assumes "db_wf d" and "\<And>ds. cat_files (catalog_of d) ds = None \<or> cat_override (catalog_of d) ds = Map.empty"
  shows "tags_override d = []"
proof (rule ccontr)
  assume "tags_override d \<noteq> []"
  then obtain i k v where row: "((i, k), v) \<in> set (tags_override d)" by (metis list.set_intros(1) neq_Nil_conv prod.exhaust)
  have tags: "tags_wf d" using assms(1) by (simp add: db_wf_def)
  then have "i \<in> f_id ` set (files d)" using row by (force simp: tags_wf_def)
  then obtain f ds where "f_id f = i" "file_at d ds = Some f" using file_dims [OF assms(1)] by (metis imageE)
  moreover from this assms(2) [of ds] have "map_of (tags_override d) (i, k) = None"
    by (auto simp: catalog_of_def tags_at_def fun_eq_iff)
  ultimately show False using row by (force simp: map_of_eq_None_iff)
qed

lemma fresh_effect:
  assumes "verdict_effect v ds eff c c'" and "cat_files c ds = None" and "cat_override c ds = Map.empty"
  shows "cat_files c' ds = None \<or> cat_override c' ds = Map.empty"
  using assms by (cases v) (auto simp: same_at_def)

lemma rebuild_run:
  assumes old: "db_wf old" "set joined_tables \<subseteq> set (db_tables old)" "''build_metadata'' \<in> set (db_tables old)"
    and clock: "\<And>n. fits_sqlite (clock n) \<and> clock n \<noteq> 0" and ls: "src_list source = Inr ls"
    and perm: "\<And>js. mset (completion js) = mset js" and once: "distinct_objects source ls"
  obtains t and d and c :: writer and b where
    "temp_build (Catalog old) (full_reconcile get_summary completion source workers)
      (connect (opened empty_db) clock) = (Inr t, c)"
    and "in_sync c" and "db_wf d" and "committed c = d\<lparr>tags_override := rekeyed (moved_to old d) (tags_override old)\<rparr>"
    and "build_metadata d = Some b" and "b_build_id b = (case build_metadata old of None \<Rightarrow> 1 | Some b \<Rightarrow> b_build_id b + 1)"
    and "\<And>l ds eff. l \<in> set ls \<Longrightarrow> resolve_key_dims source (lst_key l) = Some (ds, eff) \<Longrightarrow>
      verdict_effect (job_verdict get_summary source (lst_key l, lst_stat l, ds, eff)) ds eff
        (catalog_of (seeded old)) (catalog_of d)"
    and "\<And>ds. ds \<notin> listed_dims source ls \<Longrightarrow> cat_files (catalog_of d) ds = None"
proof -
  let ?w = "(connect (seeded old) clock)\<lparr>versions := (if build_metadata old = None then [] else [seeded old])\<rparr>"
  have "db_wf (seeded old)" "sets_wf (seeded old)" by (simp_all add: seeded_def opened_empty_wf)
  then have s: "in_sync ?w" by (simp add: in_sync_def connect_def coherent_def whole_def)
  have sane: "sane_clock ?w" using clock by (simp add: sane_clock_def connect_def)
  have w: "working ?w = seeded old" by (simp add: connect_def)
  obtain t and w1 :: writer where run: "full_reconcile get_summary completion source workers ?w = (Inr t, w1)"
    and s1: "in_sync w1"
    and gone: "\<And>ds. ds \<notin> listed_dims source ls \<Longrightarrow> cat_files (catalog_of (working w1)) ds = None"
    and each: "\<And>l ds eff. l \<in> set ls \<Longrightarrow> resolve_key_dims source (lst_key l) = Some (ds, eff) \<Longrightarrow>
      verdict_effect (listing_verdict get_summary source (catalog_of (seeded old)) l ds eff) ds eff
        (catalog_of (seeded old)) (catalog_of (working w1))"
    by (rule reconcile_outcome [OF s sane ls perm once, of get_summary workers, unfolded w]) blast
  have verdict: "listing_verdict get_summary source (catalog_of (seeded old)) l ds eff =
      job_verdict get_summary source (lst_key l, lst_stat l, ds, eff)" for l ds eff
    using seeded_catalog(1) [of old ds] by (simp add: listing_verdict_def unchanged_in_def)
  obtain b where b: "build_metadata (working w1) = Some b" "b_last_build_ns b \<noteq> 0"
    and id: "b_build_id b = (case build_metadata (seeded old) of None \<Rightarrow> 1 | Some b \<Rightarrow> b_build_id b + 1)"
    by (rule reconcile_stamp [OF s sane ls perm once run, unfolded w])
  have wf: "db_wf (working w1)" using s1 by auto
  have "tags_override (working w1) = []"
  proof (rule rebuilt_overrides_none [OF wf])
    show "cat_files (catalog_of (working w1)) ds = None \<or> cat_override (catalog_of (working w1)) ds = Map.empty" for ds
      using gone [of ds] fresh_effect [OF each seeded_catalog] by (auto simp: listed_dims_def)
  qed
  then obtain cs c where c: "carry_forward_tags_override (Catalog old) w1 = (Inr cs, c)" "in_sync c"
    "working c = (working w1)\<lparr>tags_override := rekeyed (moved_to old (working w1)) (tags_override old)\<rparr>"
    by (rule carry_forward_run [OF old(1,2) s1])
  have "temp_build (Catalog old) (full_reconcile get_summary completion source workers)
      (connect (opened empty_db) clock) = (Inr t, c)"
    using seeded_start [OF old(3), of clock] run b c(1)
    by (simp add: temp_build_def ensure_build_stamped_def query_def)
  moreover have "b_build_id b = (case build_metadata old of None \<Rightarrow> 1 | Some b \<Rightarrow> b_build_id b + 1)"
    using id by (simp add: seeded_def split: option.splits)
  moreover have "committed c = working c" using c(2) by auto
  ultimately show thesis
    using that [of t c "working w1" b] c wf b(1) each gone by (simp add: verdict)
qed

lemma carried_overrides:
  assumes old: "db_wf old" and new: "db_wf d"
  shows "cat_files (catalog_of (d\<lparr>tags_override := t\<rparr>)) = cat_files (catalog_of d)"
    and "cat_override (catalog_of (d\<lparr>tags_override := rekeyed (moved_to old d) (tags_override old)\<rparr>)) ds =
      (if file_at d ds = None then Map.empty else cat_override (catalog_of old) ds)"
proof -
  let ?new = "\<lambda>t. d\<lparr>tags_override := t\<rparr>"
  have at: "file_at (?new t) = file_at d" for t by (rule file_at_same) (simp_all add: names_def)
  show "cat_files (catalog_of (?new t)) = cat_files (catalog_of d)" by (simp add: catalog_of_def at)
  let ?t = "rekeyed (moved_to old d) (tags_override old)"
  show "cat_override (catalog_of (?new ?t)) ds = (if file_at d ds = None then Map.empty else cat_override (catalog_of old) ds)"
  proof (cases "file_at d ds")
    case (Some g)
    note moved = moved_to_iff [OF old new]
    have "map_of ?t (f_id g, k) = tags_at (tags_override old) old ds k" for k
    proof (cases "file_at old ds")
      case (Some f)
      then have "moved_to old d (f_id f) = Some (f_id g)" using moved \<open>file_at d ds = Some g\<close> by blast
      then show ?thesis
        using map_of_rekeyed [OF moved_to_one_to_one [OF old new]] by (simp add: tags_at_def Some)
    next
      case None
      have "moved_to old d i \<noteq> Some (f_id g)" for i
      proof
        assume "moved_to old d i = Some (f_id g)"
        then obtain ds' f g' where "file_at old ds' = Some f" "file_at d ds' = Some g'" "f_id g' = f_id g"
          using moved by blast
        then have "file_at old ds = Some f" using file_at_distinct_ids [OF new _ \<open>file_at d ds = Some g\<close>] by metis
        with None show False by simp
      qed
      then have "map_of ?t (f_id g, k) = None" by (simp add: map_of_eq_None_iff rekeyed_keys)
      then show ?thesis by (simp add: tags_at_def None)
    qed
    then show ?thesis by (simp add: catalog_of_def tags_at_def at Some fun_eq_iff)
  qed (simp add: catalog_of_def tags_at_def at)
qed

text \<open>C8. A rebuild loses no tag edit and goes forward. Built from nothing over an intact old catalog, the new
  one is well formed, its build number is one more than the old one, and the overrides of every file it
  contains are those the file had, under whatever row id; files it does not contain have none. Every
  listed object that could be read is among its files, and nothing that is not listed is.\<close>

theorem rebuild_keeps_edits:
  assumes "db_wf old" and "set joined_tables \<subseteq> set (db_tables old)" and "''build_metadata'' \<in> set (db_tables old)"
    and "\<And>n. fits_sqlite (clock n) \<and> clock n \<noteq> 0" and "src_list source = Inr ls"
    and "\<And>js. mset (completion js) = mset js" and "distinct_objects source ls"
  shows "\<exists>t c b. temp_build (Catalog old) (full_reconcile get_summary completion source workers)
        (connect (opened empty_db) clock) = (Inr t, c) \<and> in_sync c \<and>
      build_metadata (committed c) = Some b \<and>
      b_build_id b = (case build_metadata old of None \<Rightarrow> 1 | Some b \<Rightarrow> b_build_id b + 1) \<and>
      (\<forall>ds. cat_override (catalog_of (committed c)) ds =
        (if file_at (committed c) ds = None then Map.empty else cat_override (catalog_of old) ds)) \<and>
      (\<forall>l \<in> set ls. \<forall>ds eff summary. resolve_key_dims source (lst_key l) = Some (ds, eff) \<longrightarrow>
        job_verdict get_summary source (lst_key l, lst_stat l, ds, eff) = Accepted ds eff (lst_stat l) summary \<longrightarrow>
        file_at (committed c) ds \<noteq> None) \<and>
      (\<forall>ds. file_at (committed c) ds \<noteq> None \<longrightarrow> ds \<in> listed_dims source ls)"
proof (rule rebuild_run [OF assms, where get_summary = get_summary and workers = workers])
  fix t d b and c :: writer
  assume run: "temp_build (Catalog old) (full_reconcile get_summary completion source workers)
      (connect (opened empty_db) clock) = (Inr t, c)" "in_sync c"
    and d: "db_wf d" and c: "committed c = d\<lparr>tags_override := rekeyed (moved_to old d) (tags_override old)\<rparr>"
    and b: "build_metadata d = Some b" "b_build_id b = (case build_metadata old of None \<Rightarrow> 1 | Some b \<Rightarrow> b_build_id b + 1)"
    and each: "\<And>l ds eff. l \<in> set ls \<Longrightarrow> resolve_key_dims source (lst_key l) = Some (ds, eff) \<Longrightarrow>
      verdict_effect (job_verdict get_summary source (lst_key l, lst_stat l, ds, eff)) ds eff
        (catalog_of (seeded old)) (catalog_of d)"
    and gone: "\<And>ds. ds \<notin> listed_dims source ls \<Longrightarrow> cat_files (catalog_of d) ds = None"
  have files: "file_at (committed c) = file_at d"
    using carried_overrides(1) [OF assms(1) d] by (simp add: c catalog_of_def)
  have "file_at d ds \<noteq> None" if "l \<in> set ls" "resolve_key_dims source (lst_key l) = Some (ds, eff)"
    "job_verdict get_summary source (lst_key l, lst_stat l, ds, eff) = Accepted ds eff (lst_stat l) summary"
    for l ds eff summary
    using each [OF that(1,2)] that(3) by (auto simp: catalog_of_def)
  moreover have "ds \<in> listed_dims source ls" if "file_at d ds \<noteq> None" for ds
    using gone [of ds] that by (auto simp: catalog_of_def)
  moreover have "build_metadata (committed c) = Some b" by (simp add: c b(1))
  moreover have "cat_override (catalog_of (committed c)) ds =
      (if file_at d ds = None then Map.empty else cat_override (catalog_of old) ds)" for ds
    unfolding c by (rule carried_overrides(2) [OF assms(1) d])
  ultimately show ?thesis using run b(2) files by (intro exI [of _ t] exI [of _ c] exI [of _ b]) simp
qed

theorem rebuild_keeps_edits_witness:
  "\<exists>t c. temp_build (Catalog sample_db) (full_reconcile sample_reader rev sample_source 4)
      (connect (opened empty_db) (\<lambda>_. 1)) = (Inr t, c) \<and>
    cat_override (catalog_of (committed c)) sample_dims ''note'' = Some (Some ''keep'', 3) \<and>
    map_option b_build_id (build_metadata (committed c)) = Some 1"
proof -
  have tables: "set joined_tables \<subseteq> set (db_tables sample_db)" "''build_metadata'' \<in> set (db_tables sample_db)"
    by (simp_all add: joined_tables_def sample_db_def schema_tables_def)
  have clock: "fits_sqlite 1 \<and> (1 :: int) \<noteq> 0" by (simp add: fits_sqlite_def)
  have old: "cat_override (catalog_of sample_db) sample_dims ''note'' = Some (Some ''keep'', 3)"
    by (simp add: catalog_of_def tags_at_def sample_file_at) (simp add: sample_db_def sample_row_def)
  have fresh: "build_metadata sample_db = None" by (simp add: sample_db_def)
  show ?thesis
    using rebuild_keeps_edits [OF sample_db_wf tables clock sample_listed _ sample_distinct_objects,
        where completion = rev and get_summary = sample_reader and workers = 4] sample_job_verdict
      sample_listing_resolves old fresh
    by (fastforce simp: sample_listing_def)
qed

end
