(* ===== verification/Integrity.thy ===== *)
theory Integrity
  imports Versions Publish_Edits
begin

text \<open>
  What holds of the database after every single statement, whatever the state of the caches, however an operation
  ends and whatever the clock says: that it conforms to \<open>schema.sql\<close>, and that its version stamp and its tables
  stay. The contract of a statement-level property is the locale \<open>statement_invariant\<close>; its client is every
  operation of the writer, so such a property holds of every version ever committed.
\<close>

section \<open>What a connection keeps\<close>

abbreviation keeps :: "(writer \<Rightarrow> bool) \<Rightarrow> (writer, 'a) op \<Rightarrow> bool" where
  "keeps I m \<equiv> hoare I m (\<lambda>_. I) (\<lambda>_. I)"

named_theorems keep_rules \<open>operations that keep an invariant of the connection\<close>

lemma keepsI: "(\<And>w. I w \<Longrightarrow> I (snd (m w))) \<Longrightarrow> keeps I m"
  by (rule hoareI) (metis snd_conv)+

lemma keepsD: "keeps I m \<Longrightarrow> I w \<Longrightarrow> I (snd (m w))"
  by (cases "m w"; cases "fst (m w)") (auto dest: hoareD_Inr hoareD_Inl)

lemma keeps_bind [keep_rules]: "keeps I m \<Longrightarrow> (\<And>x. keeps I (f x)) \<Longrightarrow> keeps I (bind_op m f)"
  by (rule hoare_bind)

lemma keeps_fold [keep_rules]: "(\<And>x a. keeps I (f x a)) \<Longrightarrow> keeps I (fold_op f xs a)"
  by (rule hoare_fold)

lemma keeps_depending: "(\<And>p. keeps I (f p)) \<Longrightarrow> keeps I (\<lambda>w. f (g w) w)"
  by (rule keepsI) (simp add: keepsD)

text \<open>An invariant of the connection that any transaction keeps whose statements keep \<open>P\<close>.\<close>

locale connection_invariant =
  fixes I :: "writer \<Rightarrow> bool" and P :: "db \<Rightarrow> bool"
  assumes shown: "I w \<Longrightarrow> P (working w)"
    and written: "I w \<Longrightarrow> P d \<Longrightarrow> I (w\<lparr>working := d\<rparr>)"
    and remembered: "I w \<Longrightarrow> I (w\<lparr>cache := c\<rparr>)"
    and ticking: "I w \<Longrightarrow> I (w\<lparr>reads := n\<rparr>)"
    and committing: "I w \<Longrightarrow> I (commit w)"
    and rolling_back: "I w \<Longrightarrow> I (rollback w)"
begin

lemma keeps_basic [keep_rules]:
  "keeps I (return_op x)" "keeps I (raise_op e)" "keeps I (query q)" "keeps I now_ns" "keeps I commit_op"
  "keeps I reload_caches" "keeps I (lift_result r)"
  by (auto intro!: keepsI simp: query_def now_ns_def commit_op_def reload_caches_def lift_result_def
      remembered ticking committing split: sum.splits)

lemma keeps_with_conn [keep_rules]: "keeps I m \<Longrightarrow> keeps I (with_conn m)"
  by (rule keepsI) (auto simp: with_conn_def split: prod.split sum.split
      intro: committing rolling_back dest: hoareD_Inr hoareD_Inl)

lemma keeps_exec: "(\<And>d. P d \<Longrightarrow> P (f d)) \<Longrightarrow> keeps I (exec f)"
  by (rule keepsI) (simp add: exec_def written shown)

lemma keeps_exec_check: "(\<And>d d'. P d \<Longrightarrow> f d = Inr d' \<Longrightarrow> P d') \<Longrightarrow> keeps I (exec_check f)"
  by (rule keepsI) (auto simp: exec_check_def split: sum.splits intro!: written, meson shown)

lemma keeps_resolve_row:
  assumes "\<And>d. P d \<Longrightarrow> map_of (t d) k \<noteq> None \<or> fk d k \<Longrightarrow> P (tu (insert_or_ignore k) d)"
  shows "keeps I (resolve_row fk t tu c cu k)"
proof (rule keepsI)
  fix w
  assume i: "I w"
  let ?d = "tu (insert_or_ignore k) (working w)"
  have "I (w\<lparr>working := ?d, cache := m\<rparr>)" "I (w\<lparr>working := ?d\<rparr>)" if "map_of (t (working w)) k \<noteq> None \<or> fk (working w) k" for m
    using written [OF i assms [OF shown [OF i] that]] by (simp_all add: remembered)
  then show "I (snd (resolve_row fk t tu c cu k w))"
    using i by (auto simp: resolve_row_def Let_def split: option.split)
qed

end

section \<open>The contract of a statement\<close>

text \<open>The statements of the program, one law each: those of \<open>db.py\<close> and \<open>builder.py\<close>, and the two that
  \<open>publish.py\<close> adds.\<close>

locale statement_invariant = connection_invariant +
  assumes new_customer: "P d \<Longrightarrow> P (customers_update (insert_or_ignore k) d)"
    and new_site: "P d \<Longrightarrow> map_of (sites d) k' \<noteq> None \<or> site_fk d k' \<Longrightarrow> P (sites_update (insert_or_ignore k') d)"
    and new_robot: "P d \<Longrightarrow> map_of (robots d) k' \<noteq> None \<or> robot_fk d k' \<Longrightarrow> P (robots_update (insert_or_ignore k') d)"
    and new_source: "P d \<Longrightarrow> P (sources_update (insert_or_ignore k) d)"
    and new_topic: "P d \<Longrightarrow> P (topic_names_update (insert_or_ignore k) d)"
    and new_schema: "P d \<Longrightarrow> P (schemas_update (insert_or_ignore nm) d)"
    and new_set: "P d \<Longrightarrow> map_of (topic_sets d) k = None \<Longrightarrow> P (topic_sets_update (\<lambda>t. t @ [(k, next_rowid (map snd t))]) d)"
    and new_member: "P d \<Longrightarrow> insert_member i m d = Inr d' \<Longrightarrow> P d'"
    and put_file: "P d \<Longrightarrow> upsert_file x ff d = Inr d' \<Longrightarrow> P d'"
    and flag_file: "P d \<Longrightarrow> P (set_has_error i b d)"
    and drop_files: "P d \<Longrightarrow> P (delete_files Q d)"
    and clear_tags: "P d \<Longrightarrow> P (tags_embedded_update (filter (\<lambda>((j, _), _). j \<noteq> i)) d)"
    and new_tag: "P d \<Longrightarrow> insert_embedded i kv d = Inr d' \<Longrightarrow> P d'"
    and set_tag: "P d \<Longrightarrow> upsert_override i k v now d = Inr d' \<Longrightarrow> P d'"
    and drop_tag: "P d \<Longrightarrow> P (d\<lparr>tags_override := delete_key (i, k) (tags_override d)\<rparr>)"
    and note_failed: "P d \<Longrightarrow> P (d\<lparr>catalog_failures := upsert k err (catalog_failures d)\<rparr>)"
    and clear_failed: "P d \<Longrightarrow> P (catalog_failures_update (delete_key k) d)"
    and stamp: "P d \<Longrightarrow> P (d\<lparr>build_metadata := Some s\<rparr>)"
    and carry_tag: "P d \<Longrightarrow> insert_override i k v now d = Inr d' \<Longrightarrow> P d'"
begin

lemma resolvers [keep_rules]:
  "keeps I (resolve_customer a)" "keeps I (resolve_source a)" "keeps I (resolve_topic a)"
  "keeps I (resolve_site i a)" "keeps I (resolve_robot i a)" "keeps I (resolve_schema a b)"
  by (auto simp: resolver_defs intro!: keeps_resolve_row new_customer new_source new_topic new_site new_robot new_schema)

lemma topic_set [keep_rules]: "keeps I (resolve_topic_set fp ms)"
proof (rule keepsI)
  fix w
  assume h: "I w"
  let ?fill = "\<lambda>set_id. bind_op (fold_op (\<lambda>m _. exec_check (insert_member set_id m)) ms ())
      (\<lambda>_ w'. (Inr set_id, w'\<lparr>cache := (cache w')\<lparr>c_topic_set := (c_topic_set (cache w'))(fp \<mapsto> set_id)\<rparr>\<rparr>))"
  have rest: "keeps I (bind_op (query q) (\<lambda>row. case row of None \<Rightarrow> raise_op row_is_none | Some set_id \<Rightarrow> ?fill set_id))" for q
  proof (rule keeps_bind [OF keeps_basic(3)])
    fix row
    have "keeps I (?fill i)" for i
    proof (rule keeps_bind)
      show "keeps I (fold_op (\<lambda>m _. exec_check (insert_member i m)) ms ())"
        by (intro keeps_fold keeps_exec_check) (rule new_member)
      show "keeps I (\<lambda>w'. (Inr i, w'\<lparr>cache := (cache w')\<lparr>c_topic_set := (c_topic_set (cache w'))(fp \<mapsto> i)\<rparr>\<rparr>))"
        by (rule keepsI) (simp add: remembered)
    qed
    then show "keeps I (case row of None \<Rightarrow> raise_op row_is_none | Some set_id \<Rightarrow> ?fill set_id)"
      by (cases row) (simp_all add: keeps_basic)
  qed
  show "I (snd (resolve_topic_set fp ms w))"
  proof (cases "c_topic_set (cache w) fp = None \<and> map_of (topic_sets (working w)) fp = None \<and> ms = sort ms")
    case True
    let ?w = "w\<lparr>working := topic_sets_update (\<lambda>t. t @ [(fp, next_rowid (map snd t))]) (working w)\<rparr>"
    have "I ?w" using written [OF h new_set [OF shown [OF h]]] True by simp
    from keepsD [OF rest this, of "\<lambda>d. map_of (topic_sets d) fp"] show ?thesis
      using True by (simp add: resolve_topic_set_def exec_def)
  next
    case False
    then show ?thesis using h by (auto simp: resolve_topic_set_def intro: remembered split: option.splits)
  qed
qed

lemma ids [keep_rules]: "keeps I (resolve_ids ds)"
  unfolding resolve_ids_def by (intro keep_rules)

lemma failure [keep_rules]: "keeps I (record_failure key err)"
  unfolding record_failure_def by (intro keep_rules keeps_exec) (rule note_failed)

lemma row [keep_rules]: "keeps I (composite_row ids ds)"
  unfolding composite_row_def by (intro keep_rules)

lemma quarantine [keep_rules]: "keeps I (quarantine_existing ids ds key err)"
  unfolding quarantine_existing_def by (intro keep_rules keeps_exec) (rule drop_files)

lemma channel [keep_rules]: "keeps I (add_channel ch bt)"
  unfolding add_channel_def by (intro keep_rules)

lemma txn [keep_rules]: "keeps I (file_txn ds key ids st summary)"
proof -
  have tags: "keeps I (bind_op (exec (tags_embedded_update (filter (\<lambda>((j, _), _). j \<noteq> i)))) (\<lambda>_.
      bind_op (fold_op (\<lambda>kv _. exec_check (insert_embedded i kv)) kvs ()) (\<lambda>_.
      bind_op (exec (set_has_error i b)) (\<lambda>_. exec (catalog_failures_update (delete_key key))))))" for i kvs b
    by (intro keeps_bind keeps_fold keeps_exec keeps_exec_check) (rule clear_tags new_tag flag_file clear_failed, assumption+)+
  have put: "keeps I (exec_check (upsert_file x ff))" for x ff
    by (rule keeps_exec_check) (rule put_file)
  show ?thesis
    unfolding file_txn_def Let_def
    by (intro keep_rules) (auto intro!: keeps_bind put keep_rules tags split: option.split)
qed

lemma write_row [keep_rules]: "keeps I (write_file_row ds key ids st summary)"
proof (rule keepsI)
  fix w
  assume "I w"
  note kept = keepsD [OF keeps_with_conn [OF txn] this]
  have "keeps I (bind_op reload_caches (\<lambda>_. bind_op (quarantine_existing ids ds key (exn_text e))
      (\<lambda>_. return_op (failed (exn_msg e)))))" for e
    by (intro keep_rules)
  from keepsD [OF this] show "I (snd (write_file_row ds key ids st summary w))"
    using kept [of ds key ids st summary] by (auto simp: write_file_row_def split: prod.split sum.split)
qed

lemma noted [keep_rules]: "keeps I (bind_op (record_failure key err) (\<lambda>_. bind_op commit_op (\<lambda>_. return_op r)))"
  by (intro keep_rules)

lemma objects [keep_rules]: "keeps I (catalog_object get_summary key source st0)"
  unfolding catalog_object_def
  by (intro keep_rules) (auto intro!: keep_rules split: option.split sum.split)

lemma extracted [keep_rules]: "keeps I (apply_extract ex)"
  by (cases ex) (auto simp: apply_extract_def Let_def intro!: keep_rules)

lemma deletion [keep_rules]: "keeps I (delete_by_key key)"
proof (rule keepsI)
  fix w
  assume h: "I w"
  have "keeps I (bind_op (query q) (\<lambda>deleted. bind_op (exec (delete_files Q)) (\<lambda>_.
      bind_op (exec (catalog_failures_update (delete_key key))) (\<lambda>_. bind_op commit_op (\<lambda>_. return_op (deleted \<noteq> []))))))"
    for q :: "db \<Rightarrow> file_row list" and Q
    by (intro keep_rules keeps_exec) (rule drop_files clear_failed, assumption)+
  from keepsD [OF this h] show "I (snd (delete_by_key key w))"
    using h by (simp add: delete_by_key_def split: option.split)
qed

lemma tag_edit [keep_rules]: "keeps I (tag_edit_body now item)"
proof -
  have unset: "P d \<Longrightarrow> unset_tag i k now d = Inr d' \<Longrightarrow> P d'" for i k now d d'
    by (auto simp: unset_tag_def intro: set_tag drop_tag split: if_splits)
  have "keeps I (update_tags i a b)" for i a b
    unfolding update_tags_def
    by (intro keep_rules; auto simp: split_beta intro!: keeps_exec_check elim: set_tag unset)
  then show ?thesis
    unfolding tag_edit_body_def by (auto intro!: keep_rules split: option.split)
qed

lemma listing [keep_rules]: "keeps I (classify source etags l cl)"
proof (cases "resolve_key_dims source (lst_key l)")
  case None
  then show ?thesis using noted by (simp add: classify_def)
next
  case (Some x)
  then show ?thesis by (intro keepsI) (simp add: classify_def split_beta Let_def)
qed

lemma stamped_build [keep_rules]: "keeps I (record_build a b c)"
  unfolding record_build_def by (intro keep_rules keeps_exec) (rule stamp)

lemma reconcile [keep_rules]: "keeps I (full_reconcile get_summary completion source workers)"
proof -
  have sweep: "keeps I (sweep_row present r t)" for present r t
    by (auto simp: sweep_row_def intro!: keep_rules keeps_exec drop_files)
  have finish: "keeps I (\<lambda>w. sweep_and_stamp (present_idents (cache w) ds ls) t w)" for ds ls t
  proof (rule keeps_depending [where g = "\<lambda>w. present_idents (cache w) ds ls"])
    show "keeps I (sweep_and_stamp present t)" for present
      by (intro keeps_bind keeps_fold sweep keeps_basic stamped_build)
  qed
  have jobs: "keeps I (run_jobs get_summary completion source workers js t)" for js t
    unfolding run_jobs_def apply_job_def by (intro keep_rules)
  show ?thesis
    unfolding full_reconcile_def Let_def
    by (intro keeps_bind keeps_basic keeps_fold listing jobs finish)
qed

text \<open>The temporary build of a publication, around whatever builds the catalog.\<close>

lemma temp [keep_rules]:
  assumes "keeps I build_fn"
  shows "keeps I (temp_build old build_fn)"
proof -
  have "keeps I (carry_row r x)" for r x
    unfolding carry_row_def split_beta
    by (intro keep_rules) (auto intro!: keep_rules keeps_exec_check elim: carry_tag split: option.split)
  moreover have "keeps I (seed_build_id_floor n)" for n
    unfolding seed_build_id_floor_def by (intro keep_rules keeps_exec) (rule stamp)
  moreover have "keeps I ensure_build_stamped"
    unfolding ensure_build_stamped_def by (intro keep_rules) (auto intro!: keep_rules split: option.split)
  ultimately show ?thesis
    unfolding temp_build_def carry_forward_tags_override_def
    by (auto intro!: keep_rules assms split: option.split)
qed

text \<open>The worker.\<close>

lemma event: "keeps I (handle_event workers m ev)"
  unfolding handle_event_def event_key_op_def
  by (auto intro!: keep_rules split: watch_kind.split option.split)

lemma worked: "I w \<Longrightarrow> I (work_on workers m it w)"
  using keepsD [OF event] keepsD [OF tag_edit]
  by (auto simp: work_on_def handle_tag_edit_def split: work_item.split prod.split sum.split) (metis snd_conv)+

lemma worker: "I w \<Longrightarrow> I (snd (worker_loop workers q w))"
  by (induction q arbitrary: w) (simp_all add: worked split_paired_all)

end


section \<open>Every version\<close>

text \<open>A property of every database a connection has shown, shows or is working on.\<close>

definition holds_in :: "(db \<Rightarrow> bool) \<Rightarrow> writer \<Rightarrow> bool" where
  "holds_in P w \<longleftrightarrow> P (working w) \<and> P (committed w) \<and> list_all P (versions w)"

lemma holds_in_connection: "connection_invariant (holds_in P) P"
  by unfold_locales (simp_all add: holds_in_def commit_def rollback_def)

text \<open>The versions are the history of the committed database: nothing is taken back, and the last one is in force.\<close>

definition follows :: "writer \<Rightarrow> writer \<Rightarrow> bool" where
  "follows w0 w \<longleftrightarrow> (\<exists>ds. versions w = versions w0 @ ds \<and> committed w = last (committed w0 # ds))"

lemma follows_connection: "connection_invariant (follows w0) (\<lambda>_. True)"
proof unfold_locales
  fix w
  assume "follows w0 w"
  then obtain ds where "versions w = versions w0 @ ds" by (auto simp: follows_def)
  then show "follows w0 (commit w)" unfolding follows_def by (intro exI [of _ "ds @ [working w]"]) simp
qed (simp_all add: follows_def rollback_def)

interpretation log: statement_invariant "follows w0" "\<lambda>_. True"
  by (rule statement_invariant.intro [OF follows_connection], unfold_locales) simp_all

text \<open>No statement touches the version stamp or the list of tables.\<close>

definition stamped_as :: "db \<Rightarrow> db \<Rightarrow> bool" where
  "stamped_as d0 d \<longleftrightarrow> schema_version d = schema_version d0 \<and> db_tables d = db_tables d0"

interpretation stamp: statement_invariant "holds_in (stamped_as d0)" "stamped_as d0"
  by (rule statement_invariant.intro [OF holds_in_connection], unfold_locales)
    (auto simp: stamped_as_def insert_member_def upsert_file_def set_has_error_def delete_files_def Let_def
      insert_embedded_def upsert_override_def insert_override_def split: if_splits option.splits)

section \<open>Conformance to the schema\<close>

text \<open>\<open>schema.sql\<close>: every primary key and \<open>UNIQUE\<close> constraint, every foreign key, and the columns that are bound
  as 64-bit integers from what a file or a source says.\<close>

definition facts_fit :: "file_facts \<Rightarrow> bool" where
  "facts_fit ff \<longleftrightarrow>
     list_all fits_sqlite
       [ff_size_bytes ff, ff_last_modified_ns ff, ff_cataloged_at_ns ff, ff_start_time_ns ff,
        ff_end_time_ns ff, ff_chunk_count ff]"

definition row_conforms :: "db \<Rightarrow> file_row \<Rightarrow> bool" where
  "row_conforms d r \<longleftrightarrow> file_fks d (f_ident r) (f_facts r) \<and> facts_fit (f_facts r)"

definition conforms :: "db \<Rightarrow> bool" where
  "conforms d \<longleftrightarrow>
     tables_wf d \<and> members_wf d \<and> tags_wf d \<and> distinct (map fst (catalog_failures d)) \<and>
     distinct (map f_id (files d)) \<and> distinct (map f_ident (files d)) \<and> list_all (row_conforms d) (files d)"

text \<open>The ids that foreign keys refer to.\<close>

definition refs_grow :: "db \<Rightarrow> db \<Rightarrow> bool" where
  "refs_grow d d' \<longleftrightarrow>
     snd ` set (customers d) \<subseteq> snd ` set (customers d') \<and> snd ` set (sites d) \<subseteq> snd ` set (sites d') \<and>
     snd ` set (robots d) \<subseteq> snd ` set (robots d') \<and> snd ` set (sources d) \<subseteq> snd ` set (sources d') \<and>
     snd ` set (topic_names d) \<subseteq> snd ` set (topic_names d') \<and> snd ` set (schemas d) \<subseteq> snd ` set (schemas d') \<and>
     snd ` set (topic_sets d) \<subseteq> snd ` set (topic_sets d')"

lemma row_conforms_grow: "refs_grow d d' \<Longrightarrow> row_conforms d r \<Longrightarrow> row_conforms d' r"
  by (auto simp: row_conforms_def file_fks_def refs_grow_def split_beta)

lemma members_grow:
  "refs_grow d d' \<Longrightarrow> topic_set_members d' = topic_set_members d \<Longrightarrow> members_wf d \<Longrightarrow> members_wf d'"
proof -
  assume g: "refs_grow d d'" and same: "topic_set_members d' = topic_set_members d" and wf: "members_wf d"
  have "list_all (\<lambda>(s, t, c). s \<in> snd ` set (topic_sets d') \<and> t \<in> snd ` set (topic_names d') \<and>
      c \<in> snd ` set (schemas d')) (topic_set_members d)"
    using wf unfolding members_wf_def
    by (elim conjE, elim list.pred_mono_strong) (use g in \<open>auto simp: refs_grow_def\<close>)
  then show "members_wf d'" using wf by (simp add: members_wf_def same)
qed

lemma conforms_grow:
  assumes "conforms d" and "refs_grow d d'" and "tables_wf d'"
    and "files d' = files d" and "topic_set_members d' = topic_set_members d" and "tags_embedded d' = tags_embedded d"
    and "tags_override d' = tags_override d" and "catalog_failures d' = catalog_failures d"
  shows "conforms d'"
proof -
  have "list_all (row_conforms d') (files d)"
    using assms(1) row_conforms_grow [OF assms(2)] by (auto simp: conforms_def elim: list.pred_mono_strong)
  then show ?thesis
    using assms members_grow [OF assms(2,5)] by (simp add: conforms_def tags_wf_def)
qed

lemma in_insert_or_ignore: "(x, i) \<in> set (insert_or_ignore k t) \<Longrightarrow> (x, i) \<in> set t \<or> x = k \<and> map_of t k = None"
  by (auto simp: insert_or_ignore_def split: option.splits)

lemma unique_table_append:
  "unique_table t \<Longrightarrow> map_of t k = None \<Longrightarrow> unique_table (t @ [(k, next_rowid (map snd t))])"
  using unique_table_insert_or_ignore [of t k] by (simp add: insert_or_ignore_def)

text \<open>File rows: the constraint on a row does not depend on the other rows.\<close>

lemma tags_wf_files: "tags_wf d \<Longrightarrow> f_id ` set (files d) \<subseteq> f_id ` set rs \<Longrightarrow> tags_wf (d\<lparr>files := rs\<rparr>)"
  by (simp add: tags_wf_def) (meson subset_trans)

lemma conforms_upsert:
  assumes c: "conforms d" and up: "upsert_file i ff d = Inr d'"
  shows "conforms d'"
proof -
  have checks: "facts_fit ff" "file_fks d i ff" using up by (auto simp: upsert_file_def facts_fit_def split: if_splits)
  have files: "distinct (map f_id (files d))" "distinct (map f_ident (files d))" "list_all (row_conforms d) (files d)"
    using c by (simp_all add: conforms_def)
  have same: "row_conforms (d\<lparr>files := rs\<rparr>) = row_conforms d" "tables_wf (d\<lparr>files := rs\<rparr>) = tables_wf d"
    "members_wf (d\<lparr>files := rs\<rparr>) = members_wf d" for rs
    by (simp_all add: fun_eq_iff row_conforms_def file_fks_def tables_wf_def members_wf_def site_fk_def robot_fk_def)
  show ?thesis
  proof (cases "select_file i d")
    case None
    let ?r = "\<lparr>f_id = next_rowid (map f_id (files d)), f_ident = i, f_facts = ff\<rparr>"
    have d': "d' = d\<lparr>files := files d @ [?r]\<rparr>" using up checks None by (simp add: upsert_file_def split: if_splits)
    have "i \<notin> f_ident ` set (files d)" using None by (auto simp: select_file_def find_None_iff)
    moreover have "f_id ?r \<notin> f_id ` set (files d)" using next_rowid_fresh [of "map f_id (files d)"] by simp
    moreover have "row_conforms d ?r" using checks by (simp add: row_conforms_def)
    moreover have "tags_wf (d\<lparr>files := files d @ [?r]\<rparr>)" using c by (intro tags_wf_files) (auto simp: conforms_def)
    ultimately show ?thesis using c files by (simp add: d' conforms_def same)
  next
    case (Some r)
    let ?g = "\<lambda>r. if f_ident r = i then r\<lparr>f_facts := ff\<rparr> else r"
    have d': "d' = d\<lparr>files := map ?g (files d)\<rparr>" using up checks Some by (simp add: upsert_file_def split: if_splits)
    have ids: "map f_id (map ?g (files d)) = map f_id (files d)" "map f_ident (map ?g (files d)) = map f_ident (files d)"
      by simp_all
    have "list_all (row_conforms d) (map ?g (files d))"
      using files(3) checks by (auto simp: list_all_iff row_conforms_def)
    moreover have "f_id ` set (map ?g (files d)) = f_id ` set (files d)" using ids(1) by (metis list.set_map)
    then have "tags_wf (d\<lparr>files := map ?g (files d)\<rparr>)" using c by (intro tags_wf_files) (auto simp: conforms_def)
    ultimately show ?thesis using c files by (simp add: d' conforms_def same ids del: map_map set_map)
  qed
qed

lemma insert_or_ignore_growth:
  "refs_grow d (customers_update (insert_or_ignore k) d)" "refs_grow d (sites_update (insert_or_ignore k') d)"
  "refs_grow d (robots_update (insert_or_ignore k') d)" "refs_grow d (sources_update (insert_or_ignore k) d)"
  "refs_grow d (topic_names_update (insert_or_ignore k) d)" "refs_grow d (schemas_update (insert_or_ignore nm) d)"
  by (simp_all add: refs_grow_def ids_insert_or_ignore)

lemma unreferenced_tables:
  assumes "tables_wf d"
  shows "tables_wf (sources_update (insert_or_ignore k) d)" "tables_wf (topic_names_update (insert_or_ignore k) d)"
    "tables_wf (schemas_update (insert_or_ignore nm) d)"
  using assms by (simp_all add: tables_wf_def site_fk_def robot_fk_def)

lemma referring_tables:
  assumes "tables_wf d"
  shows "tables_wf (customers_update (insert_or_ignore k) d)"
    and "map_of (sites d) k' \<noteq> None \<or> site_fk d k' \<Longrightarrow> tables_wf (sites_update (insert_or_ignore k') d)"
    and "map_of (robots d) k' \<noteq> None \<or> robot_fk d k' \<Longrightarrow> tables_wf (robots_update (insert_or_ignore k') d)"
proof -
  note wf = assms [unfolded tables_wf_def]
  have mono: "list_all (\<lambda>(k, _). fst k \<in> snd ` set t) u \<Longrightarrow> list_all (\<lambda>(k, _). fst k \<in> snd ` set (insert_or_ignore key t)) u"
    for u :: "(rowid \<times> string) lookup_table" and t :: "'z lookup_table" and key
    using ids_insert_or_ignore [of t key] by (fastforce simp: list_all_iff)
  have add: "list_all (\<lambda>(k, _). Q k) (insert_or_ignore key t)"
    if "list_all (\<lambda>(k, _). Q k) t" "map_of t key \<noteq> None \<or> Q key" for Q key and t :: "'z lookup_table"
    using that in_insert_or_ignore [of _ _ key t] by (fastforce simp: list_all_iff)
  show "tables_wf (customers_update (insert_or_ignore k) d)"
    using wf mono [of "customers d" "sites d" k] by (simp add: tables_wf_def site_fk_def robot_fk_def)
  show "tables_wf (sites_update (insert_or_ignore k') d)" if "map_of (sites d) k' \<noteq> None \<or> site_fk d k'"
    using wf add [of "site_fk d" "sites d" k', OF _ that] mono [of "sites d" "robots d" k']
    by (simp add: tables_wf_def site_fk_def robot_fk_def)
  show "tables_wf (robots_update (insert_or_ignore k') d)" if "map_of (robots d) k' \<noteq> None \<or> robot_fk d k'"
    using wf add [of "robot_fk d" "robots d" k', OF _ that]
    by (simp add: tables_wf_def site_fk_def robot_fk_def)
qed

lemma conforms_names:
  assumes "conforms d" and "names d' = names d"
  shows "conforms d' \<longleftrightarrow> tags_wf d' \<and> distinct (map fst (catalog_failures d')) \<and>
    distinct (map f_id (files d')) \<and> distinct (map f_ident (files d')) \<and> list_all (row_conforms d) (files d')"
  using assms(1) names_frame [OF assms(2)] by (simp add: conforms_def row_conforms_def [abs_def])

lemma conforms_files:
  assumes "conforms d"
  shows "tags_wf d" "distinct (map fst (catalog_failures d))" "distinct (map f_id (files d))"
    "distinct (map f_ident (files d))" "list_all (row_conforms d) (files d)"
  using assms by (simp_all add: conforms_def)

lemma conforms_flag:
  assumes c: "conforms d"
  shows "conforms (set_has_error i b d)"
proof -
  let ?g = "\<lambda>r. if f_id r = i then r\<lparr>f_facts := (f_facts r)\<lparr>ff_has_error := b\<rparr>\<rparr> else r"
  note files = conforms_files [OF c]
  have ids: "map f_id (map ?g (files d)) = map f_id (files d)" "map f_ident (map ?g (files d)) = map f_ident (files d)"
    by simp_all
  have "f_id ` set (map ?g (files d)) = f_id ` set (files d)" using ids(1) by (metis list.set_map)
  then have "tags_wf (d\<lparr>files := map ?g (files d)\<rparr>)" using files(1) by (intro tags_wf_files) simp_all
  moreover have "row_conforms d (?g r) = row_conforms d r" for r
    by (simp add: row_conforms_def file_fks_def facts_fit_def)
  then have "list_all (row_conforms d) (map ?g (files d))" using files(5) by (simp add: list.pred_map comp_def)
  ultimately show ?thesis
    using files ids by (simp add: conforms_names [OF c] names_def set_has_error_def del: map_map)
qed

lemma conforms_delete:
  assumes c: "conforms d"
  shows "conforms (delete_files Q d)"
  using conforms_files [OF c] delete_files_tags_wf [of d Q]
  by (simp add: conforms_names [OF c] distinct_map_filter_fst) (auto simp: list_all_iff)

lemma conforms_new_set:
  assumes c: "conforms d" and new: "map_of (topic_sets d) k = None"
  shows "conforms (topic_sets_update (\<lambda>t. t @ [(k, next_rowid (map snd t))]) d)"
proof (rule conforms_grow [OF c])
  show "tables_wf (topic_sets_update (\<lambda>t. t @ [(k, next_rowid (map snd t))]) d)"
    using c unique_table_append [OF _ new] by (simp add: conforms_def tables_wf_def site_fk_def robot_fk_def)
qed (auto simp: refs_grow_def)

lemma conforms_new_member:
  assumes c: "conforms d" and ins: "insert_member i m d = Inr d'"
  shows "conforms d'"
proof -
  have d': "d' = d\<lparr>topic_set_members := topic_set_members d @ [(i, m)]\<rparr>"
    and new: "\<not> list_ex (\<lambda>(s, t, _). s = i \<and> t = fst m) (topic_set_members d)"
    and fk: "i \<in> snd ` set (topic_sets d)" "fst m \<in> snd ` set (topic_names d)" "snd m \<in> snd ` set (schemas d)"
    using ins by (auto simp: insert_member_def split: if_splits)
  have "members_wf d" using c by (simp add: conforms_def)
  then have "members_wf d'"
    using new fk by (cases m) (auto simp: d' members_wf_def list_ex_iff list_all_iff)
  moreover have "tables_wf d'" "row_conforms d' = row_conforms d" "tags_wf d'" "files d' = files d"
      "catalog_failures d' = catalog_failures d"
    using c by (simp_all add: d' conforms_def tables_wf_def site_fk_def robot_fk_def row_conforms_def [abs_def] file_fks_def tags_wf_def)
  ultimately show ?thesis using c by (simp add: conforms_def)
qed

text \<open>Tags, failures and the stamp.\<close>

lemma conforms_tags:
  assumes c: "conforms d" and d': "d' = d\<lparr>tags_embedded := e, tags_override := t\<rparr>" and "tags_wf d'"
  shows "conforms d'"
  using conforms_files [OF c] assms(3) by (simp add: conforms_names [OF c] d' names_def)

lemma conforms_tag_statements:
  assumes c: "conforms d"
  shows "conforms (tags_embedded_update (filter (\<lambda>((j, _), _). j \<noteq> i)) d)"
    and "insert_embedded i kv d = Inr d' \<Longrightarrow> conforms d'"
    and "upsert_override i k v now d = Inr d' \<Longrightarrow> conforms d'"
    and "insert_override i k v now d = Inr d' \<Longrightarrow> conforms d'"
    and "conforms (d\<lparr>tags_override := delete_key (i, k) (tags_override d)\<rparr>)"
proof -
  note tags = conforms_files(1) [OF c]
  have sub: "fst ` fst ` set (filter Q (tags_embedded d)) \<subseteq> f_id ` set (files d)" for Q
  proof -
    have "fst ` fst ` set (filter Q (tags_embedded d)) \<subseteq> fst ` fst ` set (tags_embedded d)" by (intro image_mono) simp
    then show ?thesis using tags unfolding tags_wf_def by (meson subset_trans)
  qed
  have up: "d' = d\<lparr>tags_override := upsert (i, k) (v, now) (tags_override d)\<rparr>" "i \<in> f_id ` set (files d)"
    if "upsert_override i k v now d = Inr d'" for d'
  proof -
    have "i \<in> fst ` fst ` set (tags_override d)" if "(i, k) \<in> fst ` set (tags_override d)"
      by (rule image_eqI [OF _ that]) simp
    moreover have "(i, k) \<in> fst ` set (tags_override d) \<or> i \<in> f_id ` set (files d)"
      using that by (simp only: upsert_override_def split: if_splits) simp_all
    ultimately show "i \<in> f_id ` set (files d)" using tags unfolding tags_wf_def by blast
  qed (use that in \<open>simp add: upsert_override_def split: if_splits\<close>)
  show "conforms (tags_embedded_update (filter (\<lambda>((j, _), _). j \<noteq> i)) d)"
    by (rule conforms_tags [OF c, where e = "filter (\<lambda>((j, _), _). j \<noteq> i) (tags_embedded d)" and t = "tags_override d"])
      (use tags sub [of "\<lambda>((j, _), _). j \<noteq> i"] in \<open>simp_all add: tags_wf_def distinct_map_filter_fst\<close>)
  show "conforms d'" if ins: "insert_embedded i kv d = Inr d'"
  proof (rule conforms_tags [OF c, where e = "tags_embedded d @ [((i, fst kv), snd kv)]" and t = "tags_override d"])
    show d': "d' = d\<lparr>tags_embedded := tags_embedded d @ [((i, fst kv), snd kv)], tags_override := tags_override d\<rparr>"
      using ins by (simp add: insert_embedded_def split: if_splits)
    show "tags_wf d'" using ins tags by (simp add: d' insert_embedded_def tags_wf_def split: if_splits)
  qed
  show "conforms d'" if ins: "insert_override i k v now d = Inr d'"
  proof (rule conforms_tags [OF c, where e = "tags_embedded d" and t = "tags_override d @ [((i, k), (v, now))]"])
    show d': "d' = d\<lparr>tags_embedded := tags_embedded d, tags_override := tags_override d @ [((i, k), (v, now))]\<rparr>"
      using ins by (simp add: insert_override_def split: if_splits)
    show "tags_wf d'" using ins tags by (simp add: d' insert_override_def tags_wf_def split: if_splits)
  qed
  show "upsert_override i k v now d = Inr d' \<Longrightarrow> conforms d'"
    by (rule conforms_tags [OF c, where e = "tags_embedded d" and t = "upsert (i, k) (v, now) (tags_override d)"])
      (use tags up in \<open>simp_all add: tags_wf_def\<close>)
  show "conforms (d\<lparr>tags_override := delete_key (i, k) (tags_override d)\<rparr>)"
  proof (rule conforms_tags [OF c, where e = "tags_embedded d" and t = "delete_key (i, k) (tags_override d)"])
    have "fst ` fst ` set (delete_key (i, k) (tags_override d)) \<subseteq> fst ` fst ` set (tags_override d)"
      by (intro image_mono) (auto simp: delete_key_def)
    then have "fst ` fst ` set (delete_key (i, k) (tags_override d)) \<subseteq> f_id ` set (files d)"
      using tags unfolding tags_wf_def by (meson subset_trans)
    then show "tags_wf (d\<lparr>tags_override := delete_key (i, k) (tags_override d)\<rparr>)"
      using tags by (simp add: tags_wf_def del: fst_delete_key)
  qed simp
qed

lemma conforms_notes:
  assumes c: "conforms d"
  shows "conforms (d\<lparr>catalog_failures := upsert k err (catalog_failures d)\<rparr>)"
    and "conforms (catalog_failures_update (delete_key k) d)" and "conforms (d\<lparr>build_metadata := b\<rparr>)"
  using conforms_files [OF c] by (simp_all add: conforms_names [OF c] names_def tags_wf_def)

lemma conforms_lookups:
  assumes c: "conforms d"
  shows "conforms (customers_update (insert_or_ignore k) d)"
    and "map_of (sites d) k' \<noteq> None \<or> site_fk d k' \<Longrightarrow> conforms (sites_update (insert_or_ignore k') d)"
    and "map_of (robots d) k' \<noteq> None \<or> robot_fk d k' \<Longrightarrow> conforms (robots_update (insert_or_ignore k') d)"
    and "conforms (sources_update (insert_or_ignore k) d)" and "conforms (topic_names_update (insert_or_ignore k) d)"
    and "conforms (schemas_update (insert_or_ignore nm) d)"
proof -
  have t: "tables_wf d" using c by (simp add: conforms_def)
  note grow = conforms_grow [OF c insert_or_ignore_growth(1)] conforms_grow [OF c insert_or_ignore_growth(2)]
    conforms_grow [OF c insert_or_ignore_growth(3)] conforms_grow [OF c insert_or_ignore_growth(4)]
    conforms_grow [OF c insert_or_ignore_growth(5)] conforms_grow [OF c insert_or_ignore_growth(6)]
  show "conforms (customers_update (insert_or_ignore k) d)" using referring_tables(1) [OF t] by (intro grow(1)) simp_all
  show "conforms (sources_update (insert_or_ignore k) d)" "conforms (topic_names_update (insert_or_ignore k) d)"
    "conforms (schemas_update (insert_or_ignore nm) d)"
    using unreferenced_tables [OF t] by (intro grow(4-6); simp)+
  show "conforms (sites_update (insert_or_ignore k') d)" if "map_of (sites d) k' \<noteq> None \<or> site_fk d k'"
    using referring_tables(2) [OF t that] by (intro grow(2)) simp_all
  show "conforms (robots_update (insert_or_ignore k') d)" if "map_of (robots d) k' \<noteq> None \<or> robot_fk d k'"
    using referring_tables(3) [OF t that] by (intro grow(3)) simp_all
qed

interpretation schema: statement_invariant "holds_in conforms" conforms
  by (rule statement_invariant.intro [OF holds_in_connection], unfold_locales)
    (rule conforms_lookups conforms_new_set conforms_new_member conforms_upsert conforms_flag conforms_delete
      conforms_tag_statements conforms_notes, assumption+)+


text \<open>A writer whose cache holds an id that no row has: files are refused, and nothing dangles.\<close>

definition poisoned_writer :: writer where
  "poisoned_writer = (connect empty_db (\<lambda>n. 2 ^ 70))\<lparr>cache := (load_caches empty_db)\<lparr>c_customer := [''acme'' \<mapsto> 99]\<rparr>\<rparr>"


end
