(* ===== verification/Writer_Lock.thy ===== *)
theory Writer_Lock
  imports Catalog_Prelude
begin

text \<open>
  \<open>writer_lock.py\<close>: the lock that keeps a second builder off the same database. The kernel's part is a
  table of open file descriptions and of the \<open>flock\<close> holder of each lock file (the file is never unlinked,
  so a path is always the same file). System calls may also fail for reasons of their own, given by
  \<open>faults\<close>. The theorems are about any number of processes that acquire, release and die in any order.
\<close>

section \<open>Acquiring and releasing\<close>

record kernel =
  k_holder :: "string \<rightharpoonup> nat"
  k_text :: "string \<Rightarrow> string"
  k_open :: "nat \<rightharpoonup> string"
  k_next :: nat

record faults =
  open_fault :: "exn option"
  flock_fault :: "int option"
  pread_fault :: bool
  truncate_fault :: bool
  pwrite_fault :: bool

definition no_faults :: faults where
  "no_faults =
     \<lparr>open_fault = None, flock_fault = None, pread_fault = False, truncate_fault = False, pwrite_fault = False\<rparr>"

definition EACCES :: int where "EACCES = 13"
definition EAGAIN :: int where "EAGAIN = 11"

record writer_lock =
  wl_path :: string
  wl_fd :: "nat option"

definition LOCK_SUFFIX :: string where
  "LOCK_SUFFIX = ''.writer.lock''"

definition os_open :: "string \<Rightarrow> kernel \<Rightarrow> nat \<times> kernel" where
  "os_open path k = (k_next k, k\<lparr>k_open := (k_open k)(k_next k \<mapsto> path), k_next := Suc (k_next k)\<rparr>)"

text \<open>\<open>flock(fd, LOCK_EX | LOCK_NB)\<close> fails with \<open>EAGAIN\<close> when another description holds the file.\<close>

definition flock_nb :: "faults \<Rightarrow> nat \<Rightarrow> string \<Rightarrow> kernel \<Rightarrow> int + kernel" where
  "flock_nb fl fd path k =
     (case flock_fault fl of
        Some errno \<Rightarrow> Inl errno
      | None \<Rightarrow> if k_holder k path \<noteq> None then Inl EAGAIN else Inr (k\<lparr>k_holder := (k_holder k)(path \<mapsto> fd)\<rparr>))"

text \<open>Dropping a description's lock, by \<open>LOCK_UN\<close> or by closing it.\<close>

definition unlock :: "nat \<Rightarrow> kernel \<Rightarrow> kernel" where
  "unlock fd k = k\<lparr>k_holder := (\<lambda>p. if k_holder k p = Some fd then None else k_holder k p)\<rparr>"

definition os_close :: "nat \<Rightarrow> kernel \<Rightarrow> kernel" where
  "os_close fd k = (unlock fd k)\<lparr>k_open := (k_open k)(fd := None)\<rparr>"

definition is_space :: "char \<Rightarrow> bool" where
  "is_space c \<longleftrightarrow> of_char c \<in> ({9, 10, 11, 12, 13, 28, 29, 30, 31, 32} :: nat set)"

definition strip :: "string \<Rightarrow> string" where
  "strip s = rev (dropWhile is_space (rev (dropWhile is_space s)))"

text \<open>The holder named in the diagnostic; the message is given up to the words of the advice.\<close>

definition holder_name :: "faults \<Rightarrow> string \<Rightarrow> kernel \<Rightarrow> string" where
  "holder_name fl path k =
     (let data = strip (take 64 (k_text k path)) in
      if pread_fault fl \<or> data = [] then ''unknown pid'' else ''pid '' @ data)"

definition writer_lock_error :: "string \<Rightarrow> string \<Rightarrow> exn" where
  "writer_lock_error holder path = Exn ''WriterLockError''
     (''another catalog builder ('' @ holder @ '') already holds the writer lock '' @ path)"

definition os_error :: "int \<Rightarrow> exn" where
  "os_error errno = Exn ''OSError'' (show_int errno)"

definition write_pid :: "faults \<Rightarrow> nat \<Rightarrow> string \<Rightarrow> kernel \<Rightarrow> kernel" where
  "write_pid fl pid path k =
     (if truncate_fault fl then k
      else if pwrite_fault fl then k\<lparr>k_text := (k_text k)(path := [])\<rparr>
      else k\<lparr>k_text := (k_text k)(path := show_nat pid @ [char_of (10 :: nat)])\<rparr>)"

definition acquire_writer_lock ::
  "faults \<Rightarrow> nat \<Rightarrow> string \<Rightarrow> kernel \<Rightarrow> (exn + writer_lock) \<times> kernel"
where
  "acquire_writer_lock fl pid db_path k =
     (let lock_path = db_path @ LOCK_SUFFIX in
      case open_fault fl of
        Some e \<Rightarrow> (Inl e, k)
      | None \<Rightarrow>
          let (fd, k) = os_open lock_path k in
          (case flock_nb fl fd lock_path k of
             Inl errno \<Rightarrow>
               let holder = holder_name fl lock_path k; k = os_close fd k in
               if errno \<in> {EAGAIN, EACCES} then (Inl (writer_lock_error holder lock_path), k)
               else (Inl (os_error errno), k)
           | Inr k \<Rightarrow> (Inr \<lparr>wl_path = lock_path, wl_fd = Some fd\<rparr>, write_pid fl pid lock_path k)))"

definition release :: "writer_lock \<Rightarrow> kernel \<Rightarrow> writer_lock \<times> kernel" where
  "release l k =
     (case wl_fd l of
        None \<Rightarrow> (l, k)
      | Some fd \<Rightarrow> (l\<lparr>wl_fd := None\<rparr>, os_close fd (unlock fd k)))"

section \<open>Builders that come and go\<close>

text \<open>The lock object of each running process, if it got one.\<close>

record system =
  sys_kernel :: kernel
  sys_procs :: "nat \<rightharpoonup> writer_lock"

inductive lock_step :: "system \<Rightarrow> system \<Rightarrow> bool" where
  acquired:
    "sys_procs s p = None \<Longrightarrow> acquire_writer_lock fl p db (sys_kernel s) = (Inr l, k) \<Longrightarrow>
     lock_step s \<lparr>sys_kernel = k, sys_procs = (sys_procs s)(p \<mapsto> l)\<rparr>"
| refused:
    "sys_procs s p = None \<Longrightarrow> acquire_writer_lock fl p db (sys_kernel s) = (Inl e, k) \<Longrightarrow>
     lock_step s (s\<lparr>sys_kernel := k\<rparr>)"
| released:
    "sys_procs s p = Some l \<Longrightarrow> release l (sys_kernel s) = (l', k) \<Longrightarrow>
     lock_step s \<lparr>sys_kernel = k, sys_procs = (sys_procs s)(p \<mapsto> l')\<rparr>"
| died:
    "sys_procs s p = Some l \<Longrightarrow>
     lock_step s
       \<lparr>sys_kernel = (case wl_fd l of None \<Rightarrow> sys_kernel s | Some fd \<Rightarrow> os_close fd (sys_kernel s)),
        sys_procs = (sys_procs s)(p := None)\<rparr>"

inductive_cases lock_stepE: "lock_step s s'"

definition boot :: "(string \<Rightarrow> string) \<Rightarrow> system" where
  "boot texts =
     \<lparr>sys_kernel = \<lparr>k_holder = Map.empty, k_text = texts, k_open = Map.empty, k_next = 0\<rparr>,
      sys_procs = Map.empty\<rparr>"

inductive lock_reachable :: "system \<Rightarrow> bool" where
  booted: "lock_reachable (boot texts)"
| stepped: "lock_reachable s \<Longrightarrow> lock_step s s' \<Longrightarrow> lock_reachable s'"

text \<open>Process \<open>p\<close> holds the lock file \<open>path\<close> through the description \<open>fd\<close>.\<close>

definition holds :: "system \<Rightarrow> nat \<Rightarrow> string \<Rightarrow> nat \<Rightarrow> bool" where
  "holds s p path fd \<longleftrightarrow> (\<exists>l. sys_procs s p = Some l \<and> wl_path l = path \<and> wl_fd l = Some fd)"

definition lock_inv :: "system \<Rightarrow> bool" where
  "lock_inv s \<longleftrightarrow>
     (\<forall>path fd. k_holder (sys_kernel s) path = Some fd \<longleftrightarrow> (\<exists>p. holds s p path fd)) \<and>
     (\<forall>p q path path' fd. holds s p path fd \<longrightarrow> holds s q path' fd \<longrightarrow> p = q \<and> path = path') \<and>
     (\<forall>p path fd. holds s p path fd \<longrightarrow> fd < k_next (sys_kernel s))"

section \<open>Mutual exclusion\<close>

lemma kernel_simps [simp]:
  "k_holder (os_close fd k) = (\<lambda>p. if k_holder k p = Some fd then None else k_holder k p)"
  "k_next (os_close fd k) = k_next k" "k_next (unlock fd k) = k_next k"
  "k_holder (unlock fd k) = (\<lambda>p. if k_holder k p = Some fd then None else k_holder k p)"
  "k_holder (write_pid fl pid path k) = k_holder k" "k_next (write_pid fl pid path k) = k_next k"
  by (auto simp: os_close_def unlock_def write_pid_def)

lemma lock_invI:
  assumes "\<And>path fd. k_holder (sys_kernel s) path = Some fd \<longleftrightarrow> (\<exists>p. holds s p path fd)"
    and "\<And>p q path path' fd. holds s p path fd \<Longrightarrow> holds s q path' fd \<Longrightarrow> p = q \<and> path = path'"
    and "\<And>p path fd. holds s p path fd \<Longrightarrow> fd < k_next (sys_kernel s)"
  shows "lock_inv s"
  using assms unfolding lock_inv_def by blast

lemma lock_invD:
  assumes "lock_inv s"
  shows "k_holder (sys_kernel s) path = Some fd \<longleftrightarrow> (\<exists>p. holds s p path fd)"
    and "holds s p path fd \<Longrightarrow> holds s q path' fd \<Longrightarrow> p = q \<and> path = path'"
    and "holds s p path fd \<Longrightarrow> fd < k_next (sys_kernel s)"
  using assms unfolding lock_inv_def by blast+

text \<open>What an acquisition does to the table of holders.\<close>

lemma acquire_Inr:
  assumes "acquire_writer_lock fl pid db k = (Inr l, k')"
  shows "l = \<lparr>wl_path = db @ LOCK_SUFFIX, wl_fd = Some (k_next k)\<rparr>"
    and "k_holder k (db @ LOCK_SUFFIX) = None"
    and "k_holder k' = (k_holder k)(db @ LOCK_SUFFIX \<mapsto> k_next k)" and "k_next k' = Suc (k_next k)"
  using assms
  by (auto simp: acquire_writer_lock_def Let_def os_open_def flock_nb_def split: option.splits if_splits)

lemma acquire_Inl:
  assumes "acquire_writer_lock fl pid db k = (Inl e, k')"
    and "\<And>path fd. k_holder k path = Some fd \<Longrightarrow> fd < k_next k"
  shows "k_holder k' = k_holder k" and "k_next k \<le> k_next k'"
proof -
  have "k_holder k path \<noteq> Some (k_next k)" for path using assms(2) by blast
  then show "k_holder k' = k_holder k" and "k_next k \<le> k_next k'"
    using assms(1)
    by (auto simp: acquire_writer_lock_def Let_def os_open_def flock_nb_def fun_eq_iff split: option.splits if_splits)
qed

lemma release_cases:
  "release l k = (l', k') \<Longrightarrow>
    (wl_fd l = None \<and> l' = l \<and> k' = k) \<or>
    (\<exists>fd. wl_fd l = Some fd \<and> wl_fd l' = None \<and> k_next k' = k_next k \<and>
      k_holder k' = (\<lambda>p. if k_holder k p = Some fd then None else k_holder k p))"
  by (auto simp: release_def fun_eq_iff split: option.splits)

text \<open>A process gives up description \<open>fd\<close>, by releasing the lock or by dying.\<close>

lemma lock_inv_drop:
  assumes inv: "lock_inv s" and p: "sys_procs s p = Some l" "wl_fd l = Some fd"
    and k: "k_next k = k_next (sys_kernel s)"
      "k_holder k = (\<lambda>q. if k_holder (sys_kernel s) q = Some fd then None else k_holder (sys_kernel s) q)"
    and others: "\<And>q. q \<noteq> p \<Longrightarrow> procs q = sys_procs s q" and gone: "\<And>l'. procs p = Some l' \<Longrightarrow> wl_fd l' = None"
  shows "lock_inv \<lparr>sys_kernel = k, sys_procs = procs\<rparr>"
proof -
  let ?s = "\<lparr>sys_kernel = k, sys_procs = procs\<rparr>"
  have own: "holds s p (wl_path l) fd" using p by (simp add: holds_def)
  have holds: "holds ?s q path fd' \<longleftrightarrow> holds s q path fd' \<and> fd' \<noteq> fd" for q path fd'
  proof (cases "q = p")
    case True
    then show ?thesis using gone p by (auto simp: holds_def)
  next
    case False
    then have "holds ?s q path fd' = holds s q path fd'" using others by (simp add: holds_def)
    moreover have "\<not> holds s q path fd" using lock_invD(2) [OF inv own] False by blast
    ultimately show ?thesis by blast
  qed
  show ?thesis
  proof (rule lock_invI)
    fix path fd'
    have "k_holder (sys_kernel s) path = Some fd' \<longleftrightarrow> (\<exists>q. holds s q path fd')" by (rule lock_invD(1) [OF inv])
    then show "k_holder (sys_kernel ?s) path = Some fd' \<longleftrightarrow> (\<exists>q. holds ?s q path fd')"
      by (auto simp: holds k)
  next
    fix q q' path path' fd'
    assume "holds ?s q path fd'" "holds ?s q' path' fd'"
    then show "q = q' \<and> path = path'" using lock_invD(2) [OF inv] by (auto simp: holds)
  next
    fix q path fd'
    assume "holds ?s q path fd'"
    then show "fd' < k_next (sys_kernel ?s)" using lock_invD(3) [OF inv] by (auto simp: holds k)
  qed
qed

lemma lock_inv_acquired:
  assumes inv: "lock_inv s" and p: "sys_procs s p = None"
    and a: "acquire_writer_lock fl p db (sys_kernel s) = (Inr l, k)"
  shows "lock_inv \<lparr>sys_kernel = k, sys_procs = (sys_procs s)(p \<mapsto> l)\<rparr>"
proof -
  let ?s = "\<lparr>sys_kernel = k, sys_procs = (sys_procs s)(p \<mapsto> l)\<rparr>" and ?fd = "k_next (sys_kernel s)"
    and ?path = "db @ LOCK_SUFFIX"
  note acq = acquire_Inr [OF a]
  have holds: "holds ?s q path fd \<longleftrightarrow> (q = p \<and> path = ?path \<and> fd = ?fd) \<or> holds s q path fd" for q path fd
    using p acq(1) by (auto simp: holds_def)
  have fresh: "holds s q path fd \<Longrightarrow> fd < ?fd" "holds s q path fd \<Longrightarrow> path \<noteq> ?path" for q path fd
    using lock_invD(3) [OF inv] lock_invD(1) [OF inv, of ?path fd] acq(2) by auto
  show ?thesis
  proof (rule lock_invI)
    fix path fd
    have "k_holder (sys_kernel s) path = Some fd \<longleftrightarrow> (\<exists>q. holds s q path fd)" by (rule lock_invD(1) [OF inv])
    then show "k_holder (sys_kernel ?s) path = Some fd \<longleftrightarrow> (\<exists>q. holds ?s q path fd)"
      using fresh(2) by (auto simp: holds acq(3))
  next
    fix q q' path path' fd
    assume "holds ?s q path fd" "holds ?s q' path' fd"
    then show "q = q' \<and> path = path'" using lock_invD(2) [OF inv] fresh(1) by (force simp: holds)
  next
    fix q path fd
    assume "holds ?s q path fd"
    then show "fd < k_next (sys_kernel ?s)" using fresh(1) by (force simp: holds acq(4))
  qed
qed

lemma lock_reachable_inv: "lock_reachable s \<Longrightarrow> lock_inv s"
proof (induction rule: lock_reachable.induct)
  case (booted texts)
  show ?case by (simp add: lock_inv_def boot_def holds_def)
next
  case (stepped s s')
  from stepped(2) show ?case
  proof (rule lock_stepE)
    fix p fl db l k
    assume "s' = \<lparr>sys_kernel = k, sys_procs = (sys_procs s)(p \<mapsto> l)\<rparr>" "sys_procs s p = None"
      "acquire_writer_lock fl p db (sys_kernel s) = (Inr l, k)"
    then show ?thesis using lock_inv_acquired stepped.IH by simp
  next
    fix p fl db e k
    assume s': "s' = s\<lparr>sys_kernel := k\<rparr>" and a: "acquire_writer_lock fl p db (sys_kernel s) = (Inl e, k)"
    have "k_holder (sys_kernel s) path = Some fd \<Longrightarrow> fd < k_next (sys_kernel s)" for path fd
      using stepped.IH unfolding lock_inv_def by blast
    note same = acquire_Inl [OF a this]
    have "holds s' q path fd = holds s q path fd" for q path fd by (simp add: s' holds_def)
    then show ?thesis
      using stepped.IH same unfolding lock_inv_def by (auto simp: s') (meson less_le_trans)
  next
    fix p l l' k
    assume s': "s' = \<lparr>sys_kernel = k, sys_procs = (sys_procs s)(p \<mapsto> l')\<rparr>" and p: "sys_procs s p = Some l"
      and r: "release l (sys_kernel s) = (l', k)"
    from release_cases [OF r] show ?thesis
    proof (elim disjE exE conjE)
      assume "l' = l" "k = sys_kernel s"
      then have "s' = s" using p by (simp add: s' fun_upd_idem)
      then show ?thesis using stepped.IH by simp
    next
      fix fd
      assume "wl_fd l = Some fd" "wl_fd l' = None" "k_next k = k_next (sys_kernel s)"
        "k_holder k = (\<lambda>q. if k_holder (sys_kernel s) q = Some fd then None else k_holder (sys_kernel s) q)"
      then show ?thesis unfolding s' by (intro lock_inv_drop [OF stepped.IH p]) auto
    qed
  next
    fix p l
    assume s': "s' = \<lparr>sys_kernel = (case wl_fd l of None \<Rightarrow> sys_kernel s | Some fd \<Rightarrow> os_close fd (sys_kernel s)),
        sys_procs = (sys_procs s)(p := None)\<rparr>" and p: "sys_procs s p = Some l"
    show ?thesis
    proof (cases "wl_fd l")
      case None
      then have "holds s' q path fd = holds s q path fd" for q path fd using p by (auto simp: s' holds_def)
      then show ?thesis using stepped.IH None by (simp add: lock_inv_def s')
    next
      case (Some fd)
      then show ?thesis unfolding s' by (intro lock_inv_drop [OF stepped.IH p]) auto
    qed
  qed
qed

text \<open>A machine on which process 7 holds the lock of one database.\<close>

definition sample_system :: system where
  "sample_system =
     \<lparr>sys_kernel = snd (acquire_writer_lock no_faults 7 ''/db'' (sys_kernel (boot (\<lambda>_. [])))),
      sys_procs = [7 \<mapsto> \<lparr>wl_path = ''/db'' @ LOCK_SUFFIX, wl_fd = Some 0\<rparr>]\<rparr>"

lemma sample_acquired:
  "acquire_writer_lock no_faults 7 ''/db'' (sys_kernel (boot (\<lambda>_. []))) =
    (Inr \<lparr>wl_path = ''/db'' @ LOCK_SUFFIX, wl_fd = Some 0\<rparr>, sys_kernel sample_system)"
  by (simp add: sample_system_def acquire_writer_lock_def Let_def os_open_def flock_nb_def no_faults_def boot_def)

lemma sample_reachable: "lock_reachable sample_system"
proof -
  have "sys_procs (boot (\<lambda>_. [])) 7 = None" by (simp add: boot_def)
  then have "lock_step (boot (\<lambda>_. [])) \<lparr>sys_kernel = sys_kernel sample_system,
      sys_procs = (sys_procs (boot (\<lambda>_. [])))(7 \<mapsto> \<lparr>wl_path = ''/db'' @ LOCK_SUFFIX, wl_fd = Some 0\<rparr>)\<rparr>"
    by (rule acquired) (rule sample_acquired)
  moreover have "(sys_procs (boot (\<lambda>_. [])))(7 \<mapsto> \<lparr>wl_path = ''/db'' @ LOCK_SUFFIX, wl_fd = Some 0\<rparr>) =
      sys_procs sample_system"
    by (simp add: boot_def sample_system_def)
  ultimately show ?thesis using lock_reachable.intros by (metis system.surjective old.unit.exhaust)
qed

text \<open>C30. One writer per database: whatever builders are started, refused, stopped or killed, and whatever
  system calls fail, two processes never hold the writer lock of the same database.\<close>

theorem one_writer:
  assumes "lock_reachable s" and "sys_procs s p = Some l" and "wl_fd l = Some fd" and "wl_path l = db @ LOCK_SUFFIX"
    and "sys_procs s q = Some l'" and "wl_fd l' = Some fd'" and "wl_path l' = db @ LOCK_SUFFIX"
  shows "p = q"
proof -
  have "holds s p (db @ LOCK_SUFFIX) fd" "holds s q (db @ LOCK_SUFFIX) fd'"
    using assms(2-7) by (auto simp: holds_def)
  then show ?thesis
    using lock_reachable_inv [OF assms(1)] unfolding lock_inv_def by (metis option.inject)
qed

theorem one_writer_witness: "(7 :: nat) = 7 \<and> sys_procs sample_system 7 \<noteq> None"
proof -
  let ?l = "\<lparr>wl_path = ''/db'' @ LOCK_SUFFIX, wl_fd = Some (0 :: nat)\<rparr>"
  have l: "sys_procs sample_system 7 = Some ?l" by (simp add: sample_system_def)
  then show ?thesis
    using one_writer [OF sample_reachable l, of 0 "''/db''" 7 ?l 0] by simp
qed

text \<open>The lock is taken exactly when it is free: without other system errors a starting builder gets
  it if no running process holds it, however the last holder ended, and otherwise fails at once with
  the error that names the holder, leaving the holder's lock in place.\<close>

theorem acquire_exactly_when_free:
  assumes "lock_reachable s"
  shows "case acquire_writer_lock no_faults p db (sys_kernel s) of
      (Inr l, k) \<Rightarrow> (\<nexists>q fd. holds s q (db @ LOCK_SUFFIX) fd) \<and> wl_path l = db @ LOCK_SUFFIX \<and>
        k_holder k (db @ LOCK_SUFFIX) = wl_fd l \<and> wl_fd l \<noteq> None
    | (Inl e, k) \<Rightarrow> (\<exists>q fd. holds s q (db @ LOCK_SUFFIX) fd) \<and> k_holder k = k_holder (sys_kernel s) \<and>
        e = writer_lock_error (holder_name no_faults (db @ LOCK_SUFFIX) (sys_kernel s)) (db @ LOCK_SUFFIX)"
proof -
  let ?path = "db @ LOCK_SUFFIX" and ?k = "sys_kernel s"
  have inv: "lock_inv s" by (rule lock_reachable_inv [OF assms])
  then have free: "k_holder ?k ?path = None \<longleftrightarrow> (\<nexists>q fd. holds s q ?path fd)"
    unfolding lock_inv_def by (metis not_Some_eq)
  show ?thesis
  proof (cases "acquire_writer_lock no_faults p db ?k")
    case (Pair r k)
    show ?thesis
    proof (cases r)
      case (Inr l)
      then show ?thesis using acquire_Inr [of no_faults p db ?k l k] Pair free by simp
    next
      case (Inl e)
      have "k_holder ?k path = Some fd \<Longrightarrow> fd < k_next ?k" for path fd
        using inv unfolding lock_inv_def by blast
      then have same: "k_holder k = k_holder ?k" using acquire_Inl(1) [of no_faults p db ?k e k] Pair Inl by blast
      have "k_holder ?k ?path \<noteq> None"
        "e = writer_lock_error (holder_name no_faults ?path ?k) ?path"
        using Pair Inl by (auto simp: acquire_writer_lock_def Let_def os_open_def flock_nb_def no_faults_def
            EAGAIN_def EACCES_def holder_name_def split: if_splits)
      then show ?thesis using Pair Inl same free by simp
    qed
  qed
qed

theorem acquire_exactly_when_free_witness:
  "\<exists>k. acquire_writer_lock no_faults 8 ''/db'' (sys_kernel sample_system) =
    (Inl (writer_lock_error ''pid 7'' (''/db'' @ LOCK_SUFFIX)), k) \<and>
    k_holder k = k_holder (sys_kernel sample_system)"
proof -
  have held: "holds sample_system 7 (''/db'' @ LOCK_SUFFIX) 0"
    by (simp add: holds_def sample_system_def)
  have "k_text (sys_kernel sample_system) (''/db'' @ LOCK_SUFFIX) = show_nat 7 @ [char_of (10 :: nat)]"
    by (simp add: sample_system_def acquire_writer_lock_def Let_def os_open_def flock_nb_def no_faults_def boot_def
        write_pid_def)
  then have "holder_name no_faults (''/db'' @ LOCK_SUFFIX) (sys_kernel sample_system) = ''pid 7''"
    by (simp add: holder_name_def no_faults_def strip_def is_space_def show_nat.simps digit_def char_of_def bit_0)
  then show ?thesis
    using acquire_exactly_when_free [OF sample_reachable, where p = 8 and db = "''/db''"] held
    by (auto split: prod.splits sum.splits)
qed

end
