(* ===== verification/Daemon.thy ===== *)
theory Daemon
  imports Integrity Catalog_Open Writer_Lock
begin

text \<open>
  \<open>main\<close> and \<open>_locked_main\<close> of \<open>__main__.py\<close>: what the process checks, in which order it takes the lock, builds
  or opens the catalog, binds the socket and works, and what it gives back when it ends. It works on the
  lock table, the disk and the sockets of its host. The world's history holds the disk at each commit, so that
  the theorems can say what the served file shows at every moment, and what a start makes of it after a kill.
\<close>

section \<open>The command line and the host\<close>

datatype backend = Local | S3 | GCS

text \<open>The arguments that decide anything here; an optional text that is empty counts as missing.\<close>

record args =
  a_source :: backend
  a_s3_bucket :: "string option"
  a_sqs_url :: "string option"
  a_gcs_bucket :: "string option"
  a_db :: string
  a_tag_socket :: "string option"
  a_once :: bool
  a_rebuild :: bool
  a_no_watch :: bool
  a_extract_workers :: int

definition given :: "string option \<Rightarrow> bool" where
  "given x \<longleftrightarrow> x \<noteq> None \<and> x \<noteq> Some []"

record host =
  h_kernel :: kernel
  h_world :: world
  h_sockets :: "string \<rightharpoonup> node"
  h_handler :: "handler option"

text \<open>
  What the process meets: whether \<open>watch_root\<close> is a directory, what constructing the storage client, locking
  and starting the producer raise, the clocks, the source at startup, the inode of its socket, what gets
  into the queue afterwards, and the state of the file-system handler by then.
\<close>

record 's process =
  p_pid :: nat
  p_is_dir :: bool
  p_client :: "exn option"
  p_faults :: faults
  p_publish :: publish_env
  p_clock :: "nat \<Rightarrow> int"
  p_start :: "'s moment"
  p_inode :: nat
  p_producer :: "exn option"
  p_queue :: "('s moment \<times> work_item) list"
  p_handler :: handler

datatype outcome = Exit int | Raised exn | Serving

section \<open>Opening the served catalog\<close>

text \<open>A commit to the served file goes to its log; the file itself is as it was.\<close>

definition commit_to :: "string \<Rightarrow> db \<Rightarrow> disk \<Rightarrow> disk" where
  "commit_to p db d =
     (case dk_main d p of
        None \<Rightarrow> d
      | Some f \<Rightarrow>
          d\<lparr>dk_wal := (dk_wal d)(p \<mapsto> \<lparr>wal_gen = df_gen f,
              wal_frames = Suc (case dk_wal d p of None \<Rightarrow> 0 | Some l \<Rightarrow> wal_frames l), wal_db = db\<rparr>),
            dk_shm := insert p (dk_shm d)\<rparr>)"

text \<open>What a connection has committed between two of its states, and its effect on the world.\<close>

definition new_versions :: "writer \<Rightarrow> writer \<Rightarrow> db list" where
  "new_versions c c' = drop (length (versions c)) (versions c')"

definition show_commits :: "string \<Rightarrow> db list \<Rightarrow> world \<Rightarrow> world" where
  "show_commits p ds w = fold (\<lambda>d. change (commit_to p d)) ds w"

definition database_error :: exn where
  "database_error = Exn ''DatabaseError'' ''file is not a database''"

text \<open>\<open>open_db\<close> and \<open>load_caches\<close> on the file at a path.\<close>

definition open_served :: "string \<Rightarrow> (nat \<Rightarrow> int) \<Rightarrow> world \<Rightarrow> (exn + writer) \<times> world" where
  "open_served p clock w =
     (case view_at (now_disk w) p of
        Absent \<Rightarrow>
          (case open_db empty_db of
             (Inl e, _) \<Rightarrow> (Inl e, w)
           | (Inr _, d) \<Rightarrow> (Inr (connect d clock), change (create_db p d) w))
      | Unusable \<Rightarrow> (Inl database_error, w)
      | Catalog d \<Rightarrow>
          (case open_db d of
             (Inl e, _) \<Rightarrow> (Inl e, w)
           | (Inr _, d) \<Rightarrow> (Inr (connect d clock), change (commit_to p d) w)))"

section \<open>Under the lock\<close>

definition startup_reconcile :: "'s process \<Rightarrow> args \<Rightarrow> (writer, tally) op" where
  "startup_reconcile p args =
     full_reconcile (m_get_summary (p_start p)) (m_completion (p_start p)) (m_source (p_start p)) (a_extract_workers args)"

definition start_tag_server :: "'s process \<Rightarrow> args \<Rightarrow> (string \<rightharpoonup> node) \<Rightarrow> (exn + tag_edit_server option) \<times> (string \<rightharpoonup> node)" where
  "start_tag_server p args fs =
     (if given (a_tag_socket args)
      then
        (case start_server (the (a_tag_socket args)) DEFAULT_DEADLINE MAX_PENDING_EDITS (p_inode p) fs of
           (Inl e, fs) \<Rightarrow> (Inl e, fs)
         | (Inr srv, fs) \<Rightarrow> (Inr (Some srv), fs))
      else (Inr None, fs))"

text \<open>\<open>start_producer\<close>: nothing with \<open>--no-watch\<close>; the local one has a handler with timers.\<close>

definition start_producer :: "'s process \<Rightarrow> args \<Rightarrow> exn + handler option" where
  "start_producer p args =
     (if a_no_watch args then Inr None
      else
        (case p_producer p of
           Some e \<Rightarrow> Inl e
         | None \<Rightarrow> Inr (if a_source args = Local then Some (p_handler p) else None)))"

text \<open>From the tag server on: \<open>c\<close> is the connection to the served file, and the world shows each of its commits.\<close>

definition work :: "'s process \<Rightarrow> args \<Rightarrow> writer \<Rightarrow> host \<Rightarrow> outcome \<times> host" where
  "work p args c h =
     (case start_tag_server p args (h_sockets h) of
        (Inl e, fs) \<Rightarrow> (Raised e, h\<lparr>h_sockets := fs\<rparr>)
      | (Inr srv, fs) \<Rightarrow>
          (case start_producer p args of
             Inl e \<Rightarrow> (Raised e, h\<lparr>h_sockets := fs\<rparr>)
           | Inr watcher \<Rightarrow>
               let (stopped, c') = worker_loop (a_extract_workers args) (p_queue p) c;
                   h = h\<lparr>h_world := show_commits (a_db args) (new_versions c c') (h_world h)\<rparr> in
               if stopped
               then (Exit 0, h\<lparr>h_sockets := (case srv of None \<Rightarrow> fs | Some srv \<Rightarrow> server_close srv fs),
                 h_handler := map_option cancel_timers watcher\<rparr>)
               else (Serving, h\<lparr>h_sockets := fs, h_handler := watcher\<rparr>)))"

definition locked_main :: "'s process \<Rightarrow> args \<Rightarrow> host \<Rightarrow> (outcome \<times> host) option" where
  "locked_main p args h =
     (if a_rebuild args \<or> dk_main (now_disk (h_world h)) (a_db args) = None
      then
        (case build_and_publish (p_publish p) (a_db args) (startup_reconcile p args) (h_world h) of
           None \<Rightarrow> None
         | Some (Inl e, w) \<Rightarrow> Some (Raised e, h\<lparr>h_world := w\<rparr>)
         | Some (Inr _, w) \<Rightarrow>
             if a_once args then Some (Exit 0, h\<lparr>h_world := w\<rparr>)
             else
               (case open_served (a_db args) (p_clock p) w of
                  (Inl e, w) \<Rightarrow> Some (Raised e, h\<lparr>h_world := w\<rparr>)
                | (Inr c, w) \<Rightarrow> Some (work p args c (h\<lparr>h_world := w\<rparr>))))
      else
        (case open_served (a_db args) (p_clock p) (h_world h) of
           (Inl e, w) \<Rightarrow> Some (Raised e, h\<lparr>h_world := w\<rparr>)
         | (Inr c, w) \<Rightarrow>
             (case startup_reconcile p args c of
                (Inl e, c') \<Rightarrow> Some (Raised e, h\<lparr>h_world := show_commits (a_db args) (new_versions c c') w\<rparr>)
              | (Inr _, c') \<Rightarrow>
                  let h = h\<lparr>h_world := show_commits (a_db args) (new_versions c c') w\<rparr> in
                  if a_once args then Some (Exit 0, h) else Some (work p args c' h))))"

section \<open>The process\<close>

text \<open>The checks of the source's arguments; a violated one is exit code 2.\<close>

definition valid_source :: "'s process \<Rightarrow> args \<Rightarrow> bool" where
  "valid_source p args =
     (case a_source args of
        S3 \<Rightarrow> given (a_s3_bucket args) \<and> (a_once args \<or> a_no_watch args \<or> given (a_sqs_url args))
      | GCS \<Rightarrow> given (a_gcs_bucket args)
      | Local \<Rightarrow> p_is_dir p)"

definition client_fault :: "'s process \<Rightarrow> args \<Rightarrow> exn option" where
  "client_fault p args = (if a_source args = Local then None else p_client p)"

definition main :: "'s process \<Rightarrow> args \<Rightarrow> host \<Rightarrow> (outcome \<times> host) option" where
  "main p args h =
     (if \<not> valid_source p args then Some (Exit 2, h)
      else
        (case client_fault p args of
           Some e \<Rightarrow> Some (Raised e, h)
         | None \<Rightarrow>
             (case acquire_writer_lock (p_faults p) (p_pid p) (a_db args) (h_kernel h) of
                (Inl e, k) \<Rightarrow>
                  Some (if exn_type e = ''WriterLockError'' then Exit 3 else Raised e, h\<lparr>h_kernel := k\<rparr>)
              | (Inr lock, k) \<Rightarrow>
                  (case locked_main p args (h\<lparr>h_kernel := k\<rparr>) of
                     None \<Rightarrow> None
                   | Some (Serving, h) \<Rightarrow> Some (Serving, h)
                   | Some (r, h) \<Rightarrow> Some (r, h\<lparr>h_kernel := snd (release lock (h_kernel h))\<rparr>)))))"

section \<open>Exit codes and the lock\<close>

lemma locked_main_kernel: "locked_main p args h = Some (r, h') \<Longrightarrow> h_kernel h' = h_kernel h"
  by (auto simp: locked_main_def work_def Let_def split: if_splits option.splits prod.splits sum.splits)

lemma locked_main_exit: "locked_main p args h = Some (Exit n, h') \<Longrightarrow> n = 0"
  by (auto simp: locked_main_def work_def Let_def split: if_splits option.splits prod.splits sum.splits)

lemma acquire_no_faults:
  "acquire_writer_lock no_faults pid db k = (Inl e, k') \<Longrightarrow> k_holder k (db @ LOCK_SUFFIX) \<noteq> None \<and> exn_type e = ''WriterLockError''"
  by (auto simp: acquire_writer_lock_def Let_def os_open_def flock_nb_def no_faults_def writer_lock_error_def EAGAIN_def
      split: if_splits)

text \<open>The runs of \<open>main\<close>.\<close>

lemma main_cases:
  assumes "main p args h = Some (r, h')"
  obtains (invalid) "\<not> valid_source p args" and "r = Exit 2" and "h' = h"
  | (no_client) e where "valid_source p args" and "client_fault p args = Some e" and "r = Raised e" and "h' = h"
  | (refused) e k where "valid_source p args" and "client_fault p args = None"
      and "acquire_writer_lock (p_faults p) (p_pid p) (a_db args) (h_kernel h) = (Inl e, k)"
      and "r = (if exn_type e = ''WriterLockError'' then Exit 3 else Raised e)" and "h' = h\<lparr>h_kernel := k\<rparr>"
  | (locked) lock k h1 where "valid_source p args" and "client_fault p args = None"
      and "acquire_writer_lock (p_faults p) (p_pid p) (a_db args) (h_kernel h) = (Inr lock, k)"
      and "locked_main p args (h\<lparr>h_kernel := k\<rparr>) = Some (r, h1)" and "h_kernel h1 = k"
      and "h' = (if r = Serving then h1 else h1\<lparr>h_kernel := snd (release lock k)\<rparr>)"
proof (cases "valid_source p args \<and> client_fault p args = None")
  case True
  obtain a k where acquired: "acquire_writer_lock (p_faults p) (p_pid p) (a_db args) (h_kernel h) = (a, k)" by fastforce
  show thesis
  proof (cases a)
    case (Inl e)
    then show thesis using refused [of e k] assms True acquired by (auto simp: main_def)
  next
    case (Inr lock)
    then have "case locked_main p args (h\<lparr>h_kernel := k\<rparr>) of None \<Rightarrow> False
        | Some (r1, h1) \<Rightarrow> r = r1 \<and> h' = (if r1 = Serving then h1 else h1\<lparr>h_kernel := snd (release lock (h_kernel h1))\<rparr>)"
      using assms True acquired by (auto simp: main_def split: option.splits prod.splits outcome.splits)
    then obtain h1 where run: "locked_main p args (h\<lparr>h_kernel := k\<rparr>) = Some (r, h1)"
      and h': "h' = (if r = Serving then h1 else h1\<lparr>h_kernel := snd (release lock (h_kernel h1))\<rparr>)"
      by (auto split: option.splits)
    have "h_kernel h1 = k" using locked_main_kernel [OF run] by simp
    then show thesis using locked [of lock k h1] True acquired Inr run h' by simp
  qed
next
  case False
  then show thesis using invalid no_client assms by (auto simp: main_def split: if_splits option.splits)
qed

text \<open>C32. Exit codes. The process exits with 2 exactly when the arguments of its source are wrong and with 3
  exactly when they are right and another builder holds the lock of its database; in both cases it has
  touched neither a database nor a socket. Its only other code is 0.\<close>

theorem main_exit_codes:
  assumes "main p args h = Some (r, h')" and "p_faults p = no_faults" and "client_fault p args = None"
  shows "(r = Exit 2 \<longleftrightarrow> \<not> valid_source p args) \<and>
    (r = Exit 3 \<longleftrightarrow> valid_source p args \<and> k_holder (h_kernel h) (a_db args @ LOCK_SUFFIX) \<noteq> None) \<and>
    (r \<in> {Exit 2, Exit 3} \<longrightarrow> h_world h' = h_world h \<and> h_sockets h' = h_sockets h) \<and>
    (\<forall>n. r = Exit n \<longrightarrow> n \<in> {0, 2, 3})"
  using assms(1)
proof (cases rule: main_cases)
  case (refused e k)
  then show ?thesis using acquire_no_faults [of "p_pid p" "a_db args" "h_kernel h" e k] assms(2) by simp
next
  case (locked lock k h1)
  have "k_holder (h_kernel h) (a_db args @ LOCK_SUFFIX) = None" by (rule acquire_Inr(2) [OF locked(3)])
  moreover have "n = 0" if "r = Exit n" for n using locked_main_exit locked(4) that by blast
  ultimately show ?thesis using locked(1) by auto
qed (use assms(3) in auto)

text \<open>C31. The lock is held exactly while the catalog is written. A process that got the lock has it still while it
  serves, and when it has ended, with a code or an exception, wherever in the build, the startup or the
  work it was raised, the lock is as free as before; the locks of other databases are never touched.\<close>

theorem main_holds_lock:
  assumes "main p args h = Some (r, h')" and "\<And>path fd. k_holder (h_kernel h) path = Some fd \<Longrightarrow> fd < k_next (h_kernel h)"
  shows "k_holder (h_kernel h') =
      (if r = Serving then (k_holder (h_kernel h))(a_db args @ LOCK_SUFFIX \<mapsto> k_next (h_kernel h)) else k_holder (h_kernel h)) \<and>
    (r = Serving \<longrightarrow> k_holder (h_kernel h) (a_db args @ LOCK_SUFFIX) = None)"
  using assms(1)
proof (cases rule: main_cases)
  case (refused e k)
  then show ?thesis using acquire_Inl(1) [OF refused(3) assms(2)] by simp
next
  case (locked lock k h1)
  note acq = acquire_Inr [OF locked(3)]
  have "k_holder (h_kernel h) path \<noteq> Some (k_next (h_kernel h))" for path using assms(2) by blast
  then have "k_holder (snd (release lock k)) = k_holder (h_kernel h)"
    using acq by (auto simp: release_def fun_eq_iff)
  then show ?thesis using locked acq by simp
qed simp_all

section \<open>A one-shot build\<close>

lemma view_commit_to:
  assumes "view_at d p = Catalog x"
  shows "view_at (commit_to p db d) p = Catalog db" and "dk_main (commit_to p db d) = dk_main d"
  using assms by (auto simp: view_at_def commit_to_def split: option.splits file_content.splits)

lemma opened_wf: "db_wf d \<Longrightarrow> db_wf (opened d)" "sets_wf d \<Longrightarrow> sets_wf (opened d)"
proof -
  have names: "names (opened d) = names d" by (simp add: opened_def names_def)
  note frame = names_frame [OF names] sets_wf_names [OF names]
  have same: "files (opened d) = files d" "tags_embedded (opened d) = tags_embedded d" "tags_override (opened d) = tags_override d"
    by (simp_all add: opened_def)
  show "db_wf d \<Longrightarrow> db_wf (opened d)" "sets_wf d \<Longrightarrow> sets_wf (opened d)"
    using frame by (simp_all add: db_wf_def files_wf_def tags_wf_def same)
qed

text \<open>A catalog this builder can take over, or none.\<close>

definition usable :: "view \<Rightarrow> bool" where
  "usable v \<longleftrightarrow>
     (case v of
        Absent \<Rightarrow> True
      | Unusable \<Rightarrow> False
      | Catalog d \<Rightarrow> db_wf d \<and> sets_wf d \<and> \<not> foreign_db d \<and> \<not> other_version d \<and>
          (schema_version d \<noteq> None \<longrightarrow> ''schema_version'' \<in> set (db_tables d)))"

text \<open>Clocks that give times SQLite can store, and a source that can be listed, with each object once.\<close>

definition good_clock :: "(nat \<Rightarrow> int) \<Rightarrow> bool" where
  "good_clock clock \<longleftrightarrow> (\<forall>n. fits_sqlite (clock n) \<and> clock n \<noteq> 0)"

definition lists :: "'s moment \<Rightarrow> listing list \<Rightarrow> bool" where
  "lists m ls \<longleftrightarrow> fair m \<and> src_list (m_source m) = Inr ls \<and> distinct_objects (m_source m) ls"

lemma startup_run:
  assumes "in_sync c" and "sane_clock c" and "lists (p_start p) ls"
  obtains t b and c' :: writer where "startup_reconcile p args c = (Inr t, c')" and "in_sync c'"
    and "current_in (p_start p) ls (committed c')"
    and "build_metadata (working c') = Some b" and "b_last_build_ns b \<noteq> 0"
proof -
  let ?m = "p_start p" and ?k = "a_extract_workers args"
  have perm: "\<And>js. mset (m_completion ?m js) = mset js" using assms(3) by (simp add: lists_def fair_def)
  have ls: "src_list (m_source ?m) = Inr ls" "distinct_objects (m_source ?m) ls" "fair ?m" using assms(3) by (simp_all add: lists_def)
  obtain t and c' :: writer where run: "full_reconcile (m_get_summary ?m) (m_completion ?m) (m_source ?m) ?k c = (Inr t, c')"
    and s: "in_sync c'"
    by (rule reconcile_outcome [OF assms(1,2) ls(1) perm ls(2), of "m_get_summary ?m" ?k]) blast
  obtain b where b: "build_metadata (working c') = Some b" "b_last_build_ns b \<noteq> 0"
    by (rule reconcile_stamp [OF assms(1,2) ls(1) perm ls(2) run])
  have "current_in ?m ls (working c')"
    using rescan_current [OF assms(1,2) ls(3,1,2), of ?k] run by (simp add: work_on_def handle_event_def)
  moreover have "committed c' = working c'" using s by (simp add: in_sync_def)
  ultimately show thesis using that [of t c' b] run s b by (simp add: startup_reconcile_def)
qed

lemma fresh_connection:
  assumes "good_clock clock"
  shows "sane_clock (connect d clock)"
  using assms by (simp add: sane_clock_def good_clock_def connect_def)

lemma first_temp_build:
  assumes "startup_reconcile p args (connect (opened empty_db) clock) = (Inr t, c)"
    and "build_metadata (working c) = Some b" and "b_last_build_ns b \<noteq> 0"
  shows "temp_build Absent (startup_reconcile p args) (connect (opened empty_db) clock) = (Inr t, c)"
  using assms
  by (simp add: temp_build_def read_old_build_id_def ensure_build_stamped_def query_def carry_forward_tags_override_def
      old_override_rows_def)

text \<open>Publishing where there was nothing: no gate, and nothing to carry over.\<close>

lemma same_file_main: "same_file p d d' \<Longrightarrow> dk_main d' p = dk_main d p"
  by (simp add: same_file_def)

lemma publish_first:
  assumes absent: "dk_main (now_disk w) served = None"
    and build: "temp_build Absent build_fn (connect (opened empty_db) (wall_clock env)) = (Inr t, c)"
    and answer: "temp_checkpoint env = Inr answer" "complete answer"
  obtains w' where "build_and_publish env served build_fn w = Some (Inr t, w')"
    and "view_at (now_disk w') served = Catalog (committed c)"
proof -
  let ?temp = "served @ TEMP_SUFFIX"
  have ne: "?temp \<noteq> served" by (simp add: TEMP_SUFFIX_def)
  let ?w1 = "cleanup_temp ?temp w"
  let ?w2 = "change (create_db ?temp (opened empty_db)) ?w1"
  let ?w3 = "change (log_commit ?temp (committed c)) ?w2"
  let ?w4 = "change (truncate_wal ?temp) ?w3"
  let ?w5 = "remove_shm ?temp (remove_wal ?temp ?w4)"
  have opens: "open_db empty_db = (Inr (), opened empty_db)"
    using open_db_run [of empty_db] by (simp add: foreign_db_def other_version_def empty_db_def)
  have check: "checkpoint_truncate ?temp (Inr answer) ?w3 = (Inr answer, ?w4)"
    by (simp add: checkpoint_truncate_def answer(2))
  have none2: "dk_main (now_disk ?w2) served = None"
    using absent same_file_main [OF other_path_cleanup(2) [OF ne, of w]] same_file_main [OF other_path_basic(9) [OF ne, where w = ?w1]]
    by simp
  have none4: "dk_main (now_disk ?w4) served = None"
    using none2 same_file_main [OF other_path_basic(10) [OF ne, where w = ?w2]] same_file_main [OF other_path_checkpoint(2) [OF ne check]]
    by simp
  have none5: "dk_main (now_disk ?w5) served = None"
    using none4 by (simp add: remove_shm_def remove_wal_def change_def Let_def)
  have view2: "view_at (now_disk ?w2) served = Absent" using none2 by (simp add: view_at_def)
  have run: "build_and_publish env served build_fn w =
      Some (Inr t, swap_in ?temp served (remove_shm served (remove_wal served ?w5)))"
    using none5 by (simp add: build_and_publish_def Let_def opens view2 build check answer publish_temp_def)
  have "temp_ready ?temp (committed c) ?w5"
    by (simp add: temp_ready_def remove_shm_def remove_wal_def change_def Let_def truncate_wal_def create_db_def log_commit_def)
  then have "published ?temp served (committed c) ?w5
      (Inr t, swap_in ?temp served (remove_shm served (remove_wal served ?w5)))"
    using none5 by (intro published_clear_swap [OF _ _ _ ne]) (simp_all add: view_at_def untorn_def)
  then have "view_at (now_disk (swap_in ?temp served (remove_shm served (remove_wal served ?w5)))) served = Catalog (committed c)"
    unfolding published_def switches_def by (auto dest: last_in_set)
  with run show thesis by (rule that)
qed

lemma open_usable:
  assumes "view_at (now_disk w) q = Catalog d" and "usable (Catalog d)"
  shows "open_served q clock w = (Inr (connect (opened d) clock), change (commit_to q (opened d)) w)"
    and "in_sync (connect (opened d) clock)"
proof -
  have "open_db d = (Inr (), opened d)" using open_db_run [of d] assms(2) by (simp add: usable_def)
  then show "open_served q clock w = (Inr (connect (opened d) clock), change (commit_to q (opened d)) w)"
    using assms(1) by (simp add: open_served_def)
  show "in_sync (connect (opened d) clock)" using assms(2) by (intro in_sync_connect opened_wf) (simp_all add: usable_def)
qed

subsection \<open>What the world shows of a connection\<close>

lemma follows_refl: "follows c c"
  by (simp add: follows_def)

lemma follows_new:
  assumes "follows c c'"
  shows "versions c' = versions c @ new_versions c c'" and "committed c' = last (committed c # new_versions c c')"
  using assms by (auto simp: follows_def new_versions_def)

lemma startup_follows: "startup_reconcile p args c = (r, c') \<Longrightarrow> follows c c'"
  using keepsD [OF log.reconcile follows_refl] by (metis snd_conv startup_reconcile_def)

lemma worker_follows: "worker_loop k q c = (b, c') \<Longrightarrow> follows c c'"
  using log.worker [OF follows_refl] by (metis snd_conv)

text \<open>Each commit is a moment of the world; the last one is what is shown in the end.\<close>

lemma show_commits_run:
  assumes "view_at (now_disk w) p = Catalog x"
  shows "view_at (now_disk (show_commits p ds w)) p = Catalog (last (x # ds)) \<and>
    (\<exists>hs. history (show_commits p ds w) = history w @ hs \<and> (\<forall>dk \<in> set hs. \<exists>d \<in> set ds. view_at dk p = Catalog d))"
  using assms
proof (induction ds arbitrary: w x)
  case (Cons d ds)
  let ?w = "change (commit_to p d) w"
  have view: "view_at (now_disk ?w) p = Catalog d"
    using view_commit_to(1) [OF Cons.prems] by (simp add: change_def Let_def)
  from Cons.IH [OF this] obtain hs where "view_at (now_disk (show_commits p ds ?w)) p = Catalog (last (d # ds))"
    "history (show_commits p ds ?w) = history ?w @ hs" "\<forall>dk \<in> set hs. \<exists>d \<in> set ds. view_at dk p = Catalog d"
    by blast
  moreover have "history ?w = history w @ [now_disk ?w]" by (simp add: change_def Let_def)
  ultimately show ?case
    using view by (simp add: show_commits_def)
qed (simp add: show_commits_def)

text \<open>A catalog that can be taken over from a process that was killed: whole, and with the stamp of the version.\<close>

definition recoverable :: "db \<Rightarrow> db \<Rightarrow> bool" where
  "recoverable d0 d \<longleftrightarrow> whole d \<and> stamped_as d0 d"

lemma recoverable_usable: "recoverable (opened d0) d \<Longrightarrow> usable (Catalog d)"
  by (auto simp: recoverable_def stamped_as_def usable_def whole_def opened_def foreign_db_def other_version_def schema_tables_def)

definition shows_recoverable :: "string \<Rightarrow> db \<Rightarrow> disk \<Rightarrow> bool" where
  "shows_recoverable p d0 dk \<longleftrightarrow> (\<exists>d. view_at dk p = Catalog d \<and> recoverable d0 d)"

lemma new_versions_recoverable:
  assumes "follows c c'" and "in_sync c'" and "holds_in (stamped_as d0) c'"
  shows "\<forall>d \<in> set (new_versions c c'). recoverable d0 d"
  using follows_new(1) [OF assms(1)] in_syncD(5) [OF assms(2)] assms(3)
  by (auto simp: recoverable_def holds_in_def list_all_iff)

lemma commits_recoverable:
  assumes view: "view_at (now_disk w) q = Catalog (committed c)" and f: "follows c c'"
    and new: "\<forall>d \<in> set (new_versions c c'). recoverable d0 d"
  obtains hs where "view_at (now_disk (show_commits q (new_versions c c') w)) q = Catalog (committed c')"
    and "history (show_commits q (new_versions c c') w) = history w @ hs"
    and "\<forall>dk \<in> set hs. shows_recoverable q d0 dk"
proof -
  obtain hs where hs: "history (show_commits q (new_versions c c') w) = history w @ hs"
    "\<forall>dk \<in> set hs. \<exists>d \<in> set (new_versions c c'). view_at dk q = Catalog d"
    using show_commits_run [OF view] by blast
  then have "\<forall>dk \<in> set hs. shows_recoverable q d0 dk" using new unfolding shows_recoverable_def by blast
  then show thesis using that hs(1) show_commits_run [OF view] follows_new(2) [OF f] by simp
qed

lemma stamped_connect: "holds_in (stamped_as d) (connect d clock)"
  by (simp add: holds_in_def stamped_as_def connect_def)

text \<open>From opening an intact catalog through the startup: every moment shows a catalog to recover from.\<close>

lemma startup_shows:
  assumes view: "view_at (now_disk w) q = Catalog d" and use: "usable (Catalog d)"
    and run: "startup_reconcile p args (connect (opened d) clock) = (r, c)" and s: "in_sync c"
  obtains hs where "view_at (now_disk (show_commits q (new_versions (connect (opened d) clock) c) (change (commit_to q (opened d)) w))) q
      = Catalog (committed c)"
    and "history (show_commits q (new_versions (connect (opened d) clock) c) (change (commit_to q (opened d)) w)) = history w @ hs"
    and "\<forall>dk \<in> set hs. shows_recoverable q (opened d) dk" and "hs \<noteq> []" and "holds_in (stamped_as (opened d)) c"
proof -
  let ?c0 = "connect (opened d) clock" and ?w = "change (commit_to q (opened d)) w"
  have f: "follows ?c0 c" by (rule startup_follows [OF run])
  have stamped: "holds_in (stamped_as (opened d)) c"
    using keepsD [OF stamp.reconcile stamped_connect] run by (metis snd_conv startup_reconcile_def)
  note new = new_versions_recoverable [OF f s stamped]
  have first: "view_at (now_disk ?w) q = Catalog (committed ?c0)"
    using view_commit_to(1) [OF view] by (simp add: change_def Let_def connect_def)
  obtain hs where hs: "view_at (now_disk (show_commits q (new_versions ?c0 c) ?w)) q = Catalog (committed c)"
    "history (show_commits q (new_versions ?c0 c) ?w) = history ?w @ hs" "\<forall>dk \<in> set hs. shows_recoverable q (opened d) dk"
    by (rule commits_recoverable [OF first f new])
  have "in_sync ?c0" by (rule open_usable(2) [OF view use])
  then have "recoverable (opened d) (committed ?c0)"
    using in_syncD(2,3) [of ?c0] by (simp add: recoverable_def whole_def stamped_as_def connect_def)
  then have "shows_recoverable q (opened d) (now_disk ?w)" using first by (auto simp: shows_recoverable_def)
  moreover have "history ?w = history w @ [now_disk ?w]" by (simp add: change_def Let_def)
  ultimately show thesis using that [of "now_disk ?w # hs"] hs stamped by simp
qed

text \<open>The startup: the served catalog is brought up to date, in place or by publishing a first one.\<close>

lemma startup_in_place:
  assumes "\<not> a_rebuild args" and view: "view_at (now_disk (h_world h)) (a_db args) = Catalog d" and use: "usable (Catalog d)"
    and "good_clock (p_clock p)" and "lists (p_start p) ls"
  obtains w' and c :: writer where "view_at (now_disk w') (a_db args) = Catalog (committed c)" and "in_sync c"
    and "current_in (p_start p) ls (committed c)"
    and "a_once args \<Longrightarrow> locked_main p args h = Some (Exit 0, h\<lparr>h_world := w'\<rparr>)"
proof -
  have some: "dk_main (now_disk (h_world h)) (a_db args) \<noteq> None" using view by (auto simp: view_at_def split: option.splits)
  note opened = open_usable [OF view use, of "p_clock p"]
  obtain t b and c :: writer where c: "startup_reconcile p args (connect (opened d) (p_clock p)) = (Inr t, c)"
    "in_sync c" "current_in (p_start p) ls (committed c)"
    by (rule startup_run [OF opened(2) fresh_connection [OF assms(4)] assms(5), of args])
  let ?w = "show_commits (a_db args) (new_versions (connect (opened d) (p_clock p)) c)
    (change (commit_to (a_db args) (opened d)) (h_world h))"
  have "view_at (now_disk ?w) (a_db args) = Catalog (committed c)"
    by (rule startup_shows [OF view use c(1,2)])
  then show thesis
    using that [of ?w c] c some assms(1) opened(1) by (simp add: locked_main_def Let_def)
qed

lemma startup_locked:
  assumes "\<not> a_rebuild args" and "usable (view_at (now_disk (h_world h)) (a_db args))"
    and "good_clock (p_clock p)" and "good_clock (wall_clock (p_publish p))" and "lists (p_start p) ls"
    and "temp_checkpoint (p_publish p) = Inr answer" and "complete answer"
  obtains w' and c :: writer where "view_at (now_disk w') (a_db args) = Catalog (committed c)" and "in_sync c"
    and "current_in (p_start p) ls (committed c)"
    and "a_once args \<Longrightarrow> locked_main p args h = Some (Exit 0, h\<lparr>h_world := w'\<rparr>)"
proof (cases "view_at (now_disk (h_world h)) (a_db args)")
  case Absent
  then have none: "dk_main (now_disk (h_world h)) (a_db args) = None"
    by (auto simp: view_at_def split: option.splits file_content.splits if_splits)
  have s: "in_sync (connect (opened empty_db) (wall_clock (p_publish p)))"
    by (intro in_sync_connect) (simp_all add: opened_empty_wf)
  obtain t b and c :: writer where c: "startup_reconcile p args (connect (opened empty_db) (wall_clock (p_publish p))) = (Inr t, c)"
    "in_sync c" "current_in (p_start p) ls (committed c)" "build_metadata (working c) = Some b" "b_last_build_ns b \<noteq> 0"
    by (rule startup_run [OF s fresh_connection [OF assms(4)] assms(5), of args])
  obtain w' where w': "build_and_publish (p_publish p) (a_db args) (startup_reconcile p args) (h_world h) = Some (Inr t, w')"
    "view_at (now_disk w') (a_db args) = Catalog (committed c)"
    by (rule publish_first [OF none first_temp_build [OF c(1,4,5)] assms(6,7)])
  show thesis using that [OF w'(2) c(2,3)] none w'(1) by (simp add: locked_main_def)
next
  case (Catalog d)
  show thesis
    by (rule startup_in_place [OF assms(1) Catalog assms(2) [unfolded Catalog] assms(3,5)]) (rule that)
qed (use assms(2) in \<open>simp add: usable_def\<close>)

text \<open>A process whose arguments are right and whose lock is free runs under the lock and gives it back.\<close>

lemma main_unlocked:
  assumes "valid_source p args" and "client_fault p args = None" and "p_faults p = no_faults"
    and "k_holder (h_kernel h) (a_db args @ LOCK_SUFFIX) = None"
  obtains lock k where "k_holder k (a_db args @ LOCK_SUFFIX) \<noteq> None"
    and "k_holder (snd (release lock k)) (a_db args @ LOCK_SUFFIX) = None"
    and "\<forall>r h1. locked_main p args (h\<lparr>h_kernel := k\<rparr>) = Some (r, h1) \<longrightarrow>
      main p args h = Some (r, if r = Serving then h1 else h1\<lparr>h_kernel := snd (release lock k)\<rparr>)"
proof -
  obtain lock k where lock: "acquire_writer_lock (p_faults p) (p_pid p) (a_db args) (h_kernel h) = (Inr lock, k)"
    using assms(3,4) by (simp add: acquire_writer_lock_def no_faults_def Let_def os_open_def flock_nb_def)
  note acq = acquire_Inr [OF lock]
  show thesis
  proof (rule that [of k lock])
    show "k_holder k (a_db args @ LOCK_SUFFIX) \<noteq> None" using acq by simp
    show "k_holder (snd (release lock k)) (a_db args @ LOCK_SUFFIX) = None" using acq by (simp add: release_def)
    have "main p args h = Some (r, if r = Serving then h1 else h1\<lparr>h_kernel := snd (release lock k)\<rparr>)"
      if "locked_main p args (h\<lparr>h_kernel := k\<rparr>) = Some (r, h1)" for r h1
      using assms(1,2) lock that locked_main_kernel [OF that] by (cases r) (simp_all add: main_def)
    then show "\<forall>r h1. locked_main p args (h\<lparr>h_kernel := k\<rparr>) = Some (r, h1) \<longrightarrow>
      main p args h = Some (r, if r = Serving then h1 else h1\<lparr>h_kernel := snd (release lock k)\<rparr>)" by blast
  qed
qed

text \<open>C19. One-shot mode builds the catalog. Over a database that is free, absent or intact, and a source that can be
  listed, \<open>--once\<close> exits with 0; the served file then shows a well-formed catalog that is current: no file in
  it is not listed, and every listed object that can be read is in it with the fingerprint it was listed
  with. The lock is free again, and no socket has been touched.\<close>

theorem once_builds_catalog:
  assumes "a_once args" and "\<not> a_rebuild args" and "valid_source p args" and "client_fault p args = None"
    and "p_faults p = no_faults" and "k_holder (h_kernel h) (a_db args @ LOCK_SUFFIX) = None"
    and "usable (view_at (now_disk (h_world h)) (a_db args))" and "good_clock (p_clock p)"
    and "good_clock (wall_clock (p_publish p))" and "lists (p_start p) ls"
    and "temp_checkpoint (p_publish p) = Inr answer" and "complete answer"
  shows "\<exists>h' d. main p args h = Some (Exit 0, h') \<and> view_at (now_disk (h_world h')) (a_db args) = Catalog d \<and>
    db_wf d \<and> current_in (p_start p) ls d \<and> k_holder (h_kernel h') (a_db args @ LOCK_SUFFIX) = None \<and> h_sockets h' = h_sockets h"
proof -
  obtain lock k where "k_holder k (a_db args @ LOCK_SUFFIX) \<noteq> None"
    and lock: "k_holder (snd (release lock k)) (a_db args @ LOCK_SUFFIX) = None"
    and main: "\<forall>r h1. locked_main p args (h\<lparr>h_kernel := k\<rparr>) = Some (r, h1) \<longrightarrow>
      main p args h = Some (r, if r = Serving then h1 else h1\<lparr>h_kernel := snd (release lock k)\<rparr>)"
    by (rule main_unlocked [OF assms(3-6)])
  have "usable (view_at (now_disk (h_world (h\<lparr>h_kernel := k\<rparr>))) (a_db args))" using assms(7) by simp
  from startup_locked [OF assms(2) this assms(8-12)] obtain w' and c :: writer where
    w': "view_at (now_disk w') (a_db args) = Catalog (committed c)" "in_sync c" "current_in (p_start p) ls (committed c)"
    and run: "locked_main p args (h\<lparr>h_kernel := k\<rparr>) = Some (Exit 0, h\<lparr>h_kernel := k, h_world := w'\<rparr>)"
    using assms(1) by (metis (no_types))
  have "db_wf (committed c)" using w'(2) by (simp add: in_sync_def)
  with main [rule_format, OF run] lock w' show ?thesis by simp
qed

section \<open>The daemon\<close>

lemma start_tag_server_run:
  assumes "\<And>sock n. a_tag_socket args = Some sock \<Longrightarrow> fs sock = Some n \<Longrightarrow> nd_is_socket n"
  obtains srv fs' where "start_tag_server p args fs = (Inr srv, fs')"
    and "\<not> given (a_tag_socket args) \<Longrightarrow> srv = None \<and> fs' = fs"
    and "given (a_tag_socket args) \<Longrightarrow> fs' (the (a_tag_socket args)) \<noteq> None \<and>
      (case srv of None \<Rightarrow> fs' | Some srv \<Rightarrow> server_close srv fs') = fs(the (a_tag_socket args) := None)"
proof (cases "given (a_tag_socket args)")
  case True
  then obtain sock where sock: "a_tag_socket args = Some sock" by (auto simp: given_def)
  with assms have "\<And>n. fs sock = Some n \<Longrightarrow> nd_is_socket n" by blast
  then show thesis
    using that True sock by (fastforce simp: start_tag_server_def start_server_def server_close_def Let_def split: option.splits)
qed (use that in \<open>simp add: start_tag_server_def\<close>)

lemma daemon_run:
  assumes "\<not> a_once args" and "\<not> a_rebuild args" and "valid_source p args" and "client_fault p args = None"
    and "p_faults p = no_faults" and "k_holder (h_kernel h) (a_db args @ LOCK_SUFFIX) = None"
    and "view_at (now_disk (h_world h)) (a_db args) = Catalog d" and "usable (Catalog d)" and "good_clock (p_clock p)"
    and "lists (p_start p) ls" and "a_no_watch args \<or> p_producer p = None" and "list_all (fair \<circ> fst) (p_queue p)"
    and "\<And>sock n. a_tag_socket args = Some sock \<Longrightarrow> h_sockets h sock = Some n \<Longrightarrow> nd_is_socket n"
  obtains h' hs stopped and c c' :: writer where "in_sync c" and "current_in (p_start p) ls (committed c)"
    and "worker_loop (a_extract_workers args) (p_queue p) c = (stopped, c')" and "in_sync c'"
    and "main p args h = Some (if stopped then Exit 0 else Serving, h')"
    and "view_at (now_disk (h_world h')) (a_db args) = Catalog (committed c')"
    and "history (h_world h') = history (h_world h) @ hs" and "hs \<noteq> []"
    and "\<forall>dk \<in> set hs. shows_recoverable (a_db args) (opened d) dk"
    and "stopped \<longleftrightarrow> list_ex (is_stop \<circ> snd) (p_queue p)"
    and "k_holder (h_kernel h') (a_db args @ LOCK_SUFFIX) = None \<longleftrightarrow> stopped"
    and "given (a_tag_socket args) \<Longrightarrow> h_sockets h' (the (a_tag_socket args)) = None \<longleftrightarrow> stopped"
    and "stopped \<Longrightarrow> pred_option (\<lambda>watcher. timers watcher = Map.empty) (h_handler h')"
proof -
  let ?db = "a_db args" and ?c0 = "connect (opened d) (p_clock p)"
  obtain lock k where held: "k_holder k (?db @ LOCK_SUFFIX) \<noteq> None" "k_holder (snd (release lock k)) (?db @ LOCK_SUFFIX) = None"
    and main: "\<forall>r h1. locked_main p args (h\<lparr>h_kernel := k\<rparr>) = Some (r, h1) \<longrightarrow>
      main p args h = Some (r, if r = Serving then h1 else h1\<lparr>h_kernel := snd (release lock k)\<rparr>)"
    by (rule main_unlocked [OF assms(3-6)])
  have some: "dk_main (now_disk (h_world h)) ?db \<noteq> None" using assms(7) by (auto simp: view_at_def split: option.splits)
  note opened = open_usable [OF assms(7,8), of "p_clock p"]
  obtain t b and c :: writer where c: "startup_reconcile p args ?c0 = (Inr t, c)"
    "in_sync c" "current_in (p_start p) ls (committed c)"
    by (rule startup_run [OF opened(2) fresh_connection [OF assms(9)] assms(10), of args])
  let ?w = "show_commits ?db (new_versions ?c0 c) (change (commit_to ?db (opened d)) (h_world h))"
  obtain hs where w: "view_at (now_disk ?w) ?db = Catalog (committed c)" "history ?w = history (h_world h) @ hs"
    "\<forall>dk \<in> set hs. shows_recoverable ?db (opened d) dk" "hs \<noteq> []" and stamped: "holds_in (stamped_as (opened d)) c"
    by (rule startup_shows [OF assms(7,8) c(1,2)])
  obtain stopped c' where loop: "worker_loop (a_extract_workers args) (p_queue p) c = (stopped, c')" by fastforce
  have kept: "in_sync c'" "stopped \<longleftrightarrow> list_ex (is_stop \<circ> snd) (p_queue p)"
    using worker_loop_keeps [OF assms(12) c(2), of "a_extract_workers args"] loop by simp_all
  have f: "follows c c'" by (rule worker_follows [OF loop])
  have "holds_in (stamped_as (opened d)) c'" using stamp.worker [OF stamped] loop by (metis snd_conv)
  note new = new_versions_recoverable [OF f kept(1) this]
  let ?w' = "show_commits ?db (new_versions c c') ?w"
  obtain hs' where w': "view_at (now_disk ?w') ?db = Catalog (committed c')" "history ?w' = history ?w @ hs'"
    "\<forall>dk \<in> set hs'. shows_recoverable ?db (opened d) dk"
    by (rule commits_recoverable [OF w(1) f new])
  obtain srv fs' where tag: "start_tag_server p args (h_sockets h) = (Inr srv, fs')"
    and close: "given (a_tag_socket args) \<Longrightarrow> fs' (the (a_tag_socket args)) \<noteq> None \<and>
      (case srv of None \<Rightarrow> fs' | Some srv \<Rightarrow> server_close srv fs') = (h_sockets h)(the (a_tag_socket args) := None)"
    by (rule start_tag_server_run [where args = args and fs = "h_sockets h" and p = p, OF assms(13)]) blast+
  have "\<exists>watcher. start_producer p args = Inr watcher" using assms(11) by (auto simp: start_producer_def)
  then obtain watcher where producer: "start_producer p args = Inr watcher" ..
  let ?watcher = "if stopped then map_option cancel_timers watcher else watcher"
  let ?fs = "if stopped then (case srv of None \<Rightarrow> fs' | Some srv \<Rightarrow> server_close srv fs') else fs'"
  let ?h = "h\<lparr>h_kernel := k, h_world := ?w', h_sockets := ?fs, h_handler := ?watcher\<rparr>"
  let ?h' = "if stopped then ?h\<lparr>h_kernel := snd (release lock k)\<rparr> else ?h"
  have "locked_main p args (h\<lparr>h_kernel := k\<rparr>) = Some (if stopped then Exit 0 else Serving, ?h)"
    using some assms(1,2) opened(1) c(1) tag loop producer by (auto simp: locked_main_def work_def Let_def)
  from main [rule_format, OF this] have run: "main p args h = Some (if stopped then Exit 0 else Serving, ?h')" by simp
  show thesis
  proof (rule that [OF c(2,3) loop kept(1) run])
    show "view_at (now_disk (h_world ?h')) ?db = Catalog (committed c')" using w'(1) by simp
    show "history (h_world ?h') = history (h_world h) @ (hs @ hs')" using w(2) w'(2) by simp
    show "hs @ hs' \<noteq> []" using w(4) by simp
    show "\<forall>dk \<in> set (hs @ hs'). shows_recoverable ?db (opened d) dk" using w(3) w'(3) by auto
    show "stopped \<longleftrightarrow> list_ex (is_stop \<circ> snd) (p_queue p)" by (rule kept(2))
    show "k_holder (h_kernel ?h') (?db @ LOCK_SUFFIX) = None \<longleftrightarrow> stopped" using held by (cases stopped) simp_all
    show "h_sockets ?h' (the (a_tag_socket args)) = None \<longleftrightarrow> stopped" if "given (a_tag_socket args)"
      using close [OF that] by (cases stopped) simp_all
    show "pred_option (\<lambda>watcher. timers watcher = Map.empty) (h_handler ?h')" if stopped
      using that by (cases watcher) (simp_all add: cancel_timers_def)
  qed
qed

text \<open>C17. The daemon is its startup followed by its worker. Over an intact catalog and a free lock it brings the
  catalog up to date, binds its socket and drains its queue; in the end the served file shows exactly what
  \<open>worker_loop\<close> has committed, and at every moment before it a well-formed catalog. It ends when a stop has been
  taken up, with code 0, the lock free, its socket gone and no timer registered; until then it holds both.\<close>

theorem daemon_serves:
  assumes "\<not> a_once args" and "\<not> a_rebuild args" and "valid_source p args" and "client_fault p args = None"
    and "p_faults p = no_faults" and "k_holder (h_kernel h) (a_db args @ LOCK_SUFFIX) = None"
    and "view_at (now_disk (h_world h)) (a_db args) = Catalog d" and "usable (Catalog d)" and "good_clock (p_clock p)"
    and "lists (p_start p) ls" and "a_no_watch args \<or> p_producer p = None" and "list_all (fair \<circ> fst) (p_queue p)"
    and "\<And>sock n. a_tag_socket args = Some sock \<Longrightarrow> h_sockets h sock = Some n \<Longrightarrow> nd_is_socket n"
  shows "\<exists>h' c. in_sync c \<and> current_in (p_start p) ls (committed c) \<and>
    (let (stopped, c') = worker_loop (a_extract_workers args) (p_queue p) c in
      main p args h = Some (if stopped then Exit 0 else Serving, h') \<and> in_sync c' \<and>
      view_at (now_disk (h_world h')) (a_db args) = Catalog (committed c') \<and>
      (\<exists>hs. history (h_world h') = history (h_world h) @ hs \<and> (\<forall>dk \<in> set hs. shows_recoverable (a_db args) (opened d) dk)) \<and>
      (stopped \<longleftrightarrow> list_ex (is_stop \<circ> snd) (p_queue p)) \<and>
      (k_holder (h_kernel h') (a_db args @ LOCK_SUFFIX) = None \<longleftrightarrow> stopped) \<and>
      (given (a_tag_socket args) \<longrightarrow> (h_sockets h' (the (a_tag_socket args)) = None \<longleftrightarrow> stopped)) \<and>
      (stopped \<longrightarrow> pred_option (\<lambda>watcher. timers watcher = Map.empty) (h_handler h')))"
proof (rule daemon_run [OF assms])
  fix h' hs stopped and c c' :: writer
  assume "in_sync c" "current_in (p_start p) ls (committed c)" "in_sync c'"
    and loop: "worker_loop (a_extract_workers args) (p_queue p) c = (stopped, c')"
    and "main p args h = Some (if stopped then Exit 0 else Serving, h')"
    and "view_at (now_disk (h_world h')) (a_db args) = Catalog (committed c')"
    and "history (h_world h') = history (h_world h) @ hs" "\<forall>dk \<in> set hs. shows_recoverable (a_db args) (opened d) dk"
    and "stopped \<longleftrightarrow> list_ex (is_stop \<circ> snd) (p_queue p)"
    and "k_holder (h_kernel h') (a_db args @ LOCK_SUFFIX) = None \<longleftrightarrow> stopped"
    and "given (a_tag_socket args) \<Longrightarrow> h_sockets h' (the (a_tag_socket args)) = None \<longleftrightarrow> stopped"
    and "stopped \<Longrightarrow> pred_option (\<lambda>watcher. timers watcher = Map.empty) (h_handler h')"
  then show ?thesis by (intro exI [of _ h'] exI [of _ c]) (simp add: loop)
qed

section \<open>A daemon that is killed\<close>

text \<open>A process that can start, and one that goes on to serve.\<close>

definition ready :: "'s process \<Rightarrow> args \<Rightarrow> host \<Rightarrow> listing list \<Rightarrow> bool" where
  "ready p args h ls \<longleftrightarrow>
     \<not> a_rebuild args \<and> valid_source p args \<and> client_fault p args = None \<and> p_faults p = no_faults \<and>
     k_holder (h_kernel h) (a_db args @ LOCK_SUFFIX) = None \<and> good_clock (p_clock p) \<and> lists (p_start p) ls"

definition can_serve :: "'s process \<Rightarrow> args \<Rightarrow> host \<Rightarrow> bool" where
  "can_serve p args h \<longleftrightarrow>
     \<not> a_once args \<and> (a_no_watch args \<or> p_producer p = None) \<and> list_all (fair \<circ> fst) (p_queue p) \<and>
     (\<forall>sock n. a_tag_socket args = Some sock \<longrightarrow> h_sockets h sock = Some n \<longrightarrow> nd_is_socket n)"


section \<open>Sample processes\<close>

definition sample_args :: args where
  "sample_args =
     \<lparr>a_source = Local, a_s3_bucket = None, a_sqs_url = None, a_gcs_bucket = None, a_db = ''c'', a_tag_socket = Some ''s'',
      a_once = True, a_rebuild = False, a_no_watch = False, a_extract_workers = 8\<rparr>"

definition sample_process :: "unit process" where
  "sample_process =
     \<lparr>p_pid = 7, p_is_dir = True, p_client = None, p_faults = no_faults, p_publish = sample_env, p_clock = (\<lambda>_. 1),
      p_start = sample_moment, p_inode = 3, p_producer = None, p_queue = sample_queue,
      p_handler = new_handler\<rparr>"

definition sample_host :: "(string \<rightharpoonup> dbfile) \<Rightarrow> host" where
  "sample_host fs =
     \<lparr>h_kernel = \<lparr>k_holder = Map.empty, k_text = (\<lambda>_. []), k_open = Map.empty, k_next = 0\<rparr>,
      h_world = \<lparr>now_disk = \<lparr>dk_main = fs, dk_wal = Map.empty, dk_shm = {}, dk_next_gen = 1\<rparr>, history = []\<rparr>,
      h_sockets = Map.empty, h_handler = None\<rparr>"

lemma sample_lists: "lists (p_start sample_process) [sample_listing]"
  using sample_fair(1) sample_listed sample_distinct_objects by (simp add: lists_def sample_process_def) (simp add: sample_moment_def)

lemma sample_process_simps [simp]:
  "valid_source sample_process (sample_args\<lparr>a_once := b\<rparr>)" "client_fault sample_process (sample_args\<lparr>a_once := b\<rparr>) = None"
  "valid_source sample_process sample_args" "client_fault sample_process sample_args = None"
  "p_faults sample_process = no_faults" "good_clock (p_clock sample_process)" "good_clock (wall_clock (p_publish sample_process))"
  "temp_checkpoint (p_publish sample_process) = Inr (0, 2, 2)" "complete (0, 2, 2)" "p_producer sample_process = None"
  "p_queue sample_process = sample_queue"
  by (simp_all add: valid_source_def client_fault_def sample_process_def sample_args_def good_clock_def fits_sqlite_def sample_env_def
      complete_def)

lemma sample_args_simps [simp]:
  "a_db sample_args = ''c''" "a_once sample_args" "\<not> a_rebuild sample_args" "a_tag_socket sample_args = Some ''s''"
  "a_source sample_args = Local" "a_extract_workers sample_args = 8"
  by (simp_all add: sample_args_def)

lemma sample_host_simps [simp]:
  "k_holder (h_kernel (sample_host fs)) = Map.empty" "h_sockets (sample_host fs) = Map.empty"
  "k_next (h_kernel (sample_host fs)) = 0"
  by (simp_all add: sample_host_def)

text \<open>A host on which another builder holds the lock.\<close>

definition sample_held :: host where
  "sample_held = (sample_host Map.empty)
     \<lparr>h_kernel := \<lparr>k_holder = [''c'' @ LOCK_SUFFIX \<mapsto> 0], k_text = (\<lambda>_. []), k_open = [0 \<mapsto> ''c'' @ LOCK_SUFFIX], k_next = 1\<rparr>\<rparr>"

lemma sample_held_run: "\<exists>r h'. main sample_process sample_args sample_held = Some (r, h')"
  by (simp add: main_def sample_held_def acquire_writer_lock_def no_faults_def os_open_def flock_nb_def Let_def)

lemma sample_usable: "usable (Catalog sample_db)"
proof -
  have "sets_wf sample_db" using in_syncD(3) [OF sample_writer_in_sync] by simp
  moreover have "\<not> foreign_db sample_db" "\<not> other_version sample_db" "''schema_version'' \<in> set (db_tables sample_db)"
    by (simp_all add: foreign_db_def other_version_def sample_db_def schema_tables_def SCHEMA_VERSION_def)
  ultimately show ?thesis using sample_db_wf by (simp add: usable_def)
qed

theorem main_exit_codes_witness:
  "\<exists>h'. main sample_process sample_args sample_held = Some (Exit 3, h') \<and> h_world h' = h_world sample_held"
proof -
  obtain r h' where run: "main sample_process sample_args sample_held = Some (r, h')" using sample_held_run by blast
  then show ?thesis using main_exit_codes [OF run] by (auto simp: sample_held_def)
qed

theorem main_holds_lock_witness:
  "\<exists>r h'. main sample_process sample_args sample_held = Some (r, h') \<and> r \<noteq> Serving \<and>
    k_holder (h_kernel h') (''c'' @ LOCK_SUFFIX) = Some 0"
proof -
  obtain r h' where run: "main sample_process sample_args sample_held = Some (r, h')" using sample_held_run by blast
  have "fd < k_next (h_kernel sample_held)" if "k_holder (h_kernel sample_held) path = Some fd" for path fd
    using that by (simp add: sample_held_def split: if_splits)
  from main_holds_lock [OF run this] run show ?thesis
    by (intro exI [of _ r] exI [of _ h']) (cases r, simp_all add: sample_held_def)
qed

theorem once_builds_catalog_witness:
  "\<exists>h' d f. main sample_process sample_args (sample_host Map.empty) = Some (Exit 0, h') \<and>
    view_at (now_disk (h_world h')) ''c'' = Catalog d \<and> file_at d sample_dims = Some f \<and> ff_etag (f_facts f) = ''etag-1''"
proof -
  have view: "usable (view_at (now_disk (h_world (sample_host Map.empty))) (a_db sample_args))"
    by (simp add: usable_def view_at_def sample_host_def)
  have m: "p_start sample_process = sample_moment" by (simp add: sample_process_def)
  obtain h' d where run: "main sample_process sample_args (sample_host Map.empty) = Some (Exit 0, h')"
    "view_at (now_disk (h_world h')) ''c'' = Catalog d" "current_in (p_start sample_process) [sample_listing] d"
    using once_builds_catalog [OF _ _ _ _ _ _ view _ _ sample_lists, where answer = "(0, 2, 2)"] by auto
  from run(3) obtain f where "file_at d sample_dims = Some f" "ff_etag (f_facts f) = ''etag-1''"
    using sample_current [of d] by (auto simp: m)
  with run show ?thesis by blast
qed

theorem daemon_serves_witness:
  "\<exists>h' d. main sample_process (sample_args\<lparr>a_once := False\<rparr>) (sample_host [''c'' \<mapsto> \<lparr>df_gen = 0, df_content = Database sample_db\<rparr>]) =
      Some (Exit 0, h') \<and> view_at (now_disk (h_world h')) ''c'' = Catalog d \<and> db_wf d \<and> h_sockets h' ''s'' = None"
proof -
  let ?h = "sample_host [''c'' \<mapsto> \<lparr>df_gen = 0, df_content = Database sample_db\<rparr>]" and ?args = "sample_args\<lparr>a_once := False\<rparr>"
  have view: "view_at (now_disk (h_world ?h)) (a_db ?args) = Catalog sample_db" by (simp add: view_at_def sample_host_def)
  have fair: "list_all (fair \<circ> fst) (p_queue sample_process)" by (simp add: sample_queue_def sample_fair)
  have stop: "list_ex (is_stop \<circ> snd) sample_queue" by (simp add: sample_queue_def is_stop_def)
  note serves = daemon_serves [OF _ _ _ _ _ _ view sample_usable _ sample_lists _ fair]
  obtain h' and c' :: writer where "in_sync c'" "main sample_process ?args ?h = Some (Exit 0, h')"
    "view_at (now_disk (h_world h')) ''c'' = Catalog (committed c')" "h_sockets h' ''s'' = None"
    using serves stop by (auto simp: given_def split_beta)
  moreover from this have "db_wf (committed c')" by (simp add: in_sync_def)
  ultimately show ?thesis by blast
qed


end
